(* ===== verification/Prelude.thy ===== *)
theory Prelude
  imports Main "HOL-Library.Word"
begin

text \<open>
  Shared vocabulary of the development. The libraries under src/score report a failure in
  one of three ways: an error value inside a \<open>Result\<close>, a call of \<open>std::abort\<close> (also through a
  failed \<open>SCORE_LANGUAGE_FUTURECPP_ASSERT\<close> or a failed precondition check), or, when a guard is
  missing, undefined behaviour of C++ (signed overflow, an access outside an array).
  \<open>outcome\<close> makes the three explicit, so that a theorem saying that an operation returns also
  says that it neither aborts nor leaves the defined part of the language.
\<close>

section \<open>Outcomes of a C++ function\<close>

datatype ('e, 'a) outcome = Ret 'a | Err 'e | Abort | Undefined

fun bind_outcome :: "('e, 'a) outcome \<Rightarrow> ('a \<Rightarrow> ('e, 'b) outcome) \<Rightarrow> ('e, 'b) outcome" where
  "bind_outcome (Ret x) f = f x"
| "bind_outcome (Err e) f = Err e"
| "bind_outcome Abort f = Abort"
| "bind_outcome Undefined f = Undefined"

text \<open>The function returned normally (a value or an error object), so the program goes on.\<close>

fun returns :: "('e, 'a) outcome \<Rightarrow> bool" where
  "returns (Ret _) = True"
| "returns (Err _) = True"
| "returns _ = False"

text \<open>Code that reports no error objects.\<close>

type_synonym 'a result = "(unit, 'a) outcome"

named_theorems bounds \<open>bounds of the integral types\<close>

named_theorems inv_intros \<open>operations that keep the invariant of their component\<close>

lemma bind_outcome_eq_Ret [simp]:
  "bind_outcome m f = Ret y \<longleftrightarrow> (\<exists>x. m = Ret x \<and> f x = Ret y)"
  by (cases m) auto

lemma bind_outcome_assoc:
  "bind_outcome (bind_outcome m f) g = bind_outcome m (\<lambda>x. bind_outcome (f x) g)"
  by (cases m) auto

lemma bind_outcome_Ret_right [simp]: "bind_outcome m Ret = m"
  by (cases m) auto

lemma bind_outcome_cong [fundef_cong]:
  "m = m' \<Longrightarrow> (\<And>x. m' = Ret x \<Longrightarrow> f x = f' x) \<Longrightarrow> bind_outcome m f = bind_outcome m' f'"
  by (cases m') auto

section \<open>Loops with fuel\<close>

text \<open>
  A loop whose end depends on the state runs with fuel; \<open>None\<close> says that the fuel was used up before
  the loop ended.
\<close>

type_synonym 'a run = "'a result option"

fun bind_run :: "'a run \<Rightarrow> ('a \<Rightarrow> 'b run) \<Rightarrow> 'b run" where
  "bind_run None f = None"
| "bind_run (Some (Ret x)) f = f x"
| "bind_run (Some (Err e)) f = Some (Err e)"
| "bind_run (Some Abort) f = Some Abort"
| "bind_run (Some Undefined) f = Some Undefined"

primrec while_run :: "nat \<Rightarrow> ('s \<Rightarrow> bool result) \<Rightarrow> ('s \<Rightarrow> 's result) \<Rightarrow> 's \<Rightarrow> 's run" where
  "while_run 0 cond body s = None"
| "while_run (Suc fuel) cond body s = bind_run (Some (cond s)) (\<lambda>b.
     if b then bind_run (Some (body s)) (while_run fuel cond body) else Some (Ret s))"

text \<open>More fuel does not change the result of a loop that ended.\<close>

lemma while_run_more:
  "while_run fuel cond body s = Some r \<Longrightarrow> fuel \<le> fuel' \<Longrightarrow> while_run fuel' cond body s = Some r"
proof (induction fuel arbitrary: s fuel')
  case (Suc fuel)
  then obtain k where k: "fuel' = Suc k" "fuel \<le> k" by (cases fuel') auto
  show ?case
  proof (cases "cond s")
    case (Ret b)
    then show ?thesis using Suc k by (cases "body s") auto
  qed (use Suc k in auto)
qed simp

section \<open>Machine words\<close>

lemma bit_15 [simp]: "bit (15 :: nat) i \<longleftrightarrow> i < 4" "bit (15 :: int) i \<longleftrightarrow> i < 4"
  using bit_mask_iff[where ?'a = nat, of 4 i] bit_mask_iff[where ?'a = int, of 4 i]
  by (simp_all add: mask_eq_exp_minus_1)

lemma bit_255 [simp]: "bit (255 :: nat) i \<longleftrightarrow> i < 8" "bit (255 :: int) i \<longleftrightarrow> i < 8"
  using bit_mask_iff[where ?'a = nat, of 8 i] bit_mask_iff[where ?'a = int, of 8 i]
  by (simp_all add: mask_eq_exp_minus_1)

lemma bit_ones32 [simp]: "bit (0xFFFFFFFF :: nat) i \<longleftrightarrow> i < 32" "bit (0xFFFFFFFF :: int) i \<longleftrightarrow> i < 32"
  using bit_mask_iff[where ?'a = nat, of 32 i] bit_mask_iff[where ?'a = int, of 32 i]
  by (simp_all add: mask_eq_exp_minus_1)

lemma unat_drop_bit_div: "unat (drop_bit n w) = unat w div 2 ^ n"
  by (simp only: unat_drop_bit_eq flip: drop_bit_eq_div)

lemma byte_of_nat: "word_of_nat (unat w div 256 ^ i) = (ucast (drop_bit (8 * i) w) :: 8 word)"
proof -
  have "word_of_nat (unat w div 256 ^ i) = (word_of_nat (unat (drop_bit (8 * i) w)) :: 8 word)"
    by (simp add: unat_drop_bit_div power_mult)
  then show ?thesis by simp
qed

lemma bit_window:
  assumes "(c::nat) = (2 ^ n - 1) * 2 ^ m" shows "bit c i \<longleftrightarrow> m \<le> i \<and> i < m + n"
proof -
  have "c = push_bit m (mask n)" by (simp add: assms mask_eq_exp_minus_1 push_bit_eq_mult)
  then show ?thesis by (auto simp: bit_simps)
qed

lemma bit_window_int:
  assumes "(c::int) = (2 ^ n - 1) * 2 ^ m" shows "bit c i \<longleftrightarrow> m \<le> i \<and> i < m + n"
proof -
  have "c = push_bit m (mask n)" by (simp add: assms mask_eq_exp_minus_1 push_bit_eq_mult)
  then show ?thesis by (auto simp: bit_simps)
qed

end
