(* ===== verification/Safe_Math.thy ===== *)
theory Safe_Math
  imports Prelude
begin

text \<open>
  The safe-arithmetic library src/score/language/safecpp/safe_math, for its integral overloads:
  comparison (comparison.h), casts (cast.h), absolute value (absolute.h), negation (negate.h),
  addition and subtraction (addition_subtraction.h), multiplication (multiplication.h) and
  division (division.h), in both return modes of return_mode.h.

  A value of an integral C++ type is the pair of the type and an integer inside the bounds of
  the type (\<open>rep T v\<close>). The conversions and promotions of the language are written out, and
  an arithmetic expression whose promoted type is signed and whose exact result does not fit is
  \<open>Undefined\<close>.
\<close>

section \<open>Integral types, conversions and arithmetic of the language\<close>

datatype ctype = Int8 | Int16 | Int32 | Int64 | UInt8 | UInt16 | UInt32 | UInt64

fun is_signed :: "ctype \<Rightarrow> bool" where
  "is_signed T = (T \<in> {Int8, Int16, Int32, Int64})"

fun width :: "ctype \<Rightarrow> nat" where
  "width Int8 = 8"
| "width UInt8 = 8"
| "width Int16 = 16"
| "width UInt16 = 16"
| "width Int32 = 32"
| "width UInt32 = 32"
| "width Int64 = 64"
| "width UInt64 = 64"

definition digits :: "ctype \<Rightarrow> nat" where
  "digits T = (if is_signed T then width T - 1 else width T)"

definition lowest :: "ctype \<Rightarrow> int" where
  "lowest T = (if is_signed T then - (2 ^ (width T - 1)) else 0)"

definition max_of :: "ctype \<Rightarrow> int" where
  "max_of T = 2 ^ digits T - 1"

definition rep :: "ctype \<Rightarrow> int \<Rightarrow> bool" where
  "rep T v \<longleftrightarrow> lowest T \<le> v \<and> v \<le> max_of T"

definition static_cast :: "ctype \<Rightarrow> int \<Rightarrow> int" where
  "static_cast T v =
     (if is_signed T then (v + 2 ^ (width T - 1)) mod 2 ^ width T - 2 ^ (width T - 1)
      else v mod 2 ^ width T)"

fun make_unsigned :: "ctype \<Rightarrow> ctype" where
  "make_unsigned Int8 = UInt8"
| "make_unsigned Int16 = UInt16"
| "make_unsigned Int32 = UInt32"
| "make_unsigned Int64 = UInt64"
| "make_unsigned T = T"

fun make_signed :: "ctype \<Rightarrow> ctype" where
  "make_signed UInt8 = Int8"
| "make_signed UInt16 = Int16"
| "make_signed UInt32 = Int32"
| "make_signed UInt64 = Int64"
| "make_signed T = T"

text \<open>Integral promotion and the usual arithmetic conversions.\<close>

definition promote :: "ctype \<Rightarrow> ctype" where
  "promote T = (if width T < 32 then Int32 else T)"

definition common_type :: "ctype \<Rightarrow> ctype \<Rightarrow> ctype" where
  "common_type S T =
     (let A = promote S; B = promote T
      in if is_signed A = is_signed B then (if width A \<ge> width B then A else B)
         else if is_signed A then (if width B \<ge> width A then B else A)
         else (if width A \<ge> width B then A else B))"

text \<open>\<open>in_type C x\<close> is the value an operator of promoted type \<open>C\<close> has whose exact result is \<open>x\<close>.\<close>

definition in_type :: "ctype \<Rightarrow> int \<Rightarrow> ('e, int) outcome" where
  "in_type C x = (if is_signed C then (if rep C x then Ret x else Undefined) else Ret (static_cast C x))"

definition arith :: "(int \<Rightarrow> int \<Rightarrow> int) \<Rightarrow> ctype \<Rightarrow> ctype \<Rightarrow> int \<Rightarrow> int \<Rightarrow> ('e, int) outcome" where
  "arith f S T a b =
     (let C = common_type S T in in_type C (f (static_cast C a) (static_cast C b)))"

definition uminus_c :: "ctype \<Rightarrow> int \<Rightarrow> ('e, int) outcome" where
  "uminus_c T a = in_type (promote T) (- a)"

text \<open>Division and remainder; the operands of the library are never negative there.\<close>

definition divide_c :: "ctype \<Rightarrow> ctype \<Rightarrow> int \<Rightarrow> int \<Rightarrow> ('e, int) outcome" where
  "divide_c S T a b = (if b = 0 then Undefined else arith (\<lambda>x y. sgn x * sgn y * (\<bar>x\<bar> div \<bar>y\<bar>)) S T a b)"

definition modulo_c :: "ctype \<Rightarrow> ctype \<Rightarrow> int \<Rightarrow> int \<Rightarrow> ('e, int) outcome" where
  "modulo_c S T a b = (if b = 0 then Undefined else arith (\<lambda>x y. sgn x * (\<bar>x\<bar> mod \<bar>y\<bar>)) S T a b)"

section \<open>type_traits.h and return_mode.h\<close>

definition bigger_type :: "ctype \<Rightarrow> ctype \<Rightarrow> ctype" where
  "bigger_type S T = (if digits S \<ge> digits T then S else T)"

datatype ErrorCode = kUnknown | kExceedsNumericLimits | kImplicitRounding | kDivideByZero

datatype ReturnMode = kReturnResultOnError | kAbortOnError

type_synonym 'a mode_result = "(ErrorCode, 'a) outcome"

definition HandleError :: "ReturnMode \<Rightarrow> ErrorCode \<Rightarrow> 'a mode_result" where
  "HandleError return_mode error =
     (case return_mode of kReturnResultOnError \<Rightarrow> Err error | kAbortOnError \<Rightarrow> Abort)"

section \<open>comparison.h\<close>

text \<open>The three integral overloads of \<open>CmpLess\<close> and the overload resolution between them.\<close>

definition CmpLess_same :: "ctype \<Rightarrow> ctype \<Rightarrow> int \<Rightarrow> int \<Rightarrow> bool" where
  "CmpLess_same Lhs Rhs lhs rhs =
     (let BiggerType = bigger_type Lhs Rhs
      in static_cast BiggerType lhs < static_cast BiggerType rhs)"

definition CmpLess_signed_unsigned :: "ctype \<Rightarrow> ctype \<Rightarrow> int \<Rightarrow> int \<Rightarrow> bool" where
  "CmpLess_signed_unsigned SignedLhs UnsignedRhs lhs_signed rhs_unsigned =
     (if CmpLess_same SignedLhs SignedLhs lhs_signed 0 then True
      else let BiggerType = bigger_type (make_unsigned SignedLhs) UnsignedRhs
           in static_cast BiggerType lhs_signed < static_cast BiggerType rhs_unsigned)"

definition CmpLess_unsigned_signed :: "ctype \<Rightarrow> ctype \<Rightarrow> int \<Rightarrow> int \<Rightarrow> bool" where
  "CmpLess_unsigned_signed UnsignedLhs SignedRhs lhs_unsigned signed_rhs =
     (if CmpLess_same SignedRhs SignedRhs signed_rhs 0 then False
      else let BiggerUnsignedType = bigger_type UnsignedLhs (make_unsigned SignedRhs)
           in static_cast BiggerUnsignedType lhs_unsigned < static_cast BiggerUnsignedType signed_rhs)"

definition CmpLess :: "ctype \<Rightarrow> ctype \<Rightarrow> int \<Rightarrow> int \<Rightarrow> bool" where
  "CmpLess Lhs Rhs =
     (if is_signed Lhs = is_signed Rhs then CmpLess_same Lhs Rhs
      else if is_signed Lhs then CmpLess_signed_unsigned Lhs Rhs
      else CmpLess_unsigned_signed Lhs Rhs)"

definition CmpEqual_same :: "ctype \<Rightarrow> ctype \<Rightarrow> int \<Rightarrow> int \<Rightarrow> bool" where
  "CmpEqual_same Lhs Rhs lhs rhs =
     (let BiggerType = bigger_type Lhs Rhs
      in static_cast BiggerType lhs = static_cast BiggerType rhs)"

definition CmpEqual_signed_unsigned :: "ctype \<Rightarrow> ctype \<Rightarrow> int \<Rightarrow> int \<Rightarrow> bool" where
  "CmpEqual_signed_unsigned SignedLhs UnsignedRhs lhs_signed rhs_unsigned =
     (let BiggerUnsignedType = bigger_type (make_unsigned SignedLhs) UnsignedRhs
      in if CmpLess SignedLhs SignedLhs lhs_signed 0 then False
         else static_cast BiggerUnsignedType lhs_signed = static_cast BiggerUnsignedType rhs_unsigned)"

definition CmpEqual_unsigned_signed :: "ctype \<Rightarrow> ctype \<Rightarrow> int \<Rightarrow> int \<Rightarrow> bool" where
  "CmpEqual_unsigned_signed UnsignedLhs SignedRhs lhs_unsigned rhs_signed =
     CmpEqual_signed_unsigned SignedRhs UnsignedLhs rhs_signed lhs_unsigned"

definition CmpEqual :: "ctype \<Rightarrow> ctype \<Rightarrow> int \<Rightarrow> int \<Rightarrow> bool" where
  "CmpEqual Lhs Rhs =
     (if is_signed Lhs = is_signed Rhs then CmpEqual_same Lhs Rhs
      else if is_signed Lhs then CmpEqual_signed_unsigned Lhs Rhs
      else CmpEqual_unsigned_signed Lhs Rhs)"

definition CmpNotEqual :: "ctype \<Rightarrow> ctype \<Rightarrow> int \<Rightarrow> int \<Rightarrow> bool" where
  "CmpNotEqual Lhs Rhs lhs rhs = (\<not> CmpEqual Lhs Rhs lhs rhs)"

definition CmpGreater :: "ctype \<Rightarrow> ctype \<Rightarrow> int \<Rightarrow> int \<Rightarrow> bool" where
  "CmpGreater Lhs Rhs lhs rhs = CmpLess Rhs Lhs rhs lhs"

definition CmpLessEqual :: "ctype \<Rightarrow> ctype \<Rightarrow> int \<Rightarrow> int \<Rightarrow> bool" where
  "CmpLessEqual Lhs Rhs lhs rhs = (\<not> CmpGreater Lhs Rhs lhs rhs)"

definition CmpGreaterEqual :: "ctype \<Rightarrow> ctype \<Rightarrow> int \<Rightarrow> int \<Rightarrow> bool" where
  "CmpGreaterEqual Lhs Rhs lhs rhs = (\<not> CmpLess Lhs Rhs lhs rhs)"

section \<open>cast.h, absolute.h and negate.h\<close>

definition IsOutsideBoundsOfR :: "ctype \<Rightarrow> ctype \<Rightarrow> int \<Rightarrow> bool" where
  "IsOutsideBoundsOfR R T value \<longleftrightarrow>
     CmpLess T R value (lowest R) \<or> CmpGreater T R value (max_of R)"

definition CastWithBoundsCheck :: "ReturnMode \<Rightarrow> ctype \<Rightarrow> ctype \<Rightarrow> int \<Rightarrow> int mode_result" where
  "CastWithBoundsCheck return_mode R T value =
     (if IsOutsideBoundsOfR R T value then HandleError return_mode kExceedsNumericLimits
      else Ret (static_cast R value))"

definition Cast :: "ReturnMode \<Rightarrow> ctype \<Rightarrow> ctype \<Rightarrow> int \<Rightarrow> int mode_result" where
  "Cast return_mode R T value = CastWithBoundsCheck return_mode R T value"

definition Abs_unsigned :: "ctype \<Rightarrow> int \<Rightarrow> int mode_result" where
  "Abs_unsigned T value = Ret value"

definition Abs_signed :: "ctype \<Rightarrow> int \<Rightarrow> int mode_result" where
  "Abs_signed Signed value =
     (let Unsigned = make_unsigned Signed
      in if CmpEqual Signed Signed value (lowest Signed)
         then bind_outcome (arith (+) Unsigned UInt32 (static_cast Unsigned (max_of Signed)) 1)
                (\<lambda>x. Ret (static_cast Unsigned x))
         else if CmpLess Signed Int32 value 0
         then bind_outcome (uminus_c Signed value)
                (\<lambda>x. Ret (static_cast Unsigned (static_cast Signed x)))
         else Ret (static_cast Unsigned value))"

definition Abs :: "ctype \<Rightarrow> int \<Rightarrow> int mode_result" where
  "Abs T value = (if is_signed T then Abs_signed T value else Abs_unsigned T value)"

definition Negate_unsigned :: "ReturnMode \<Rightarrow> ctype \<Rightarrow> ctype \<Rightarrow> int \<Rightarrow> int mode_result" where
  "Negate_unsigned return_mode R Unsigned value =
     bind_outcome
       (if is_signed R
        then bind_outcome (Abs R (lowest R)) (\<lambda>a. Ret (CmpEqual Unsigned (make_unsigned R) value a))
        else Ret False)
       (\<lambda>is_abs_of_lowest.
          if is_abs_of_lowest then Ret (lowest R)
          else let SignedR = make_signed R
               in bind_outcome (Cast return_mode SignedR Unsigned value) (\<lambda>expected_cast_value.
                    bind_outcome (uminus_c SignedR expected_cast_value) (\<lambda>x.
                      let inverse = static_cast SignedR x in Cast return_mode R SignedR inverse)))"

definition Negate_signed :: "ReturnMode \<Rightarrow> ctype \<Rightarrow> ctype \<Rightarrow> int \<Rightarrow> int mode_result" where
  "Negate_signed return_mode R Signed value =
     (if CmpLess Signed Int32 value 0
      then bind_outcome (Abs Signed value) (Cast return_mode R (make_unsigned Signed))
      else bind_outcome (uminus_c Signed value) (\<lambda>x.
             let inverse = static_cast Signed x in Cast return_mode R Signed inverse))"

definition Negate :: "ReturnMode \<Rightarrow> ctype \<Rightarrow> ctype \<Rightarrow> int \<Rightarrow> int mode_result" where
  "Negate return_mode R T value =
     (if is_signed T then Negate_signed return_mode R T value
      else Negate_unsigned return_mode R T value)"

section \<open>addition_subtraction.h, multiplication.h and division.h\<close>

text \<open>
  \<open>Add\<close> and \<open>Subtract\<close> call each other through their overloads: \<open>Add(LHS, SignedRHS)\<close> turns a
  negative right-hand side into a subtraction of its absolute value, \<open>Add(SignedLHS, UnsignedRHS)\<close>
  swaps its operands, and so on. Every such call has fewer signed operands, or moves the signed
  operand to the right. The overload for two unsigned operands is a definition of its own.
\<close>

definition Add_unsigned :: "ReturnMode \<Rightarrow> ctype \<Rightarrow> ctype \<Rightarrow> ctype \<Rightarrow> int \<Rightarrow> int \<Rightarrow> int mode_result" where
  "Add_unsigned return_mode R UnsignedLHS UnsignedRHS lhs_unsigned rhs_unsigned =
     bind_outcome (Cast return_mode R UnsignedLHS lhs_unsigned) (\<lambda>lhs_common_type.
     bind_outcome (Cast return_mode R UnsignedRHS rhs_unsigned) (\<lambda>rhs_common_type.
     bind_outcome (arith (-) R R (max_of R) rhs_common_type) (\<lambda>d.
       let min_allowed_value = static_cast R d
       in if CmpGreater R R lhs_common_type min_allowed_value
          then HandleError return_mode kExceedsNumericLimits
          else bind_outcome (arith (+) R R lhs_common_type rhs_common_type) (\<lambda>s.
                 Ret (static_cast R s)))))"

definition Subtract_unsigned ::
  "ReturnMode \<Rightarrow> ctype \<Rightarrow> ctype \<Rightarrow> ctype \<Rightarrow> int \<Rightarrow> int \<Rightarrow> int mode_result" where
  "Subtract_unsigned return_mode R UnsignedLHS UnsignedRHS lhs_unsigned rhs_unsigned =
     (if CmpLess UnsignedLHS UnsignedRHS lhs_unsigned rhs_unsigned
      then let lhs_unsigned_cast = static_cast UnsignedRHS lhs_unsigned
           in bind_outcome (arith (-) UnsignedRHS UnsignedRHS rhs_unsigned lhs_unsigned_cast) (\<lambda>d.
                let reverse_operation_result = static_cast UnsignedRHS d
                in Negate return_mode R UnsignedRHS reverse_operation_result)
      else let intermediary_type = bigger_type UnsignedLHS UnsignedRHS
           in bind_outcome (arith (-) UnsignedLHS UnsignedRHS lhs_unsigned rhs_unsigned) (\<lambda>d.
                let result = static_cast intermediary_type d
                in Cast return_mode R intermediary_type result))"

lemma make_unsigned_not_signed: "\<not> is_signed (make_unsigned T)"
  by (cases T) auto

function Add :: "ReturnMode \<Rightarrow> ctype \<Rightarrow> ctype \<Rightarrow> ctype \<Rightarrow> int \<Rightarrow> int \<Rightarrow> int mode_result"
  and Subtract :: "ReturnMode \<Rightarrow> ctype \<Rightarrow> ctype \<Rightarrow> ctype \<Rightarrow> int \<Rightarrow> int \<Rightarrow> int mode_result"
where
  "Add return_mode R LHS RHS lhs rhs =
     (if is_signed RHS
      then if CmpLess RHS Int32 rhs 0
           then bind_outcome (Abs RHS rhs) (\<lambda>a. Subtract return_mode R LHS (make_unsigned RHS) lhs a)
           else let rhs_unsigned = static_cast (make_unsigned RHS) rhs
                in Add return_mode R LHS (make_unsigned RHS) lhs rhs_unsigned
      else if is_signed LHS then Add return_mode R RHS LHS rhs lhs
      else Add_unsigned return_mode R LHS RHS lhs rhs)"
| "Subtract return_mode R LHS RHS lhs rhs =
     (if is_signed RHS
      then if CmpLess RHS UInt32 rhs 0
           then bind_outcome (Abs RHS rhs) (\<lambda>a. Add return_mode R LHS (make_unsigned RHS) lhs a)
           else let rhs_unsigned = static_cast (make_unsigned RHS) rhs
                in Subtract return_mode R LHS (make_unsigned RHS) lhs rhs_unsigned
      else if is_signed LHS
      then if CmpLess LHS Int32 lhs 0
           then bind_outcome (Abs LHS lhs) (\<lambda>a.
                  bind_outcome (Add return_mode UInt64 (make_unsigned LHS) RHS a rhs) (\<lambda>intermediate.
                    Negate return_mode R UInt64 intermediate))
           else let lhs_unsigned = static_cast (make_unsigned LHS) lhs
                in Subtract return_mode R (make_unsigned LHS) RHS lhs_unsigned rhs
      else Subtract_unsigned return_mode R LHS RHS lhs rhs)"
  by pat_completeness auto

termination
  by (relation "measure (\<lambda>x. case x of
        Inl (_, _, LHS, RHS, _, _) \<Rightarrow> 2 * of_bool (is_signed LHS) + of_bool (is_signed RHS)
      | Inr (_, _, LHS, RHS, _, _) \<Rightarrow> 2 * of_bool (is_signed LHS) + of_bool (is_signed RHS))")
     (simp_all add: make_unsigned_not_signed del: is_signed.simps)

declare Add.simps [simp del] Subtract.simps [simp del]

definition Multiply :: "ReturnMode \<Rightarrow> ctype \<Rightarrow> ctype \<Rightarrow> ctype \<Rightarrow> int \<Rightarrow> int \<Rightarrow> int mode_result" where
  "Multiply return_mode R LHS RHS lhs rhs =
     (if CmpEqual LHS Int32 lhs 0 \<or> CmpEqual RHS Int32 rhs 0 then Cast return_mode R Int32 0
      else let CommonType = bigger_type (make_unsigned LHS) (make_unsigned RHS)
           in bind_outcome (Abs LHS lhs) (\<lambda>al. bind_outcome (Abs RHS rhs) (\<lambda>ar.
                let abs_lhs = static_cast CommonType al;
                    abs_rhs = static_cast CommonType ar
                in bind_outcome (divide_c CommonType CommonType (max_of CommonType) abs_rhs) (\<lambda>q.
                     let numeric_limit = static_cast CommonType q
                     in if CmpGreater CommonType CommonType abs_lhs numeric_limit
                        then HandleError return_mode kExceedsNumericLimits
                        else bind_outcome (arith (*) CommonType CommonType abs_lhs abs_rhs) (\<lambda>p.
                               let result = static_cast CommonType p
                               in if CmpLess LHS Int32 lhs 0 = CmpLess RHS Int32 rhs 0
                                  then Cast return_mode R CommonType result
                                  else Negate return_mode R CommonType result)))))"

definition Divide :: "ReturnMode \<Rightarrow> ctype \<Rightarrow> ctype \<Rightarrow> ctype \<Rightarrow> int \<Rightarrow> int \<Rightarrow> int mode_result" where
  "Divide return_mode R LHS RHS lhs rhs =
     (if CmpEqual RHS Int32 rhs 0 then HandleError return_mode kDivideByZero
      else let CommonType = bigger_type (make_unsigned LHS) (make_unsigned RHS)
           in bind_outcome (Abs LHS lhs) (\<lambda>al. bind_outcome (Abs RHS rhs) (\<lambda>ar.
                let abs_lhs = static_cast CommonType al;
                    abs_rhs = static_cast CommonType ar
                in bind_outcome (modulo_c CommonType CommonType abs_lhs abs_rhs) (\<lambda>m.
                     if m \<noteq> 0 then HandleError return_mode kImplicitRounding
                     else bind_outcome (divide_c CommonType CommonType abs_lhs abs_rhs) (\<lambda>q.
                            let result = static_cast CommonType q
                            in if CmpLess LHS Int32 lhs 0 = CmpLess RHS Int32 rhs 0
                               then Cast return_mode R CommonType result
                               else Negate return_mode R CommonType result)))))"

section \<open>Specification\<close>

text \<open>
  What the library promises: the mathematical result when it fits into the result type, and
  otherwise the error of the return mode. \<open>Multiply\<close> computes in the larger of the two operand
  widths (\<open>fits_common\<close>), so its product must fit there too.
\<close>

definition exact :: "ReturnMode \<Rightarrow> ctype \<Rightarrow> int \<Rightarrow> int mode_result" where
  "exact return_mode R v = (if rep R v then Ret v else HandleError return_mode kExceedsNumericLimits)"

definition fits_common :: "ctype \<Rightarrow> ctype \<Rightarrow> int \<Rightarrow> bool" where
  "fits_common LHS RHS v \<longleftrightarrow> \<bar>v\<bar> \<le> max_of (bigger_type (make_unsigned LHS) (make_unsigned RHS))"

definition add_spec :: "ctype \<Rightarrow> ctype \<Rightarrow> ctype \<Rightarrow> int \<Rightarrow> int \<Rightarrow> ErrorCode + int" where
  "add_spec R S T a b = (if rep R (a + b) then Inr (a + b) else Inl kExceedsNumericLimits)"

definition sub_spec :: "ctype \<Rightarrow> ctype \<Rightarrow> ctype \<Rightarrow> int \<Rightarrow> int \<Rightarrow> ErrorCode + int" where
  "sub_spec R S T a b = (if rep R (a - b) then Inr (a - b) else Inl kExceedsNumericLimits)"

definition mul_spec :: "ctype \<Rightarrow> ctype \<Rightarrow> ctype \<Rightarrow> int \<Rightarrow> int \<Rightarrow> ErrorCode + int" where
  "mul_spec R S T a b =
     (if fits_common S T (a * b) \<and> rep R (a * b) then Inr (a * b) else Inl kExceedsNumericLimits)"

definition div_spec :: "ctype \<Rightarrow> ctype \<Rightarrow> ctype \<Rightarrow> int \<Rightarrow> int \<Rightarrow> ErrorCode + int" where
  "div_spec R S T a b =
     (if b = 0 then Inl kDivideByZero
      else if \<not> b dvd a then Inl kImplicitRounding
      else if rep R (a div b) then Inr (a div b) else Inl kExceedsNumericLimits)"

text \<open>
  The contract shared by the four binary operations: the specification decides the value or the
  error, and the return mode only decides how an error leaves the function.
\<close>

locale checked_op =
  fixes operation :: "ReturnMode \<Rightarrow> ctype \<Rightarrow> ctype \<Rightarrow> ctype \<Rightarrow> int \<Rightarrow> int \<Rightarrow> int mode_result"
    and spec :: "ctype \<Rightarrow> ctype \<Rightarrow> ctype \<Rightarrow> int \<Rightarrow> int \<Rightarrow> ErrorCode + int"
  assumes refines: "rep S a \<Longrightarrow> rep T b \<Longrightarrow>
      operation m R S T a b = (case spec R S T a b of Inl e \<Rightarrow> HandleError m e | Inr v \<Rightarrow> Ret v)"
    and spec_rep: "spec R S T a b = Inr v \<Longrightarrow> rep R v"
begin

lemma never_undefined: "rep S a \<Longrightarrow> rep T b \<Longrightarrow> operation m R S T a b \<noteq> Undefined"
  by (auto simp: refines HandleError_def split: sum.splits ReturnMode.splits)

lemma result_rep: "rep S a \<Longrightarrow> rep T b \<Longrightarrow> operation m R S T a b = Ret v \<Longrightarrow> rep R v"
  by (auto simp: refines HandleError_def dest: spec_rep split: sum.splits ReturnMode.splits)

lemma result_mode_returns:
  "rep S a \<Longrightarrow> rep T b \<Longrightarrow> returns (operation kReturnResultOnError R S T a b)"
  by (auto simp: refines HandleError_def split: sum.splits)

lemma modes_agree:
  assumes "rep S a" "rep T b"
  shows "operation kAbortOnError R S T a b =
    (case operation kReturnResultOnError R S T a b of Ret v \<Rightarrow> Ret v | _ \<Rightarrow> Abort)"
  using assms by (auto simp: refines HandleError_def split: sum.splits)

end

section \<open>Bounds, conversions and comparison\<close>

declare is_signed.simps [simp del]

lemma is_signed_simps [simp]:
  "is_signed Int8" "is_signed Int16" "is_signed Int32" "is_signed Int64"
  "\<not> is_signed UInt8" "\<not> is_signed UInt16" "\<not> is_signed UInt32" "\<not> is_signed UInt64"
  by (simp_all add: is_signed.simps)

lemma width_bounds [simp]: "0 < width T" "8 \<le> width T" "width T \<le> 64"
  by (cases T; simp)+

lemma width_make [simp]: "width (make_unsigned T) = width T" "width (make_signed T) = width T"
  by (cases T; simp)+

lemma is_signed_make [simp]: "\<not> is_signed (make_unsigned T)" "is_signed (make_signed T)"
  by (cases T; simp)+

lemma make_id [simp]: "is_signed T \<Longrightarrow> make_signed T = T" "\<not> is_signed T \<Longrightarrow> make_unsigned T = T"
  by (cases T; simp)+

lemma ctype_eqI: "is_signed S = is_signed T \<Longrightarrow> width S = width T \<Longrightarrow> S = T"
  by (cases S; cases T; simp)

lemma pow2_width: "(2::int) ^ width T = 2 * 2 ^ (width T - 1)"
  by (cases T) simp_all

lemma max_of_signed: "is_signed T \<Longrightarrow> max_of T = 2 ^ (width T - 1) - 1"
  and max_of_unsigned: "\<not> is_signed T \<Longrightarrow> max_of T = 2 ^ width T - 1"
  and lowest_signed: "is_signed T \<Longrightarrow> lowest T = - (2 ^ (width T - 1))"
  and lowest_unsigned: "\<not> is_signed T \<Longrightarrow> lowest T = 0"
  by (simp_all add: max_of_def digits_def lowest_def)

lemmas limits = max_of_signed max_of_unsigned lowest_signed lowest_unsigned

lemma rep_limits [simp]: "rep T (lowest T)" "rep T (max_of T)" "rep T 0"
  by (cases T; simp add: rep_def lowest_def max_of_def digits_def)+

lemma lowest_le_0 [simp]: "lowest T \<le> 0" and max_of_ge_0 [simp]: "0 \<le> max_of T"
  by (simp_all add: lowest_def max_of_def)

lemma rep_signed: "is_signed T \<Longrightarrow> rep T v \<longleftrightarrow> - (2 ^ (width T - 1)) \<le> v \<and> v < 2 ^ (width T - 1)"
  and rep_unsigned: "\<not> is_signed T \<Longrightarrow> rep T v \<longleftrightarrow> 0 \<le> v \<and> v < 2 ^ width T"
  by (auto simp: rep_def limits)

lemma static_cast_id [simp]: "rep T v \<Longrightarrow> static_cast T v = v"
  by (cases "is_signed T")
     (auto simp: rep_signed rep_unsigned static_cast_def pow2_width mod_pos_pos_trivial)

lemma rep_static_cast [simp]: "rep T (static_cast T v)"
proof (cases "is_signed T")
  case True
  have "0 \<le> (v + 2 ^ (width T - 1)) mod 2 ^ width T" "(v + 2 ^ (width T - 1)) mod 2 ^ width T < 2 ^ width T"
    by simp_all
  with True show ?thesis by (simp add: rep_signed static_cast_def pow2_width)
qed (simp add: rep_unsigned static_cast_def)

lemma rep_mono:
  assumes "rep S v" "0 \<le> v" "digits S \<le> digits T" shows "rep T v"
proof -
  from assms(1) have "v < 2 ^ digits S" by (simp add: rep_def max_of_def)
  also have "\<dots> \<le> 2 ^ digits T" using assms(3) by simp
  finally show ?thesis
    using assms(2) by (auto simp: rep_def max_of_def intro: order_trans[OF lowest_le_0])
qed

lemma rep_mono_same:
  assumes "rep S v" "is_signed S = is_signed T" "digits S \<le> digits T" shows "rep T v"
proof (cases "0 \<le> v")
  case False
  with assms(1) have s: "is_signed S" by (auto simp: rep_def lowest_def split: if_splits)
  have "- (2 ^ digits T) \<le> (- (2 ^ digits S) :: int)" using assms(3) by simp
  also have "\<dots> \<le> v" using assms(1) s by (simp add: rep_def lowest_def digits_def)
  finally have "lowest T \<le> v" using assms(2) s by (simp add: lowest_def digits_def)
  with False show ?thesis by (auto simp: rep_def intro: order_trans[OF _ max_of_ge_0])
qed (use assms rep_mono in blast)

lemma rep_make_unsigned: "rep T v \<Longrightarrow> 0 \<le> v \<Longrightarrow> rep (make_unsigned T) v"
  by (rule rep_mono[of T]) (auto simp: digits_def)

lemma digits_bigger: "digits S \<le> digits (bigger_type S T)" "digits T \<le> digits (bigger_type S T)"
  by (auto simp: bigger_type_def)

lemma is_signed_bigger: "is_signed S = is_signed T \<Longrightarrow> is_signed (bigger_type S T) = is_signed S"
  by (auto simp: bigger_type_def)

lemma rep_bigger:
  assumes "is_signed S = is_signed T"
  shows "rep S v \<Longrightarrow> rep (bigger_type S T) v" "rep T v \<Longrightarrow> rep (bigger_type S T) v"
  using assms digits_bigger[of S T] digits_bigger[of T S] is_signed_bigger[OF assms]
  by (auto intro: rep_mono_same)

lemma CmpLess_same_eq:
  assumes "is_signed S = is_signed T" "rep S a" "rep T b"
  shows "CmpLess_same S T a b \<longleftrightarrow> a < b"
  using assms by (simp add: CmpLess_same_def rep_bigger)

lemma CmpEqual_same_eq:
  assumes "is_signed S = is_signed T" "rep S a" "rep T b"
  shows "CmpEqual_same S T a b \<longleftrightarrow> a = b"
  using assms by (simp add: CmpEqual_same_def rep_bigger)

lemma unsigned_nonneg: "\<not> is_signed T \<Longrightarrow> rep T v \<Longrightarrow> 0 \<le> v"
  by (simp add: rep_unsigned)

lemma CmpLess_eq [simp]:
  assumes "rep S a" "rep T b"
  shows "CmpLess S T a b \<longleftrightarrow> a < b"
proof -
  have u: "\<not> is_signed X \<Longrightarrow> rep X v \<Longrightarrow> 0 \<le> v" for X v by (rule unsigned_nonneg)
  show ?thesis
    using assms u[of S a] u[of T b]
    by (auto simp: CmpLess_def CmpLess_same_eq CmpLess_signed_unsigned_def CmpLess_unsigned_signed_def
          rep_make_unsigned rep_bigger)
qed

lemma CmpEqual_eq [simp]:
  assumes "rep S a" "rep T b"
  shows "CmpEqual S T a b \<longleftrightarrow> a = b"
proof -
  have u: "\<not> is_signed X \<Longrightarrow> rep X v \<Longrightarrow> 0 \<le> v" for X v by (rule unsigned_nonneg)
  show ?thesis
    using assms u[of S a] u[of T b]
    by (auto simp: CmpEqual_def CmpEqual_same_eq CmpEqual_signed_unsigned_def CmpEqual_unsigned_signed_def
          rep_make_unsigned rep_bigger)
qed

lemma CmpGreater_eq [simp]: "rep S a \<Longrightarrow> rep T b \<Longrightarrow> CmpGreater S T a b \<longleftrightarrow> b < a"
  by (simp add: CmpGreater_def)

lemma Cast_eq [simp]: "rep T v \<Longrightarrow> Cast m R T v = exact m R v"
  by (simp add: Cast_def CastWithBoundsCheck_def IsOutsideBoundsOfR_def exact_def)
     (auto simp: rep_def)


lemma promote_digits: "digits T \<le> digits (promote T)"
  by (cases T) (simp_all add: promote_def digits_def)

lemma rep_promote: "rep T v \<Longrightarrow> rep (promote T) v"
  by (cases T) (simp_all add: promote_def rep_def lowest_def max_of_def digits_def)

text \<open>Both operands of an operator of the library are unsigned, or have the result type.\<close>

lemma rep_common_same: "rep T v \<Longrightarrow> rep (common_type T T) v"
  by (simp add: common_type_def Let_def rep_promote)

lemma rep_common_unsigned:
  assumes "\<not> is_signed S" "\<not> is_signed T"
  shows "rep S v \<Longrightarrow> rep (common_type S T) v" "rep T v \<Longrightarrow> rep (common_type S T) v"
  using assms
  by (cases S; cases T; simp add: common_type_def promote_def rep_def lowest_def max_of_def digits_def)+

lemma in_type_rep [simp]: "rep C x \<Longrightarrow> in_type C x = Ret x"
  by (simp add: in_type_def)

lemma arith_same [simp]:
  assumes "rep T a" "rep T b" "rep (common_type T T) (f a b)"
  shows "arith f T T a b = Ret (f a b)"
  using assms by (simp add: arith_def Let_def rep_common_same)

lemma Abs_signed_eq:
  assumes s: "is_signed T" and r: "rep T v"
  shows "Abs_signed T v = Ret \<bar>v\<bar>"
proof -
  have m: "rep (make_unsigned T) (max_of T)" by (simp add: rep_make_unsigned)
  have l: "rep (make_unsigned T) \<bar>v\<bar>"
    using s r by (auto simp: rep_unsigned rep_signed pow2_width abs_if)
  have c: "rep (common_type (make_unsigned T) UInt32) x" if "rep (make_unsigned T) x" for x
    by (rule rep_common_unsigned(1)) (use that in auto)
  have one: "rep (common_type (make_unsigned T) UInt32) 1"
    by (rule rep_common_unsigned(2)) (auto simp: rep_unsigned)
  have e: "max_of T + 1 = - lowest T" using s by (simp add: limits)
  have neg: "(uminus_c T v :: int mode_result) = Ret (- v)" if "v \<noteq> lowest T" "v < 0"
  proof -
    have "rep T (- v)" using that s r by (auto simp: rep_def limits)
    then show ?thesis by (simp add: uminus_c_def rep_promote)
  qed
  have neg': "rep T (- v)" if "v \<noteq> lowest T" "v < 0"
    using that s r by (auto simp: rep_def limits)
  have z: "rep Int32 0" by simp
  show ?thesis
  proof (cases "v = lowest T")
    case True
    then have "\<bar>v\<bar> = max_of T + 1" using e by simp
    then show ?thesis
      using True r l m c[OF m] c[OF l] one by (simp add: Abs_signed_def arith_def Let_def)
  next
    case False
    then show ?thesis using r l neg neg' z by (auto simp: Abs_signed_def Let_def)
  qed
qed

lemma Abs_eq [simp]: "rep T v \<Longrightarrow> Abs T v = Ret \<bar>v\<bar>"
  using unsigned_nonneg[of T v] by (auto simp: Abs_def Abs_unsigned_def Abs_signed_eq)

lemma rep_abs: "rep T v \<Longrightarrow> rep (make_unsigned T) \<bar>v\<bar>"
  by (cases "is_signed T")
     (auto simp: rep_unsigned rep_signed pow2_width abs_if)

lemma Negate_unsigned_eq:
  assumes u: "\<not> is_signed T" and r: "rep T v"
  shows "Negate_unsigned m R T v = exact m R (- v)"
proof -
  note nn = unsigned_nonneg[OF u r]
  let ?S = "make_signed R"
  have neg: "rep ?S (- v)" if "rep ?S v" using that nn by (auto simp: rep_signed)
  have um: "(uminus_c ?S v :: int mode_result) = Ret (- v)" if "rep ?S v"
    using neg[OF that] by (simp add: uminus_c_def rep_promote)
  have tail: "bind_outcome (Cast m ?S T v) (\<lambda>c. bind_outcome (uminus_c ?S c) (\<lambda>x.
      Cast m R ?S (static_cast ?S x))) = (if rep ?S v then exact m R (- v) else HandleError m kExceedsNumericLimits)"
    using r um neg by (cases m) (simp_all add: exact_def HandleError_def)
  show ?thesis
  proof (cases "is_signed R")
    case True
    have lr: "rep (make_unsigned R) \<bar>lowest R\<bar>" by (rule rep_abs) simp
    have "rep R (- v) \<longleftrightarrow> rep R v \<or> v = - lowest R"
      using True nn by (auto simp: rep_signed lowest_signed)
    moreover have "rep R (- v) \<Longrightarrow> v \<noteq> - lowest R \<Longrightarrow> rep R v" using calculation by simp
    ultimately show ?thesis
      using True tail r lr by (simp add: Negate_unsigned_def Let_def) (auto simp: exact_def)
  next
    case False
    then have "rep R (- v) \<Longrightarrow> rep ?S v" using nn by (simp add: rep_unsigned rep_signed)
    with False tail show ?thesis by (auto simp: Negate_unsigned_def Let_def exact_def)
  qed
qed

lemma Negate_signed_eq:
  assumes s: "is_signed T" and r: "rep T v"
  shows "Negate_signed m R T v = exact m R (- v)"
proof -
  have neg: "rep T (- v)" if "0 \<le> v" using that s r by (auto simp: rep_signed)
  have um: "(uminus_c T v :: int mode_result) = Ret (- v)" if "0 \<le> v"
    using neg[OF that] by (simp add: uminus_c_def rep_promote)
  show ?thesis
    using r rep_abs[OF r] neg um by (auto simp: Negate_signed_def Let_def abs_if)
qed

lemma Negate_eq [simp]: "rep T v \<Longrightarrow> Negate m R T v = exact m R (- v)"
  by (simp add: Negate_def Negate_unsigned_eq Negate_signed_eq)


lemma Add_unsigned_eq:
  assumes u: "\<not> is_signed S" "\<not> is_signed T" and r: "rep S a" "rep T b"
  shows "Add_unsigned m R S T a b = exact m R (a + b)"
proof -
  note nn = unsigned_nonneg[OF u(1) r(1)] unsigned_nonneg[OF u(2) r(2)]
  have both: "rep R a \<and> rep R b" if "rep R (a + b)"
    using that nn by (auto simp: rep_def intro: order_trans[OF lowest_le_0])
  show ?thesis
  proof (cases "rep R a \<and> rep R b")
    case True
    then have d: "rep R (max_of R - b)" using nn by (auto simp: rep_def intro: order_trans[OF lowest_le_0])
    have s: "rep R (a + b) \<longleftrightarrow> a \<le> max_of R - b"
      using nn by (auto simp: rep_def intro: order_trans[OF lowest_le_0])
    show ?thesis
      using True d s r by (auto simp: Add_unsigned_def exact_def Let_def rep_common_same)
  next
    case False
    with both show ?thesis
      using r by (cases m) (auto simp: Add_unsigned_def exact_def HandleError_def)
  qed
qed

lemma Subtract_unsigned_eq:
  assumes u: "\<not> is_signed S" "\<not> is_signed T" and r: "rep S a" "rep T b"
  shows "Subtract_unsigned m R S T a b = exact m R (a - b)"
proof -
  note nn = unsigned_nonneg[OF u(1) r(1)] unsigned_nonneg[OF u(2) r(2)]
  show ?thesis
  proof (cases "a < b")
    case True
    then have "rep T a" "rep T (b - a)" using u(2) r(2) nn by (auto simp: rep_unsigned)
    with True r show ?thesis by (simp add: Subtract_unsigned_def Let_def rep_common_same)
  next
    case False
    then have "rep S (a - b)" using u(1) r nn by (auto simp: rep_unsigned)
    moreover from this have "rep (common_type S T) (a - b)" "rep (bigger_type S T) (a - b)"
      using u by (auto intro: rep_common_unsigned(1) rep_bigger(1))
    ultimately show ?thesis
      using False r u rep_common_unsigned[OF u]
      by (simp add: Subtract_unsigned_def Let_def arith_def)
  qed
qed

lemma AddSub_unsigned_right:
  assumes u: "\<not> is_signed T" and r: "rep S a" "rep T b"
  shows "Add m R S T a b = exact m R (a + b)" "Subtract m R S T a b = exact m R (a - b)"
proof -
  have uu: "Add m R X Y x y = exact m R (x + y)" "Subtract m R X Y x y = exact m R (x - y)"
    if "\<not> is_signed X" "\<not> is_signed Y" "rep X x" "rep Y y" for m R X Y x y
    using that by (simp_all add: Add.simps Subtract.simps Add_unsigned_eq Subtract_unsigned_eq)
  note nn = unsigned_nonneg[OF u r(2)]
  have us: "Add m R T S b a = exact m R (b + a)" if "is_signed S"
    using that u r uu[of T "make_unsigned S" b] rep_abs[OF r(1)] rep_make_unsigned[OF r(1)]
    by (cases "a < 0") (simp_all add: Add.simps[of _ _ T S])
  have big: "rep R (- x) \<Longrightarrow> rep UInt64 x" if "0 \<le> x" for x
  proof -
    assume "rep R (- x)"
    then have "x \<le> 2 ^ (width R - 1)" using that by (auto simp: rep_def lowest_def split: if_splits)
    also have "\<dots> \<le> 2 ^ 63" by (cases R) simp_all
    finally show ?thesis using that by (simp add: rep_unsigned)
  qed
  have su: "Subtract m R S T a b = exact m R (a - b)" if "is_signed S"
  proof (cases "a < 0")
    case True
    have "Add m UInt64 (make_unsigned S) T (- a) b = exact m UInt64 (- a + b)"
      using True uu(1)[of "make_unsigned S" T "- a" b] rep_abs[OF r(1)] u r by simp
    then show ?thesis
      using that True u r big[of "- a + b"] nn
      by (subst Subtract.simps) (cases m; auto simp: exact_def HandleError_def)
  next
    case False
    with that u r show ?thesis
      using uu(2)[of "make_unsigned S" T a b] rep_make_unsigned[OF r(1)]
      by (subst Subtract.simps) simp
  qed
  show "Add m R S T a b = exact m R (a + b)"
  proof (cases "is_signed S")
    case True
    then have "Add m R S T a b = Add m R T S b a" using u by (subst Add.simps) simp
    with us[OF True] show ?thesis by (simp add: add.commute)
  qed (use u r uu in simp)
  show "Subtract m R S T a b = exact m R (a - b)"
    using u r uu su by (cases "is_signed S") simp_all
qed

lemma Add_eq:
  assumes r: "rep S a" "rep T b" shows "Add m R S T a b = exact m R (a + b)"
proof (cases "is_signed T")
  case True
  have "rep (make_unsigned T) \<bar>b\<bar>" using r(2) by (rule rep_abs)
  with True r show ?thesis
    by (subst Add.simps, cases "b < 0") (simp_all add: AddSub_unsigned_right rep_make_unsigned)
qed (use r AddSub_unsigned_right in simp)

lemma Subtract_eq:
  assumes r: "rep S a" "rep T b" shows "Subtract m R S T a b = exact m R (a - b)"
proof (cases "is_signed T")
  case True
  have "rep (make_unsigned T) \<bar>b\<bar>" using r(2) by (rule rep_abs)
  with True r show ?thesis
    by (subst Subtract.simps, cases "b < 0") (simp_all add: AddSub_unsigned_right rep_make_unsigned)
qed (use r AddSub_unsigned_right in simp)


lemma le_div_iff:
  fixes a b q :: int assumes b: "0 < b"
  shows "a \<le> q div b \<longleftrightarrow> a * b \<le> q"
proof
  assume "a \<le> q div b"
  then have "a * b \<le> q div b * b" using b by simp
  also have "\<dots> = q - q mod b" by (simp add: minus_mod_eq_div_mult)
  also have "\<dots> \<le> q" using b by simp
  finally show "a * b \<le> q" .
next
  assume "a * b \<le> q"
  then show "a \<le> q div b" using zdiv_mono1[of "a * b" q b] b by simp
qed

lemma rep_unsigned_less: "\<not> is_signed C \<Longrightarrow> rep C a \<Longrightarrow> 0 \<le> x \<Longrightarrow> x \<le> a \<Longrightarrow> rep C x"
  by (simp add: rep_unsigned)

lemma divide_c_unsigned:
  assumes u: "\<not> is_signed C" and r: "rep C a" "rep C b" and b: "b \<noteq> 0"
  shows "divide_c C C a b = Ret (a div b)" "rep C (a div b)"
proof -
  have nn: "0 \<le> a" "0 < b" using u r b by (auto simp: rep_unsigned)
  then have "a div b \<le> a" using zdiv_mono2[of a 1 b] by simp
  with u r(1) nn show rd: "rep C (a div b)"
    by (auto intro: rep_unsigned_less simp: pos_imp_zdiv_nonneg_iff)
  have e: "sgn a * sgn b * (\<bar>a\<bar> div \<bar>b\<bar>) = a div b" using nn by (auto simp: sgn_if)
  show "divide_c C C a b = Ret (a div b)"
    unfolding divide_c_def using b r rd e by (subst arith_same) (auto simp: rep_common_same)
qed

lemma modulo_c_unsigned:
  assumes u: "\<not> is_signed C" and r: "rep C a" "rep C b" and b: "b \<noteq> 0"
  shows "modulo_c C C a b = Ret (a mod b)"
proof -
  have nn: "0 \<le> a" "0 < b" using u r b by (auto simp: rep_unsigned)
  have rd: "rep C (a mod b)"
    by (rule rep_unsigned_less[OF u r(2)]) (use nn less_imp_le[OF pos_mod_bound] in auto)
  have e: "sgn a * (\<bar>a\<bar> mod \<bar>b\<bar>) = a mod b" using nn by (auto simp: sgn_if)
  show ?thesis
    unfolding modulo_c_def using b r rd e by (subst arith_same) (auto simp: rep_common_same)
qed

lemma sign_product: "(0::int) \<le> a * b \<longleftrightarrow> (a < 0) = (b < 0)" if "a \<noteq> 0" "b \<noteq> 0"
  using that by (auto simp: zero_le_mult_iff)

lemma common_magnitudes:
  assumes r: "rep S a" "rep T b"
  shows "\<not> is_signed (bigger_type (make_unsigned S) (make_unsigned T))"
    "rep (bigger_type (make_unsigned S) (make_unsigned T)) \<bar>a\<bar>"
    "rep (bigger_type (make_unsigned S) (make_unsigned T)) \<bar>b\<bar>"
  using r by (simp_all add: is_signed_bigger rep_bigger rep_abs)

lemma Multiply_eq:
  assumes r: "rep S a" "rep T b"
  shows "Multiply m R S T a b =
    (if fits_common S T (a * b) then exact m R (a * b) else HandleError m kExceedsNumericLimits)"
proof (cases "a = 0 \<or> b = 0")
  case True
  then show ?thesis using r by (auto simp: Multiply_def fits_common_def exact_def)
next
  case False
  let ?C = "bigger_type (make_unsigned S) (make_unsigned T)"
  note c = common_magnitudes[OF r]
  have b0: "\<bar>b\<bar> \<noteq> 0" using False by simp
  note d = divide_c_unsigned[OF c(1) rep_limits(2) c(3) b0]
  have le: "max_of ?C div \<bar>b\<bar> < \<bar>a\<bar> \<longleftrightarrow> \<not> fits_common S T (a * b)"
    using le_div_iff[of "\<bar>b\<bar>" "\<bar>a\<bar>"] False by (simp add: fits_common_def abs_mult not_le[symmetric])
  have p: "rep ?C \<bar>a * b\<bar>" if "fits_common S T (a * b)"
    using that c(1) by (simp add: fits_common_def rep_def lowest_unsigned)
  have ar: "arith (*) ?C ?C \<bar>a\<bar> \<bar>b\<bar> = Ret \<bar>a * b\<bar>" if "fits_common S T (a * b)" 
    using c p[OF that] by (simp add: rep_common_same abs_mult)
  show ?thesis
  proof (cases "fits_common S T (a * b)")
    case True
    have s: "(a < 0) = (b < 0) \<longleftrightarrow> 0 \<le> a * b" using False by (simp add: sign_product)
    show ?thesis
    proof (cases "0 \<le> a * b")
      case pos: True
      with p[OF True] have "rep ?C (a * b)" by simp
      with pos False True show ?thesis by (simp add: Multiply_def Let_def r c d le ar s)
    next
      case neg: False
      with p[OF True] have "rep ?C (- (a * b))" by simp
      with neg False True show ?thesis by (simp add: Multiply_def Let_def r c d le ar s)
    qed
  next
    case nf: False
    with False show ?thesis by (simp add: Multiply_def Let_def r c d le)
  qed
qed

lemma Divide_eq:
  assumes r: "rep S a" "rep T b"
  shows "Divide m R S T a b =
    (if b = 0 then HandleError m kDivideByZero
     else if \<not> b dvd a then HandleError m kImplicitRounding
     else exact m R (a div b))"
proof (cases "b = 0")
  case False
  let ?C = "bigger_type (make_unsigned S) (make_unsigned T)"
  note c = common_magnitudes[OF r]
  have b0: "\<bar>b\<bar> \<noteq> 0" using False by simp
  note d = divide_c_unsigned[OF c b0] and mo = modulo_c_unsigned[OF c b0]
  have dv: "\<bar>a\<bar> mod \<bar>b\<bar> = 0 \<longleftrightarrow> b dvd a" by (simp add: mod_eq_0_iff_dvd)
  have q: "(if (a < 0) = (b < 0) then exact m R (\<bar>a\<bar> div \<bar>b\<bar>) else exact m R (- (\<bar>a\<bar> div \<bar>b\<bar>)))
    = exact m R (a div b)" if "b dvd a"
  proof -
    from that obtain k where k: "a = b * k" by (rule dvdE)
    have "\<bar>a\<bar> div \<bar>b\<bar> = \<bar>k\<bar>" "a div b = k" using k False by (simp_all add: abs_mult)
    moreover have "k \<noteq> 0 \<Longrightarrow> (a < 0) = (b < 0) \<longleftrightarrow> 0 \<le> k"
      using k False by (auto simp: mult_less_0_iff)
    ultimately show ?thesis by (cases "k = 0") auto
  qed
  show ?thesis
    using False q by (auto simp: Divide_def Let_def r c d mo dv split: if_splits)
qed (use r in \<open>simp add: Divide_def\<close>)

lemma rep_fits_common:
  assumes "rep R v" "width R \<le> max (width S) (width T)"
  shows "\<bar>v\<bar> \<le> max_of (bigger_type (make_unsigned S) (make_unsigned T))"
proof -
  let ?C = "bigger_type (make_unsigned S) (make_unsigned T)"
  have "digits (make_unsigned R) \<le> digits ?C"
    using assms(2) by (auto simp: digits_def bigger_type_def)
  then have "max_of (make_unsigned R) \<le> max_of ?C"
    unfolding max_of_def by (intro diff_right_mono power_increasing) simp_all
  moreover have "\<bar>v\<bar> \<le> max_of (make_unsigned R)" using rep_abs[OF assms(1)] by (simp add: rep_def)
  ultimately show ?thesis by simp
qed

section \<open>The operations implement their specifications\<close>

interpretation add: checked_op Add add_spec
  by unfold_locales (auto simp: Add_eq exact_def add_spec_def split: if_splits)

interpretation sub: checked_op Subtract sub_spec
  by unfold_locales (auto simp: Subtract_eq exact_def sub_spec_def split: if_splits)

interpretation mul: checked_op Multiply mul_spec
  by unfold_locales (auto simp: Multiply_eq exact_def mul_spec_def split: if_splits)

interpretation quot: checked_op Divide div_spec
  by unfold_locales (auto simp: Divide_eq exact_def div_spec_def split: if_splits)

text \<open>
  C1: addition of any two supported integral types into any result type returns the mathematical
  sum exactly when it is representable, and reports kExceedsNumericLimits (or aborts, in the
  aborting mode) in every other case.
\<close>

theorem Add_exact:
  assumes "rep LHS a" and "rep RHS b"
  shows "Add m R LHS RHS a b =
    (if rep R (a + b) then Ret (a + b) else HandleError m kExceedsNumericLimits)"
  using add.refines[OF assms] by (simp add: add_spec_def)

theorem Add_exact_witness:
  "Add kReturnResultOnError Int8 Int64 UInt16 (-300) 200 = Ret (-100)
   \<and> Add kReturnResultOnError UInt8 Int64 UInt16 (-300) 200 = Err kExceedsNumericLimits"
  using Add_exact[of Int64 "-300" UInt16 200 kReturnResultOnError Int8]
    Add_exact[of Int64 "-300" UInt16 200 kReturnResultOnError UInt8]
  by (simp add: rep_signed rep_unsigned HandleError_def)

text \<open>
  C2: subtraction returns the mathematical difference exactly when it is representable in the
  result type, whatever the signedness and the widths of the operands.
\<close>

theorem Subtract_exact:
  assumes "rep LHS a" and "rep RHS b"
  shows "Subtract m R LHS RHS a b =
    (if rep R (a - b) then Ret (a - b) else HandleError m kExceedsNumericLimits)"
  using sub.refines[OF assms] by (simp add: sub_spec_def)

theorem Subtract_exact_witness:
  "Subtract kAbortOnError Int64 Int64 UInt64 (-1) 9223372036854775807 = Ret (-9223372036854775808)
   \<and> Subtract kAbortOnError Int64 Int64 UInt64 (-1) 9223372036854775808 = Abort"
  using Subtract_exact[of Int64 "-1" UInt64 9223372036854775807 kAbortOnError Int64]
    Subtract_exact[of Int64 "-1" UInt64 9223372036854775808 kAbortOnError Int64]
  by (simp add: rep_signed rep_unsigned HandleError_def)

text \<open>
  C3: multiplication returns the exact product when the product fits into the result type and its
  magnitude fits into the wider of the two unsigned operand types, and reports
  kExceedsNumericLimits otherwise. When the result type is at most as wide as that common type the
  second condition is implied, so the operation is exact; with a wider result type it rejects
  products the result type could hold.
\<close>

theorem Multiply_exact:
  assumes "rep LHS a" and "rep RHS b"
  shows "Multiply m R LHS RHS a b =
      (if \<bar>a * b\<bar> \<le> max_of (bigger_type (make_unsigned LHS) (make_unsigned RHS)) \<and> rep R (a * b)
       then Ret (a * b) else HandleError m kExceedsNumericLimits)
    \<and> (width R \<le> max (width LHS) (width RHS) \<longrightarrow>
        Multiply m R LHS RHS a b =
          (if rep R (a * b) then Ret (a * b) else HandleError m kExceedsNumericLimits))"
  using mul.refines[OF assms] rep_fits_common[of R "a * b" LHS RHS]
  by (auto simp: mul_spec_def fits_common_def)

theorem Multiply_exact_witness:
  "Multiply kReturnResultOnError Int64 Int32 Int32 65536 65536 = Err kExceedsNumericLimits
   \<and> rep Int64 (65536 * 65536)
   \<and> Multiply kReturnResultOnError Int32 Int32 Int32 (-65536) 32768 = Ret (-2147483648)"
  using Multiply_exact[of Int32 65536 Int32 65536 kReturnResultOnError Int64]
    Multiply_exact[of Int32 "-65536" Int32 32768 kReturnResultOnError Int32]
  by (simp add: rep_signed HandleError_def max_of_def digits_def bigger_type_def)

text \<open>
  C4: division never rounds. It reports kDivideByZero for a zero divisor, kImplicitRounding when
  the divisor does not divide the dividend, and otherwise the exact quotient if the result type
  can represent it (which excludes lowest / -1 in the same signed type).
\<close>

theorem Divide_exact:
  assumes "rep LHS a" and "rep RHS b"
  shows "Divide m R LHS RHS a b =
    (if b = 0 then HandleError m kDivideByZero
     else if \<not> b dvd a then HandleError m kImplicitRounding
     else if rep R (a div b) then Ret (a div b) else HandleError m kExceedsNumericLimits)"
  using quot.refines[OF assms] by (simp add: div_spec_def)

theorem Divide_exact_witness:
  "Divide kReturnResultOnError Int8 Int8 Int8 (-128) (-1) = Err kExceedsNumericLimits
   \<and> Divide kReturnResultOnError Int16 Int8 Int8 (-128) (-1) = Ret 128
   \<and> Divide kReturnResultOnError Int8 Int8 Int8 7 2 = Err kImplicitRounding"
  using Divide_exact[of Int8 "-128" Int8 "-1" kReturnResultOnError Int8]
    Divide_exact[of Int8 "-128" Int8 "-1" kReturnResultOnError Int16]
    Divide_exact[of Int8 7 Int8 2 kReturnResultOnError Int8]
  by (simp add: rep_signed HandleError_def)

text \<open>
  C5: the comparison functions agree with the mathematical order and equality of the values for
  every combination of signedness and width, where the built-in operators of the language do not.
\<close>

theorem Cmp_exact:
  assumes "rep Lhs a" and "rep Rhs b"
  shows "CmpLess Lhs Rhs a b = (a < b) \<and> CmpEqual Lhs Rhs a b = (a = b)
    \<and> CmpNotEqual Lhs Rhs a b = (a \<noteq> b) \<and> CmpGreater Lhs Rhs a b = (a > b)
    \<and> CmpLessEqual Lhs Rhs a b = (a \<le> b) \<and> CmpGreaterEqual Lhs Rhs a b = (a \<ge> b)"
  using assms by (auto simp: CmpNotEqual_def CmpLessEqual_def CmpGreaterEqual_def)

theorem Cmp_exact_witness:
  "CmpLess Int8 UInt64 (-1) 0 \<and> \<not> CmpEqual UInt64 Int8 18446744073709551615 (-1)
   \<and> CmpGreaterEqual UInt64 Int8 0 (-1)"
  using Cmp_exact[of Int8 "-1" UInt64 0] Cmp_exact[of UInt64 18446744073709551615 Int8 "-1"]
    Cmp_exact[of UInt64 0 Int8 "-1"]
  by (simp add: rep_signed rep_unsigned)

text \<open>
  C6: casts, absolute values and negations of every representable value are exact; \<open>Abs\<close> of the
  lowest value of a signed type is representable in its unsigned counterpart and is returned.
\<close>

theorem unary_exact:
  assumes "rep T v"
  shows "Cast m R T v = (if rep R v then Ret v else HandleError m kExceedsNumericLimits)
    \<and> Abs T v = Ret \<bar>v\<bar> \<and> rep (make_unsigned T) \<bar>v\<bar>
    \<and> Negate m R T v = (if rep R (- v) then Ret (- v) else HandleError m kExceedsNumericLimits)"
  using assms rep_abs[OF assms] by (simp_all add: exact_def)

theorem unary_exact_witness:
  "Abs Int8 (-128) = Ret 128 \<and> Negate kReturnResultOnError Int8 UInt64 128 = Ret (-128)
   \<and> Cast kAbortOnError UInt8 Int64 256 = Abort"
  using unary_exact[of Int8 "-128"] unary_exact[of UInt64 128 kReturnResultOnError Int8]
    unary_exact[of Int64 256 kAbortOnError UInt8]
  by (simp add: rep_signed rep_unsigned HandleError_def)

end
