(* ===== verification/Bit_Manipulation.thy ===== *)
theory Bit_Manipulation
  imports Prelude
begin

text \<open>
  src/score/bitmanipulation: the bit and byte helpers of bit_manipulation.h and the operators of
  bitmask_operators.h. An integral value of a type \<open>T\<close> with at most 64 bits is an \<open>'a word\<close> with
  the width of \<open>T\<close>; the flag \<open>sg\<close> tells whether \<open>T\<close> is signed, which decides whether the widening
  \<open>static_cast<std::uint64_t>(value)\<close> extends the sign. A reference parameter is an argument and
  a component of the result.
\<close>

unbundle bit_operations_syntax

section \<open>HalfByte and Byte\<close>

record HalfByte =
  half_repr :: "8 word"

record Byte =
  byte_repr :: "8 word"

definition make_HalfByte :: "8 word \<Rightarrow> HalfByte" where
  "make_HalfByte value = \<lparr>half_repr = value AND 0x0F\<rparr>"

definition make_Byte :: "HalfByte \<Rightarrow> HalfByte \<Rightarrow> Byte" where
  "make_Byte upper_half lower_half =
     \<lparr>byte_repr = ucast (push_bit 4 (ucast (half_repr upper_half) :: 32 word)) XOR half_repr lower_half\<rparr>"

definition Byte_of_uint8 :: "8 word \<Rightarrow> Byte" where
  "Byte_of_uint8 value = \<lparr>byte_repr = value\<rparr>"

definition UpperHalfByte :: "Byte \<Rightarrow> HalfByte" where
  "UpperHalfByte b = make_HalfByte (ucast (drop_bit 4 (ucast (byte_repr b) :: 32 word)))"

definition LowerHalfByte :: "Byte \<Rightarrow> HalfByte" where
  "LowerHalfByte b = make_HalfByte (byte_repr b)"

section \<open>Single bits\<close>

definition to_uint64 :: "bool \<Rightarrow> 'a::len word \<Rightarrow> 64 word" where
  "to_uint64 sg value = (if sg then scast value else ucast value)"

definition InRange :: "'a::len word \<Rightarrow> nat \<Rightarrow> bool" where
  "InRange (value :: 'a word) position = (if position \<ge> LENGTH('a) then False else True)"

definition SetBit :: "bool \<Rightarrow> 'a::len word \<Rightarrow> nat \<Rightarrow> 'a word \<times> bool" where
  "SetBit sg value position =
     (if \<not> InRange value position then (value, False)
      else (ucast (to_uint64 sg value OR push_bit position 1), True))"

definition ClearBit :: "bool \<Rightarrow> 'a::len word \<Rightarrow> nat \<Rightarrow> 'a word \<times> bool" where
  "ClearBit sg value position =
     (if \<not> InRange value position then (value, False)
      else (ucast (to_uint64 sg value AND NOT (push_bit position 1)), True))"

definition ToggleBit :: "bool \<Rightarrow> 'a::len word \<Rightarrow> nat \<Rightarrow> 'a word \<times> bool" where
  "ToggleBit sg value position =
     (if \<not> InRange value position then (value, False)
      else (ucast (to_uint64 sg value XOR push_bit position 1), True))"

definition CheckBit :: "bool \<Rightarrow> 'a::len word \<Rightarrow> nat \<Rightarrow> bool" where
  "CheckBit sg value position =
     (if \<not> InRange value position then False
      else 0 \<noteq> (drop_bit position (to_uint64 sg value) AND 1))"

definition GetByte :: "bool \<Rightarrow> nat \<Rightarrow> 'a::len word \<Rightarrow> 8 word" where
  "GetByte sg position raw_bytes =
     ucast (drop_bit (8 * position) (to_uint64 sg raw_bytes)) AND 0xFF"

section \<open>Operators of a bitmask enumeration\<close>

text \<open>
  A scoped enumeration enabled as a bitmask is its underlying integer. \<open>operator&\<close> is the test
  whether a common bit is set; the compound assignments return the new left operand.
\<close>

definition bitmask_or :: "bool \<Rightarrow> 'a::len word \<Rightarrow> 'a word \<Rightarrow> 'a word" where
  "bitmask_or sg lhs rhs = ucast (to_uint64 sg lhs OR to_uint64 sg rhs)"

definition bitmask_and :: "bool \<Rightarrow> 'a::len word \<Rightarrow> 'a word \<Rightarrow> bool" where
  "bitmask_and sg lhs rhs \<longleftrightarrow> (to_uint64 sg lhs AND to_uint64 sg rhs) \<noteq> 0"

definition bitmask_xor :: "bool \<Rightarrow> 'a::len word \<Rightarrow> 'a word \<Rightarrow> 'a word" where
  "bitmask_xor sg lhs rhs = ucast (to_uint64 sg lhs XOR to_uint64 sg rhs)"

definition bitmask_not :: "bool \<Rightarrow> 'a::len word \<Rightarrow> 'a word" where
  "bitmask_not sg other = ucast (NOT (to_uint64 sg other))"

definition bitmask_and_assign :: "bool \<Rightarrow> 'a::len word \<Rightarrow> 'a word \<Rightarrow> 'a word" where
  "bitmask_and_assign sg lhs rhs = ucast (to_uint64 sg lhs AND to_uint64 sg rhs)"

definition bitmask_or_assign :: "bool \<Rightarrow> 'a::len word \<Rightarrow> 'a word \<Rightarrow> 'a word" where
  "bitmask_or_assign sg lhs rhs = ucast (to_uint64 sg lhs OR to_uint64 sg rhs)"

definition bitmask_xor_assign :: "bool \<Rightarrow> 'a::len word \<Rightarrow> 'a word \<Rightarrow> 'a word" where
  "bitmask_xor_assign sg lhs rhs = ucast (to_uint64 sg lhs XOR to_uint64 sg rhs)"

section \<open>Bits of the widened value\<close>

lemma bit_to_uint64:
  fixes v :: "'a::len word"
  assumes "LENGTH('a) \<le> 64"
  shows "i < LENGTH('a) \<Longrightarrow> bit (to_uint64 sg v) i = bit v i"
  using assms by (auto simp: to_uint64_def bit_simps)

lemma bit_to_uint64_low:
  fixes v :: "'a::len word"
  assumes "bit (to_uint64 sg v) i"
  shows "bit v (min i (LENGTH('a) - 1))"
proof (cases sg)
  case True
  with assms show ?thesis by (simp add: to_uint64_def bit_signed_iff min.commute)
next
  case False
  with assms have "bit v i" by (simp add: to_uint64_def bit_simps)
  moreover from this have "i < LENGTH('a)" by (rule bit_imp_le_length)
  ultimately show ?thesis by (simp add: min_def)
qed

named_theorems bit_ops \<open>definitions of the bit operations\<close>

lemmas bit_op_defs [bit_ops] =
  InRange_def SetBit_def ClearBit_def ToggleBit_def CheckBit_def GetByte_def
  bitmask_or_def bitmask_and_def bitmask_xor_def bitmask_not_def
  bitmask_and_assign_def bitmask_or_assign_def bitmask_xor_assign_def

lemma bit_SetBit:
  fixes v :: "'a::len word"
  assumes "LENGTH('a) \<le> 64" "i < LENGTH('a)"
  shows "bit (fst (SetBit sg v p)) i \<longleftrightarrow> bit v i \<or> i = p"
  using assms by (auto simp: bit_ops bit_to_uint64 bit_simps)

lemma bit_ClearBit:
  fixes v :: "'a::len word"
  assumes "LENGTH('a) \<le> 64" "i < LENGTH('a)"
  shows "bit (fst (ClearBit sg v p)) i \<longleftrightarrow> bit v i \<and> i \<noteq> p"
  using assms by (auto simp: bit_ops bit_to_uint64 bit_simps)

lemma bit_ToggleBit:
  fixes v :: "'a::len word"
  assumes "LENGTH('a) \<le> 64" "i < LENGTH('a)"
  shows "bit (fst (ToggleBit sg v p)) i \<longleftrightarrow> (bit v i \<noteq> (i = p))"
  using assms by (auto simp: bit_ops bit_to_uint64 bit_simps)

lemma and_1_zero: "drop_bit p w AND 1 = (0::64 word) \<longleftrightarrow> \<not> bit w p"
  by (auto simp: bit_iff_odd_drop_bit and_one_eq odd_iff_mod_2_eq_one)

lemma CheckBit_bit:
  fixes v :: "'a::len word"
  assumes "LENGTH('a) \<le> 64"
  shows "CheckBit sg v p \<longleftrightarrow> p < LENGTH('a) \<and> bit v p"
  using bit_to_uint64[OF assms, of p sg v]
  by (auto simp: CheckBit_def InRange_def and_1_zero eq_commute[of 0])

lemma word_eq_bits: "(\<And>i. i < LENGTH('a) \<Longrightarrow> bit v i = bit w i) \<Longrightarrow> v = w" for v w :: "'a::len word"
  by (rule bit_word_eqI)

lemma bit_GetByte:
  fixes v :: "'a::len word"
  assumes "LENGTH('a) \<le> 64" "8 * p + i < LENGTH('a)" "i < 8"
  shows "bit (GetByte sg p v) i = bit v (8 * p + i)"
  using assms by (auto simp: GetByte_def bit_to_uint64 bit_simps add.commute)

lemma half_repr_bits: "bit (half_repr (make_HalfByte w)) i \<longleftrightarrow> i < 4 \<and> bit w i"
  by (auto simp: make_HalfByte_def bit_simps)

section \<open>Properties\<close>

text \<open>
  C12: on every integral type of at most 64 bits, signed or unsigned, setting, clearing and toggling
  a bit inside the type changes exactly that bit and reports success; a position outside the type
  leaves the value unchanged and reports failure; checking reads exactly that bit, and \<open>GetByte\<close> yields the
  eight bits of the byte at its position.
\<close>

theorem bit_operations_correct:
  fixes v :: "'a::len word"
  assumes "LENGTH('a) \<le> 64"
  shows "(\<forall>i < LENGTH('a).
        bit (fst (SetBit sg v p)) i = (bit v i \<or> i = p)
      \<and> bit (fst (ClearBit sg v p)) i = (bit v i \<and> i \<noteq> p)
      \<and> bit (fst (ToggleBit sg v p)) i = (bit v i \<noteq> (i = p)))
    \<and> CheckBit sg v p = (p < LENGTH('a) \<and> bit v p)
    \<and> snd (SetBit sg v p) = (p < LENGTH('a))
    \<and> snd (ClearBit sg v p) = (p < LENGTH('a))
    \<and> snd (ToggleBit sg v p) = (p < LENGTH('a))
    \<and> (p \<ge> LENGTH('a) \<longrightarrow> fst (SetBit sg v p) = v
        \<and> fst (ClearBit sg v p) = v \<and> fst (ToggleBit sg v p) = v)
    \<and> (\<forall>q i. i < 8 \<and> 8 * q + i < LENGTH('a) \<longrightarrow> bit (GetByte sg q v) i = bit v (8 * q + i))"
  using assms
  by (simp add: bit_SetBit bit_ClearBit bit_ToggleBit CheckBit_bit bit_GetByte)
     (simp add: SetBit_def ClearBit_def ToggleBit_def InRange_def)

theorem bit_operations_correct_witness:
  "CheckBit True (0x80 :: 8 word) 7 \<and> \<not> CheckBit True (0x80 :: 8 word) 8
   \<and> snd (SetBit True (0x80 :: 8 word) 0) \<and> fst (SetBit True (0x80 :: 8 word) 9) = 0x80
   \<and> bit (GetByte True 0 (0x80 :: 8 word)) 7"
proof -
  have h: "LENGTH(8) \<le> 64" by simp
  show ?thesis
    using bit_operations_correct[OF h, of True "0x80" 7] bit_operations_correct[OF h, of True "0x80" 8]
      bit_operations_correct[OF h, of True "0x80" 0] bit_operations_correct[OF h, of True "0x80" 9]
    by simp
qed

text \<open>
  The operators of a bitmask enumeration compute the bitwise operations of its underlying type
  although they detour through a 64-bit value, also when the underlying type is signed; \<open>operator&\<close>
  is true exactly when the two masks share a bit.
\<close>

theorem bitmask_operators_correct:
  fixes lhs rhs :: "'a::len word"
  assumes "LENGTH('a) \<le> 64"
  shows "bitmask_or sg lhs rhs = lhs OR rhs \<and> bitmask_xor sg lhs rhs = lhs XOR rhs
    \<and> bitmask_not sg lhs = NOT lhs \<and> bitmask_and_assign sg lhs rhs = lhs AND rhs
    \<and> bitmask_or_assign sg lhs rhs = lhs OR rhs \<and> bitmask_xor_assign sg lhs rhs = lhs XOR rhs
    \<and> bitmask_and sg lhs rhs = (lhs AND rhs \<noteq> 0)"
proof -
  have "bitmask_and sg lhs rhs = (lhs AND rhs \<noteq> 0)"
  proof
    assume "lhs AND rhs \<noteq> 0"
    then obtain i where "i < LENGTH('a)" "bit lhs i" "bit rhs i"
      by (auto simp: bit_eq_iff bit_simps)
    with bit_to_uint64[OF assms] have "bit (to_uint64 sg lhs AND to_uint64 sg rhs) i"
      by (simp add: bit_simps)
    then show "bitmask_and sg lhs rhs" by (auto simp: bitmask_and_def)
  next
    assume "bitmask_and sg lhs rhs"
    then obtain i where i: "bit (to_uint64 sg lhs) i" "bit (to_uint64 sg rhs) i"
      by (auto simp: bitmask_and_def bit_eq_iff bit_simps)
    then have "bit lhs (min i (LENGTH('a) - 1))" "bit rhs (min i (LENGTH('a) - 1))"
      by (auto intro: bit_to_uint64_low simp del: One_nat_def)
    then show "lhs AND rhs \<noteq> 0" by (metis bit_and_iff bit_0_eq bot_apply bot_bool_def)
  qed
  then show ?thesis
    using assms by (auto simp: bit_ops bit_to_uint64 bit_simps intro!: bit_word_eqI)
qed

theorem bitmask_operators_correct_witness:
  "bitmask_or True (0x81 :: 8 word) 0x02 = 0x83 \<and> bitmask_and True (0x81 :: 8 word) 0x80
   \<and> \<not> bitmask_and False (0x81 :: 8 word) 0x02"
proof -
  have h: "LENGTH(8) \<le> 64" by simp
  show ?thesis
    using bitmask_operators_correct[OF h, of True "0x81" "0x02"]
      bitmask_operators_correct[OF h, of True "0x81" "0x80"]
      bitmask_operators_correct[OF h, of False "0x81" "0x02"] by simp
qed

text \<open>
  Splitting a byte into its two halves and joining them is the identity, joining two halves and
  splitting is the identity on half-bytes, and the bytes \<open>GetByte\<close> reads from a value determine it.
\<close>

theorem byte_round_trips:
  fixes v w :: "'a::len word"
  assumes "LENGTH('a) \<le> 64" and "8 dvd LENGTH('a)"
  shows "make_Byte (UpperHalfByte b) (LowerHalfByte b) = b
    \<and> UpperHalfByte (make_Byte (make_HalfByte u) (make_HalfByte l)) = make_HalfByte u
    \<and> LowerHalfByte (make_Byte (make_HalfByte u) (make_HalfByte l)) = make_HalfByte l
    \<and> ((\<forall>p < LENGTH('a) div 8. GetByte sg p v = GetByte sg p w) \<longrightarrow> v = w)"
proof -
  have eq: "v = w" if g: "\<forall>p < LENGTH('a) div 8. GetByte sg p v = GetByte sg p w"
  proof (rule bit_word_eqI)
    fix i assume i: "i < LENGTH('a)"
    then have "i div 8 < LENGTH('a) div 8" using assms(2) by (auto simp: less_mult_imp_div_less elim!: dvdE)
    with g have "bit (GetByte sg (i div 8) v) (i mod 8) = bit (GetByte sg (i div 8) w) (i mod 8)" by simp
    then show "bit v i = bit w i" using i assms(1) by (simp add: bit_GetByte)
  qed
  have "make_Byte (UpperHalfByte b) (LowerHalfByte b) = b"
    by (cases b)
       (auto simp: make_Byte_def UpperHalfByte_def LowerHalfByte_def half_repr_bits bit_simps
          intro!: bit_word_eqI)
  moreover have "UpperHalfByte (make_Byte (make_HalfByte u) (make_HalfByte l)) = make_HalfByte u"
    "LowerHalfByte (make_Byte (make_HalfByte u) (make_HalfByte l)) = make_HalfByte l"
    by (auto simp: UpperHalfByte_def LowerHalfByte_def make_Byte_def make_HalfByte_def bit_simps
          intro!: bit_word_eqI)
  ultimately show ?thesis using eq by blast
qed

theorem byte_round_trips_witness:
  "make_Byte (UpperHalfByte \<lparr>byte_repr = 0xD2\<rparr>) (LowerHalfByte \<lparr>byte_repr = 0xD2\<rparr>) = \<lparr>byte_repr = 0xD2\<rparr>"
proof -
  have h: "LENGTH(16) \<le> 64" "8 dvd LENGTH(16)" by simp_all
  show ?thesis using byte_round_trips[OF h, of "\<lparr>byte_repr = 0xD2\<rparr>"] by blast
qed

end
