(* ===== verification/Base64.thy ===== *)
theory Base64
  imports Prelude
begin

text \<open>
  The codec of src/score/utils/base64.cpp. The loops over the input keep a small input buffer and
  the fill index \<open>ind\<close>; the buffers are lists of fixed length 3 and 4, the index is the length of
  the list of bytes put into the input buffer so far, which is what the source's \<open>ind\<close> counts.
\<close>

unbundle bit_operations_syntax

section \<open>Model\<close>

definition base64_chars :: string where
  "base64_chars = ''ABCDEFGHIJKLMNOPQRSTUVWXYZabcdefghijklmnopqrstuvwxyz0123456789+/''"

definition kEncodeInputBufferSize :: nat where "kEncodeInputBufferSize = 3"

definition kDecodeInputBufferSize :: nat where "kDecodeInputBufferSize = 4"

text \<open>A \<open>std::uint8_t\<close> operand is promoted to \<open>int\<close> before the operators apply and cast back after.\<close>

definition u8 :: "32 word \<Rightarrow> 8 word" where
  "u8 x = ucast x"

definition u32 :: "8 word \<Rightarrow> 32 word" where
  "u32 x = ucast x"

definition PerformBase64EncodeStep :: "8 word list \<Rightarrow> 8 word list" where
  "PerformBase64EncodeStep inputBuffer =
     (let i0 = u32 (inputBuffer ! 0); i1 = u32 (inputBuffer ! 1); i2 = u32 (inputBuffer ! 2)
      in [u8 (drop_bit 2 (i0 AND 0xFC)),
          u8 (u32 (u8 (push_bit 4 (i0 AND 0x03))) + u32 (u8 (drop_bit 4 (i1 AND 0xF0)))),
          u8 (u32 (u8 (push_bit 2 (i1 AND 0x0F))) + u32 (u8 (drop_bit 6 (i2 AND 0xC0)))),
          u8 (i2 AND 0x3F)])"

definition PerformBase64DecodeStep :: "8 word list \<Rightarrow> 8 word list" where
  "PerformBase64DecodeStep inputBuffer =
     (let i0 = u32 (inputBuffer ! 0); i1 = u32 (inputBuffer ! 1);
          i2 = u32 (inputBuffer ! 2); i3 = u32 (inputBuffer ! 3)
      in [u8 (u32 (u8 (push_bit 2 i0)) + u32 (u8 (drop_bit 4 (i1 AND 0x30)))),
          u8 (u32 (u8 (push_bit 4 (i1 AND 0xF))) + u32 (u8 (drop_bit 2 (i2 AND 0x3C)))),
          u8 (u32 (u8 (push_bit 6 (i2 AND 0x3))) + u32 (u8 i3))])"

text \<open>\<open>base64_chars[v]\<close> (a six-bit value always is an index) and \<open>base64_chars.find(c)\<close>.\<close>

definition char_of_sextet :: "8 word \<Rightarrow> char" where
  "char_of_sextet v = base64_chars ! unat v"

fun find_from :: "char \<Rightarrow> string \<Rightarrow> nat \<Rightarrow> nat option" where
  "find_from c [] n = None"
| "find_from c (x # xs) n = (if x = c then Some n else find_from c xs (Suc n))"

definition find_char :: "char \<Rightarrow> nat option" where
  "find_char c = find_from c base64_chars 0"

text \<open>
  The range loop of \<open>EncodeBase64\<close> with its state: \<open>ret\<close> and the bytes in \<open>inputBuffer\<close>; then the
  flush of an incomplete group after the loop.
\<close>

fun encode_loop :: "8 word list \<Rightarrow> 8 word list \<Rightarrow> string \<Rightarrow> string \<times> 8 word list" where
  "encode_loop [] inputBuffer ret = (ret, inputBuffer)"
| "encode_loop (it # rest) inputBuffer ret =
     (let inputBuffer' = inputBuffer @ [it]
      in if length inputBuffer' = kEncodeInputBufferSize
         then encode_loop rest [] (ret @ map char_of_sextet (PerformBase64EncodeStep inputBuffer'))
         else encode_loop rest inputBuffer' ret)"

definition EncodeBase64 :: "8 word list \<Rightarrow> string" where
  "EncodeBase64 buffer =
     (let (ret, inputBuffer) = encode_loop buffer [] []; ind = length inputBuffer
      in if ind \<noteq> 0
         then let full = inputBuffer @ replicate (kEncodeInputBufferSize - ind) 0
              in ret @ map char_of_sextet (take (ind + 1) (PerformBase64EncodeStep full))
                     @ replicate (kEncodeInputBufferSize - ind) CHR ''=''
         else ret)"

fun decode_loop :: "string \<Rightarrow> 8 word list \<Rightarrow> 8 word list \<Rightarrow> 8 word list \<times> 8 word list" where
  "decode_loop [] inputBuffer ret = (ret, inputBuffer)"
| "decode_loop (it # rest) inputBuffer ret =
     (case find_char it of
        None \<Rightarrow> (ret, inputBuffer)
      | Some found \<Rightarrow>
          (let inputBuffer' = inputBuffer @ [of_nat found]
           in if length inputBuffer' = kDecodeInputBufferSize
              then decode_loop rest [] (ret @ PerformBase64DecodeStep inputBuffer')
              else decode_loop rest inputBuffer' ret))"

definition DecodeBase64 :: "string \<Rightarrow> 8 word list" where
  "DecodeBase64 encoded_string =
     (let (ret, inputBuffer) = decode_loop encoded_string [] []; ind = length inputBuffer
      in if ind \<noteq> 0
         then let full = inputBuffer @ replicate (kDecodeInputBufferSize - ind) 0xFF
              in ret @ take (ind - 1) (PerformBase64DecodeStep full)
         else ret)"

section \<open>The encoding and decoding steps\<close>

lemmas mask_constants =
  bit_window[of 252 6 2, simplified] bit_window[of 3 2 0, simplified] bit_window[of 240 4 4, simplified]
  bit_window[of 192 2 6, simplified] bit_window[of 63 6 0, simplified] bit_window[of 48 2 4, simplified]
  bit_window[of 60 4 2, simplified] 
  bit_window_int[of 252 6 2, simplified] bit_window_int[of 3 2 0, simplified] bit_window_int[of 240 4 4, simplified]
  bit_window_int[of 192 2 6, simplified] bit_window_int[of 63 6 0, simplified] bit_window_int[of 48 2 4, simplified]
  bit_window_int[of 60 4 2, simplified]

lemma unat_byte: "unat (x :: 8 word) < 256" using unsigned_less[of x, where 'a = nat] by simp

lemma u8_add: "u8 (u32 x + u32 y) = x + y"
proof -
  have "unat x < 256" "unat y < 256" by (rule unat_byte)+
  then show ?thesis
    by (simp add: u8_def u32_def word_unat_eq_iff unat_word_ariths unsigned_ucast_eq take_bit_eq_mod)
qed

lemma bit_byte: "bit (a :: 8 word) n \<Longrightarrow> n < 8"
  using bit_imp_le_length[of a n] by simp

lemma encode_fields:
  "u8 (drop_bit 2 (u32 a AND 0xFC)) = drop_bit 2 a"
  "u8 (push_bit 4 (u32 a AND 0x03)) = push_bit 4 (take_bit 2 a)"
  "u8 (drop_bit 4 (u32 a AND 0xF0)) = drop_bit 4 a"
  "u8 (push_bit 2 (u32 a AND 0x0F)) = push_bit 2 (take_bit 4 a)"
  "u8 (drop_bit 6 (u32 a AND 0xC0)) = drop_bit 6 a"
  "u8 (u32 a AND 0x3F) = take_bit 6 a"
  by (rule bit_word_eqI; auto simp: u8_def u32_def bit_simps mask_constants bit_15 dest: bit_byte)+

lemma decode_fields:
  "u8 (push_bit 2 (u32 a)) = push_bit 2 a"
  "u8 (drop_bit 4 (u32 a AND 0x30)) = drop_bit 4 (take_bit 6 a)"
  "u8 (push_bit 4 (u32 a AND 0xF)) = push_bit 4 (take_bit 4 a)"
  "u8 (drop_bit 2 (u32 a AND 0x3C)) = drop_bit 2 (take_bit 6 a)"
  "u8 (push_bit 6 (u32 a AND 0x3)) = push_bit 6 (take_bit 2 a)"
  "u8 (u32 a) = a"
  by (rule bit_word_eqI; auto simp: u8_def u32_def bit_simps mask_constants bit_15 dest: bit_byte)+

lemma unat_fields:
  "unat (drop_bit n (a :: 8 word)) = unat a div 2 ^ n"
  "unat (take_bit n (a :: 8 word)) = unat a mod 2 ^ n"
  "unat (push_bit n (a :: 8 word)) = unat a * 2 ^ n mod 256"
  using take_bit_nat_less_exp[of 8 "unat a"]
  by (simp_all only: unsigned_drop_bit_eq unsigned_take_bit_eq unsigned_push_bit_eq)
    (simp_all add: drop_bit_eq_div take_bit_eq_mod push_bit_eq_mult unat_byte)

lemma unat_add_byte: "unat (x + y :: 8 word) = (unat x + unat y) mod 256"
  by (simp add: unat_word_ariths)

lemma encode_step_fields:
  "PerformBase64EncodeStep xs =
     [drop_bit 2 (xs ! 0), push_bit 4 (take_bit 2 (xs ! 0)) + drop_bit 4 (xs ! 1),
      push_bit 2 (take_bit 4 (xs ! 1)) + drop_bit 6 (xs ! 2), take_bit 6 (xs ! 2)]"
  unfolding PerformBase64EncodeStep_def Let_def encode_fields u8_add ..

lemma decode_step_fields:
  "PerformBase64DecodeStep xs =
     [push_bit 2 (xs ! 0) + drop_bit 4 (take_bit 6 (xs ! 1)),
      push_bit 4 (take_bit 4 (xs ! 1)) + drop_bit 2 (take_bit 6 (xs ! 2)),
      push_bit 6 (take_bit 2 (xs ! 2)) + xs ! 3]"
  unfolding PerformBase64DecodeStep_def Let_def decode_fields u8_add ..

lemma encode_step_unat:
  "map unat (PerformBase64EncodeStep [a, b, c]) =
     [unat a div 4, unat a mod 4 * 16 + unat b div 16, unat b mod 16 * 4 + unat c div 64, unat c mod 64]"
  using unat_byte[of a] unat_byte[of b] unat_byte[of c]
  unfolding encode_step_fields list.map unat_add_byte unat_fields by simp

lemma decode_step_unat:
  "map unat (PerformBase64DecodeStep [p, q, r, s]) =
     [(unat p * 4 mod 256 + unat q mod 64 div 16) mod 256,
      (unat q mod 16 * 16 + unat r mod 64 div 4) mod 256,
      (unat r mod 4 * 64 mod 256 + unat s) mod 256]"
  unfolding decode_step_fields list.map unat_add_byte unat_fields by simp

text \<open>The two steps are inverse to each other, also on the incomplete groups of one and two bytes.\<close>

lemma sextets_of_group:
  obtains s0 s1 s2 s3 where "PerformBase64EncodeStep [a, b, c] = [s0, s1, s2, s3]"
    "unat s0 = unat a div 4" "unat s1 = unat a mod 4 * 16 + unat b div 16"
    "unat s2 = unat b mod 16 * 4 + unat c div 64" "unat s3 = unat c mod 64"
proof -
  obtain s0 s1 s2 s3 where "PerformBase64EncodeStep [a, b, c] = [s0, s1, s2, s3]"
    unfolding encode_step_fields by blast
  with encode_step_unat[of a b c] that show thesis by simp
qed

lemma decode_step_bytes:
  assumes "unat s0 = unat a div 4" "unat s1 = unat a mod 4 * 16 + unat b div 16"
    "unat s2 mod 64 div 4 = unat b mod 16"
  shows "take 2 (PerformBase64DecodeStep [s0, s1, s2, s]) = [a, b]"
proof -
  have m: "u * 4 mod 256 + (u' * 16 + v) mod 64 div 16 = 4 * u + u'" if "u < 64" "u' < 4" "v < 16" for u u' v :: nat
    using that by simp 
  have "map unat (take 2 (PerformBase64DecodeStep [s0, s1, s2, s])) = map unat [a, b]"
    using unat_byte[of a] unat_byte[of b] assms
    by (simp add: take_map[symmetric] decode_step_unat numeral_2_eq_2 m) 
  then show ?thesis by (simp only: inj_map_eq_map[OF injI, of unat] word_unat_eq_iff)
qed


lemma decode_step_group:
  "PerformBase64DecodeStep (PerformBase64EncodeStep [a, b, c]) = [a, b, c]"
proof -
  obtain s0 s1 s2 s3 where s: "PerformBase64EncodeStep [a, b, c] = [s0, s1, s2, s3]"
    "unat s0 = unat a div 4" "unat s1 = unat a mod 4 * 16 + unat b div 16"
    "unat s2 = unat b mod 16 * 4 + unat c div 64" "unat s3 = unat c mod 64"
    by (rule sextets_of_group)
  have "unat s2 mod 64 div 4 = unat b mod 16" using unat_byte[of c] by (simp add: s)
  from decode_step_bytes[OF s(2,3) this, of s3]
  have 2: "take 2 (PerformBase64DecodeStep [s0, s1, s2, s3]) = [a, b]" .
  have "unat (PerformBase64DecodeStep [s0, s1, s2, s3] ! 2) = unat c"
    using arg_cong[OF decode_step_unat[of s0 s1 s2 s3], of "\<lambda>xs. xs ! 2"] unat_byte[of c] s(4,5)
    by (simp add: decode_step_fields)
  then have 3: "PerformBase64DecodeStep [s0, s1, s2, s3] ! 2 = c" by (simp only: word_unat_eq_iff)
  from 2 3 show ?thesis by (simp add: s(1) decode_step_fields numeral_2_eq_2)
qed

section \<open>The alphabet\<close>

lemma distinct_base64_chars: "distinct base64_chars"
  unfolding base64_chars_def by code_simp

lemma length_base64_chars: "length base64_chars = 64"
  unfolding base64_chars_def by simp

lemma find_from_nth: "distinct xs \<Longrightarrow> i < length xs \<Longrightarrow> find_from (xs ! i) xs n = Some (n + i)"
proof (induction xs arbitrary: i n)
  case (Cons x xs)
  then show ?case by (cases i) (auto simp: nth_eq_iff_index_eq)
qed simp

lemma find_from_None: "find_from c xs n = None \<longleftrightarrow> c \<notin> set xs"
  by (induction xs arbitrary: n) auto

lemma find_char_sextet: "unat v < 64 \<Longrightarrow> find_char (char_of_sextet v) = Some (unat v)"
  by (simp add: find_char_def char_of_sextet_def find_from_nth distinct_base64_chars length_base64_chars)

lemma find_char_None: "find_char c = None \<longleftrightarrow> c \<notin> set base64_chars"
  by (simp add: find_char_def find_from_None)

lemma pad_not_in_alphabet: "CHR ''='' \<notin> set base64_chars"
  by (simp add: base64_chars_def)

lemma find_char_pad: "find_char CHR ''='' = None"
  by (simp add: find_char_None pad_not_in_alphabet)

lemma sextet_bound: "v \<in> set (PerformBase64EncodeStep [a, b, c]) \<Longrightarrow> unat v < 64"
proof -
  assume "v \<in> set (PerformBase64EncodeStep [a, b, c])"
  then have "unat v \<in> set (map unat (PerformBase64EncodeStep [a, b, c]))" by (simp only: set_map) (rule imageI)
  then show ?thesis
    using unat_byte[of a] unat_byte[of b] unat_byte[of c] unfolding encode_step_unat by auto
qed

lemma char_of_sextet_in_alphabet: "unat v < 64 \<Longrightarrow> char_of_sextet v \<in> set base64_chars"
  by (simp add: char_of_sextet_def length_base64_chars)

section \<open>The loops, group by group\<close>

lemma encode_loop_group:
  "encode_loop (a # b # c # rest) [] ret =
     encode_loop rest [] (ret @ map char_of_sextet (PerformBase64EncodeStep [a, b, c]))"
  by (simp add: kEncodeInputBufferSize_def)

lemma encode_loop_acc:
  "encode_loop bs buf ret = (ret @ fst (encode_loop bs buf []), snd (encode_loop bs buf []))"
proof (induction bs arbitrary: buf ret)
  case (Cons x bs)
  show ?case
    by (simp add: Let_def Cons[of "[]" "ret @ _"] Cons[of "[]" "map _ _"] Cons[of _ ret])
qed simp

lemma EncodeBase64_group:
  "EncodeBase64 (a # b # c # rest) = map char_of_sextet (PerformBase64EncodeStep [a, b, c]) @ EncodeBase64 rest"
  unfolding EncodeBase64_def encode_loop_group
  by (subst encode_loop_acc) (simp add: Let_def split: prod.split)

lemma EncodeBase64_short:
  "EncodeBase64 [] = []"
  "EncodeBase64 [a] = map char_of_sextet (take 2 (PerformBase64EncodeStep [a, 0, 0])) @ ''==''"
  "EncodeBase64 [a, b] = map char_of_sextet (take 3 (PerformBase64EncodeStep [a, b, 0])) @ ''=''"
  by (simp_all add: EncodeBase64_def kEncodeInputBufferSize_def numeral_2_eq_2 numeral_3_eq_3)


lemma decode_loop_sextets:
  assumes "\<forall>v \<in> set vs. unat v < 64" "length buf + length vs < 4"
  shows "decode_loop (map char_of_sextet vs @ rest) buf ret = decode_loop rest (buf @ vs) ret"
  using assms
  by (induction vs arbitrary: buf) (simp_all add: find_char_sextet kDecodeInputBufferSize_def)

lemma decode_loop_group:
  "decode_loop (map char_of_sextet (PerformBase64EncodeStep [a, b, c]) @ rest) [] ret =
     decode_loop rest [] (ret @ [a, b, c])"
proof -
  obtain s0 s1 s2 s3 where s: "PerformBase64EncodeStep [a, b, c] = [s0, s1, s2, s3]"
    by (rule sextets_of_group)
  have b: "unat v < 64" if "v \<in> set [s0, s1, s2, s3]" for v using sextet_bound[of v a b c] that by (auto simp: s)
  have "decode_loop (map char_of_sextet [s0, s1, s2] @ char_of_sextet s3 # rest) [] ret =
      decode_loop (char_of_sextet s3 # rest) [s0, s1, s2] ret"
    by (subst decode_loop_sextets) (simp_all add: b)
  also have "\<dots> = decode_loop rest [] (ret @ [a, b, c])"
    by (simp add: find_char_sextet b kDecodeInputBufferSize_def decode_step_group[of a b c, unfolded s])
  finally show ?thesis by (simp add: s)
qed

lemma decode_loop_acc:
  "decode_loop cs buf ret = (ret @ fst (decode_loop cs buf []), snd (decode_loop cs buf []))"
proof (induction cs arbitrary: buf ret)
  case (Cons x cs)
  show ?case
    by (simp add: Let_def Cons[of "[]" "ret @ _"] Cons[of "[]" "PerformBase64DecodeStep _"] Cons[of _ ret] split: option.split)
qed simp

lemma DecodeBase64_group:
  "DecodeBase64 (map char_of_sextet (PerformBase64EncodeStep [a, b, c]) @ rest) = [a, b, c] @ DecodeBase64 rest"
  unfolding DecodeBase64_def decode_loop_group
  by (subst decode_loop_acc) (simp add: Let_def split: prod.split)

lemma DecodeBase64_partial:
  assumes "\<forall>v \<in> set vs. unat v < 64" "vs \<noteq> []" "length vs < 4" "find_char c = None"
  shows "DecodeBase64 (map char_of_sextet vs @ c # rest) =
    take (length vs - 1) (PerformBase64DecodeStep (vs @ replicate (4 - length vs) 0xFF))"
  using assms decode_loop_sextets[of vs "[]" "c # rest" "[]"]
  by (simp add: DecodeBase64_def kDecodeInputBufferSize_def Let_def)

lemma decode_one: "DecodeBase64 (EncodeBase64 [a]) = [a]"
proof -
  obtain s0 s1 s2 s3 where s: "PerformBase64EncodeStep [a, 0, 0] = [s0, s1, s2, s3]"
    "unat s0 = unat a div 4" "unat s1 = unat a mod 4 * 16 + unat (0 :: 8 word) div 16"
    "unat s2 = unat (0 :: 8 word) mod 16 * 4 + unat (0 :: 8 word) div 64"
    by (rule sextets_of_group)
  have b: "unat v < 64" if "v \<in> set [s0, s1]" for v using sextet_bound[of v a 0 0] that by (auto simp: s)
  have "DecodeBase64 (map char_of_sextet [s0, s1] @ ''=='') = take 1 (PerformBase64DecodeStep [s0, s1, 0xFF, 0xFF])"
    by (subst DecodeBase64_partial) (simp_all add: b find_char_pad numeral_2_eq_2)
  also have "\<dots> = [a]"
    using decode_step_bytes[OF s(2,3), of 0 0] by (simp add: decode_step_fields take_Cons')
  finally show ?thesis by (simp add: EncodeBase64_short s(1) numeral_2_eq_2)
qed

lemma decode_two: "DecodeBase64 (EncodeBase64 [a, b]) = [a, b]"
proof -
  obtain s0 s1 s2 s3 where s: "PerformBase64EncodeStep [a, b, 0] = [s0, s1, s2, s3]"
    "unat s0 = unat a div 4" "unat s1 = unat a mod 4 * 16 + unat b div 16"
    "unat s2 = unat b mod 16 * 4 + unat (0 :: 8 word) div 64"
    by (rule sextets_of_group)
  have b: "unat v < 64" if "v \<in> set [s0, s1, s2]" for v using sextet_bound[of v a b 0] that by (auto simp: s)
  have "DecodeBase64 (map char_of_sextet [s0, s1, s2] @ ''='') = take 2 (PerformBase64DecodeStep [s0, s1, s2, 0xFF])"
    by (subst DecodeBase64_partial) (simp_all add: b find_char_pad numeral_3_eq_3 numeral_2_eq_2)
  also have "\<dots> = [a, b]" by (rule decode_step_bytes) (simp_all add: s(2-4))
  finally show ?thesis by (simp add: EncodeBase64_short s(1) numeral_3_eq_3)
qed

section \<open>Reference definition and properties\<close>

text \<open>
  RFC 4648: a group of three bytes is a 24-bit number, written with four digits of base 64; a last
  group of one or two bytes is completed with zero bytes, and the digits that hold none of its bits
  are replaced by the pad character.
\<close>

definition group_value :: "8 word \<Rightarrow> 8 word \<Rightarrow> 8 word \<Rightarrow> nat" where
  "group_value a b c = unat a * 2 ^ 16 + unat b * 2 ^ 8 + unat c"

definition digit64 :: "nat \<Rightarrow> nat \<Rightarrow> char" where
  "digit64 n k = base64_chars ! (n div 64 ^ k mod 64)"

fun base64_spec :: "8 word list \<Rightarrow> string" where
  "base64_spec [] = []"
| "base64_spec [a] = (let n = group_value a 0 0 in [digit64 n 3, digit64 n 2] @ ''=='')"
| "base64_spec [a, b] = (let n = group_value a b 0 in [digit64 n 3, digit64 n 2, digit64 n 1] @ ''='')"
| "base64_spec (a # b # c # rest) =
     (let n = group_value a b c
      in [digit64 n 3, digit64 n 2, digit64 n 1, digit64 n 0] @ base64_spec rest)"

lemma group_digits:
  fixes x1 :: nat
  assumes n: "n = 262144 * x1 + 65536 * x0 + 4096 * y1 + 256 * y0 + 64 * z1 + z0"
    and b: "x0 < 4" "y0 < 16" "z0 < 64" "x1 < 64" "y1 < 16" "z1 < 4"
  shows "n div 64 ^ 3 mod 64 = x1" "n div 64 ^ 2 mod 64 = 16 * x0 + y1"
    "n div 64 ^ 1 mod 64 = 4 * y0 + z1" "n div 64 ^ 0 mod 64 = z0"
proof -
  have "262144 * x1 \<le> n" "n < 262144 * x1 + 262144" using b unfolding n by linarith+
  then have "n div 262144 = x1" by (intro div_nat_eqI) simp_all
  then show "n div 64 ^ 3 mod 64 = x1" using b by simp
  have "262144 * x1 + 65536 * x0 + 4096 * y1 \<le> n" "n < 262144 * x1 + 65536 * x0 + 4096 * y1 + 4096"
    using b unfolding n by linarith+
  then have "n div 4096 = 64 * x1 + (16 * x0 + y1)" by (intro div_nat_eqI) simp_all
  moreover have "16 * x0 + y1 < 64" using b by linarith
  ultimately show "n div 64 ^ 2 mod 64 = 16 * x0 + y1" by simp
  have "262144 * x1 + 65536 * x0 + 4096 * y1 + 256 * y0 + 64 * z1 \<le> n"
    "n < 262144 * x1 + 65536 * x0 + 4096 * y1 + 256 * y0 + 64 * z1 + 64"
    using b unfolding n by linarith+
  then have "n div 64 = 64 * (64 * x1 + 16 * x0 + y1) + (4 * y0 + z1)" by (intro div_nat_eqI) simp_all
  moreover have "4 * y0 + z1 < 64" using b by linarith
  ultimately show "n div 64 ^ 1 mod 64 = 4 * y0 + z1"
    by (simp only: power_one_right mod_mult_self4 mod_less)
  have "n = 64 * (4096 * x1 + 1024 * x0 + 64 * y1 + 4 * y0 + z1) + z0" by (simp add: n)
  then show "n div 64 ^ 0 mod 64 = z0" using b by (simp only: power_0 div_by_1 mod_mult_self4 mod_less)
qed

lemma encode_step_digits:
  "map char_of_sextet (PerformBase64EncodeStep [a, b, c]) =
     (let n = group_value a b c in [digit64 n 3, digit64 n 2, digit64 n 1, digit64 n 0])"
proof -
  obtain s0 s1 s2 s3 where s: "PerformBase64EncodeStep [a, b, c] = [s0, s1, s2, s3]"
    "unat s0 = unat a div 4" "unat s1 = unat a mod 4 * 16 + unat b div 16"
    "unat s2 = unat b mod 16 * 4 + unat c div 64" "unat s3 = unat c mod 64"
    by (rule sextets_of_group)
  define x1 x0 y1 y0 z1 z0 where d: "x1 = unat a div 4" "x0 = unat a mod 4" "y1 = unat b div 16"
    "y0 = unat b mod 16" "z1 = unat c div 64" "z0 = unat c mod 64"
  have u: "unat a = 4 * x1 + x0" "unat b = 16 * y1 + y0" "unat c = 64 * z1 + z0" unfolding d by simp_all
  have "x0 < 4" "y0 < 16" "z0 < 64" "x1 < 64" "y1 < 16" "z1 < 4"
    using unat_byte[of a] unat_byte[of b] unat_byte[of c] unfolding d by simp_all
  note g = group_digits[OF _ this]
  have n: "group_value a b c = 262144 * x1 + 65536 * x0 + 4096 * y1 + 256 * y0 + 64 * z1 + z0"
    unfolding group_value_def u by simp
  show ?thesis
    by (simp only: s g[OF n] d[symmetric] list.map char_of_sextet_def digit64_def Let_def mult.commute)
qed

lemma EncodeBase64_spec: "EncodeBase64 bs = base64_spec bs"
  using encode_step_digits[of _ 0 0] encode_step_digits[of _ _ 0]
  by (induction bs rule: base64_spec.induct)
    (simp_all add: EncodeBase64_group encode_step_digits EncodeBase64_short take_map[symmetric] Let_def
      numeral_2_eq_2 numeral_3_eq_3)

lemma groups_Suc: "(5 + n) div 3 = Suc (Suc (Suc n) div 3)" for n :: nat
  using div_add_self1[of 3 "2 + n"] by simp

lemma digit64_in_alphabet: "digit64 n k \<in> set base64_chars"
  by (simp add: digit64_def length_base64_chars)

lemma decode_loop_foreign: "find_char c = None \<Longrightarrow> decode_loop (s @ c # t) buf ret = decode_loop s buf ret"
  by (induction s buf ret rule: decode_loop.induct) (simp_all add: Let_def split: option.split)

text \<open>
  C11: \<open>EncodeBase64\<close> computes the base-64 text of RFC 4648: every group of three bytes as the four base-64
  digits of its 24-bit value, an incomplete last group padded with \<open>=\<close>; the text has four characters
  per started group, all of the alphabet or the pad character.
\<close>

theorem EncodeBase64_correct:
  "EncodeBase64 buffer = base64_spec buffer
   \<and> length (EncodeBase64 buffer) = 4 * ((length buffer + 2) div 3)
   \<and> set (EncodeBase64 buffer) \<subseteq> set base64_chars \<union> {CHR ''=''}"
  unfolding EncodeBase64_spec
  by (induction buffer rule: base64_spec.induct) (auto simp: Let_def digit64_in_alphabet groups_Suc)

text \<open>
  C10: Decoding an encoded buffer gives the buffer back, whatever its length.
\<close>

theorem Base64_round_trip: "DecodeBase64 (EncodeBase64 buffer) = buffer"
  by (induction buffer rule: base64_spec.induct)
    (simp_all add: decode_one decode_two EncodeBase64_short(1) EncodeBase64_group DecodeBase64_group,
     simp add: DecodeBase64_def)

text \<open>
  \<open>DecodeBase64\<close> reads up to the first character outside the alphabet and ignores everything from
  there on: the pad characters, and any text that follows, do not change the result.
\<close>

theorem DecodeBase64_stops:
  assumes "c \<notin> set base64_chars"
  shows "DecodeBase64 (s @ c # t) = DecodeBase64 s"
  using assms by (simp add: DecodeBase64_def decode_loop_foreign find_char_None)

theorem DecodeBase64_stops_witness:
  "CHR ''='' \<notin> set base64_chars \<and> DecodeBase64 (''QQ'' @ CHR ''='' # ''=QUJD'') = DecodeBase64 ''QQ''"
  using DecodeBase64_stops[of "CHR ''=''" "''QQ''" "''=QUJD''"] by (simp add: base64_chars_def)

end
