(* ===== verification/Fs_Path.thy ===== *)
theory Fs_Path
  imports Prelude "HOL-Library.Char_ord" "HOL-Library.List_Lexorder"
begin

text \<open>
  The class \<open>score::filesystem::Path\<close> of src/score/filesystem/path.h and path.cpp: its constructors and
  the parser behind them, the lexical operations (append, decomposition, queries, modifiers,
  \<open>LexicallyNormal\<close>) and its bidirectional iterator. A path has its text \<open>native_path_\<close> and its
  \<open>parts_\<close>, which are themselves paths that were built without parsing. A failed
  \<open>SCORE_LANGUAGE_FUTURECPP_ASSERT_PRD\<close> is \<^const>\<open>Abort\<close>; reading a character outside of a string is
  \<^const>\<open>Undefined\<close>. A position is a natural number, \<open>npos\<close> is \<open>None\<close>.
\<close>

section \<open>Model\<close>

datatype Path = Path (native_path: string) (parts: "Path list")

definition preferred_separator :: char where "preferred_separator = CHR ''/''"

definition dot :: string where "dot = ''.''"

definition dotdot :: string where "dotdot = ''..''"

subsection \<open>What the code uses of \<open>std::string\<close>\<close>

definition string_front :: "string \<Rightarrow> char result" where
  "string_front s = (case s of [] \<Rightarrow> Undefined | c # _ \<Rightarrow> Ret c)"

definition string_back :: "string \<Rightarrow> char result" where
  "string_back s = (if s = [] then Undefined else Ret (last s))"

fun find_first_not_of :: "string \<Rightarrow> char \<Rightarrow> nat option" where
  "find_first_not_of [] c = None"
| "find_first_not_of (x # xs) c = (if x \<noteq> c then Some 0 else map_option Suc (find_first_not_of xs c))"

fun find_last_of :: "string \<Rightarrow> char \<Rightarrow> nat option" where
  "find_last_of [] c = None"
| "find_last_of (x # xs) c =
     (case find_last_of xs c of
        Some n \<Rightarrow> Some (Suc n)
      | None \<Rightarrow> (if x = c then Some 0 else None))"

text \<open>
  \<open>std::getline\<close> on the rest of a string stream: it fails when there is no character left, and consumes
  the delimiter it stops at.
\<close>

definition getline :: "string \<Rightarrow> char \<Rightarrow> (string \<times> string) option" where
  "getline stream delim =
     (if stream = [] then None
      else let part = takeWhile (\<lambda>c. c \<noteq> delim) stream in Some (part, drop (Suc (length part)) stream))"

subsection \<open>Construction\<close>

function AddPathPartToParts :: "string \<Rightarrow> Path list \<Rightarrow> Path list" where
  "AddPathPartToParts stringstream_path parts' =
     (case getline stringstream_path preferred_separator of
        None \<Rightarrow> parts'
      | Some (path_part, rest) \<Rightarrow>
          AddPathPartToParts rest (if path_part \<noteq> [] then parts' @ [Path path_part []] else parts'))"
  by pat_completeness auto
termination
  by (relation "measure (length \<circ> fst)") (auto simp: getline_def Let_def split: if_splits)

declare AddPathPartToParts.simps [simp del]

definition Parse :: "string \<Rightarrow> Path list result" where
  "Parse path =
     (if path = [] then Ret []
      else bind_outcome (string_front path) (\<lambda>f.
        let starts_with_separator = (f = preferred_separator);
            parts0 = (if starts_with_separator then [Path [preferred_separator] []] else []);
            parts1 = AddPathPartToParts path parts0
        in if length parts1 = 0 then Abort
           else bind_outcome (string_back path) (\<lambda>b.
             let is_multipart = (length parts1 > 1);
                 ends_with_separator = (b = preferred_separator);
                 parts2 = (if ends_with_separator \<and> (is_multipart \<or> \<not> starts_with_separator)
                           then parts1 @ [Path [] []] else parts1)
             in Ret (if length parts2 = 1 then [] else parts2))))"

definition Path_default :: Path where
  "Path_default = Path [] []"

definition Path_of_string :: "string \<Rightarrow> bool \<Rightarrow> Path result" where
  "Path_of_string path do_parsing =
     (if do_parsing then bind_outcome (Parse path) (\<lambda>ps. Ret (Path path ps)) else Ret (Path path []))"

text \<open>The public constructors from a string; the format has no influence on POSIX.\<close>

datatype Format = kNativeFormat | kGenericFormat | kAutoFormat

definition make_Path :: "string \<Rightarrow> Format \<Rightarrow> Path result" where
  "make_Path user_path format = Path_of_string user_path True"

abbreviation path_from :: "string \<Rightarrow> Path result" where
  "path_from s \<equiv> make_Path s kAutoFormat"

subsection \<open>Queries and decomposition\<close>

definition Native :: "Path \<Rightarrow> string" where
  "Native p = native_path p"

definition Path_Empty :: "Path \<Rightarrow> bool" where
  "Path_Empty p = (native_path p = [])"

definition IsAbsolute :: "Path \<Rightarrow> bool" where
  "IsAbsolute p =
     (case native_path p of [] \<Rightarrow> False | c # _ \<Rightarrow> c = preferred_separator)"

definition IsRelative :: "Path \<Rightarrow> bool" where
  "IsRelative p = (\<not> IsAbsolute p)"

definition RootName :: "Path \<Rightarrow> Path" where
  "RootName p = Path_default"

definition RootDirectory :: "Path \<Rightarrow> Path result" where
  "RootDirectory p = (if IsAbsolute p then path_from ''/'' else Ret Path_default)"

definition RootPath :: "Path \<Rightarrow> Path result" where
  "RootPath p = RootDirectory p"

definition RelativePath :: "Path \<Rightarrow> Path result" where
  "RelativePath p =
     (if IsAbsolute p
      then bind_outcome (RootPath p) (\<lambda>root. path_from (drop (length (Native root)) (Native p)))
      else Ret p)"

text \<open>
  The loop of \<open>ParentPath\<close> that steps over the separators in front of the last one. At position 0 the code
  reads the character at index \<open>0 - 1\<close>, which lies outside of the string.
\<close>

fun skip_separators :: "string \<Rightarrow> nat \<Rightarrow> nat result" where
  "skip_separators parent_path 0 = Undefined"
| "skip_separators parent_path (Suc p) =
     (if parent_path ! p = preferred_separator then skip_separators parent_path p else Ret (Suc p))"

definition ParentPath :: "Path \<Rightarrow> Path result" where
  "ParentPath p =
     (if Path_Empty p then Ret Path_default
      else let parent_path = Native p
           in if find_first_not_of parent_path preferred_separator = None then Ret p
              else case find_last_of parent_path preferred_separator of
                     None \<Rightarrow> Ret Path_default
                   | Some 0 \<Rightarrow> path_from [preferred_separator]
                   | Some position_of_last_path_separator \<Rightarrow>
                       bind_outcome (skip_separators parent_path position_of_last_path_separator) (\<lambda>pos.
                         path_from (take pos parent_path)))"

definition FilenamePosition :: "Path \<Rightarrow> nat option" where
  "FilenamePosition p =
     (if Path_Empty p then None
      else let position_of_filename =
                 (case find_last_of (Native p) preferred_separator of None \<Rightarrow> 0 | Some n \<Rightarrow> n + 1)
           in if position_of_filename = length (Native p) then None else Some position_of_filename)"

definition Filename :: "Path \<Rightarrow> Path result" where
  "Filename p =
     (case FilenamePosition p of
        None \<Rightarrow> Ret Path_default
      | Some position_of_filename \<Rightarrow>
          (if position_of_filename = 0 then path_from (Native p)
           else path_from (drop position_of_filename (Native p))))"

definition ExtensionPosition_at :: "Path \<Rightarrow> nat option \<Rightarrow> nat option" where
  "ExtensionPosition_at p position_of_filename =
     (case position_of_filename of
        None \<Rightarrow> None
      | Some pos \<Rightarrow>
          (let filename = drop pos (Native p)
           in if filename = ''.'' \<or> filename = ''..'' then None
              else map_option (\<lambda>n. n + (pos + 1)) (find_last_of (drop 1 filename) CHR ''.'')))"

definition ExtensionPosition :: "Path \<Rightarrow> nat option" where
  "ExtensionPosition p = ExtensionPosition_at p (FilenamePosition p)"

definition Extension :: "Path \<Rightarrow> Path result" where
  "Extension p =
     (case ExtensionPosition p of None \<Rightarrow> Ret Path_default | Some pos \<Rightarrow> path_from (drop pos (Native p)))"

definition Stem :: "Path \<Rightarrow> Path result" where
  "Stem p =
     (case FilenamePosition p of
        None \<Rightarrow> Ret Path_default
      | Some position_of_filename \<Rightarrow>
          (case ExtensionPosition_at p (Some position_of_filename) of
             None \<Rightarrow> path_from (drop position_of_filename (Native p))
           | Some position_of_extension_separator \<Rightarrow>
               path_from (take (position_of_extension_separator - position_of_filename)
                               (drop position_of_filename (Native p)))))"

definition HasRootPath :: "Path \<Rightarrow> bool result" where
  "HasRootPath p = bind_outcome (RootPath p) (\<lambda>r. Ret (\<not> Path_Empty r))"

definition HasRootName :: "Path \<Rightarrow> bool" where
  "HasRootName p = (\<not> Path_Empty (RootName p))"

definition HasRootDirectory :: "Path \<Rightarrow> bool result" where
  "HasRootDirectory p = bind_outcome (RootDirectory p) (\<lambda>r. Ret (\<not> Path_Empty r))"

definition HasRelativePath :: "Path \<Rightarrow> bool result" where
  "HasRelativePath p = bind_outcome (RootPath p) (\<lambda>r. Ret (Native p \<noteq> Native r))"

definition HasParentPath :: "Path \<Rightarrow> bool result" where
  "HasParentPath p = bind_outcome (ParentPath p) (\<lambda>r. Ret (\<not> Path_Empty r))"

definition HasFilename :: "Path \<Rightarrow> bool result" where
  "HasFilename p = bind_outcome (Filename p) (\<lambda>r. Ret (\<not> Path_Empty r))"

definition HasExtension :: "Path \<Rightarrow> bool result" where
  "HasExtension p = bind_outcome (Extension p) (\<lambda>r. Ret (\<not> Path_Empty r))"

definition path_eq :: "Path \<Rightarrow> Path \<Rightarrow> bool" where
  "path_eq lhs rhs = (Native lhs = Native rhs)"

definition path_neq :: "Path \<Rightarrow> Path \<Rightarrow> bool" where
  "path_neq lhs rhs = (Native lhs \<noteq> Native rhs)"

definition path_less :: "Path \<Rightarrow> Path \<Rightarrow> bool" where
  "path_less lhs rhs = (Native lhs < Native rhs)"

subsection \<open>Modifiers\<close>

text \<open>\<open>operator/=\<close> for an argument that is a different object than the path it is appended to.\<close>

definition append_assign :: "Path \<Rightarrow> Path \<Rightarrow> Path result" where
  "append_assign p to_append =
     bind_outcome
       (if (Path_Empty p \<or> IsAbsolute to_append) \<or>
           (HasRootName to_append \<and> Native (RootName to_append) \<noteq> Native (RootName p))
        then Ret (native_path to_append)
        else bind_outcome (string_back (native_path p)) (\<lambda>b.
          Ret ((if b \<noteq> CHR ''/'' then native_path p @ [preferred_separator] else native_path p)
               @ native_path to_append)))
       (\<lambda>native. bind_outcome (Parse native) (\<lambda>ps. Ret (Path native ps)))"

definition path_div :: "Path \<Rightarrow> Path \<Rightarrow> Path result" where
  "path_div lhs rhs = append_assign lhs rhs"

definition ReplaceExtension :: "Path \<Rightarrow> Path \<Rightarrow> Path result" where
  "ReplaceExtension p replacement =
     (let native1 = (case ExtensionPosition p of None \<Rightarrow> native_path p | Some pos \<Rightarrow> take pos (native_path p));
          extension = Native replacement;
          native2 = (if extension \<noteq> [] \<and> extension ! 0 \<noteq> CHR ''.'' then native1 @ ''.'' else native1);
          native3 = native2 @ extension
      in bind_outcome (Parse native3) (\<lambda>ps. Ret (Path native3 ps)))"

definition RemoveFilename :: "Path \<Rightarrow> Path result" where
  "RemoveFilename p =
     (case FilenamePosition p of
        None \<Rightarrow> Ret p
      | Some filename_position \<Rightarrow>
          (let native = take filename_position (native_path p)
           in bind_outcome (Parse native) (\<lambda>ps. Ret (Path native ps))))"

subsection \<open>\<open>LexicallyNormal\<close>\<close>

definition RemovePotentialTrailingDirectorySeparator :: "string list \<Rightarrow> string list" where
  "RemovePotentialTrailingDirectorySeparator new_parts =
     (if length new_parts \<ge> 2 \<and> last new_parts = []
         \<and> (last (butlast new_parts) = dotdot \<or> last (butlast new_parts) = dot)
      then butlast new_parts else new_parts)"

text \<open>The loop erases the part behind the root while it is dot-dot.\<close>

fun erase_leading_dotdots :: "string list \<Rightarrow> string list" where
  "erase_leading_dotdots [] = []"
| "erase_leading_dotdots (current_part # rest) =
     (if current_part = dotdot then erase_leading_dotdots rest else current_part # rest)"

definition RemovePotentialMoveUpsAndSeparatorsAfterRoot :: "string list \<Rightarrow> string list" where
  "RemovePotentialMoveUpsAndSeparatorsAfterRoot new_parts =
     (case new_parts of
        (c # cs) # rest \<Rightarrow> (if c = preferred_separator then (c # cs) # erase_leading_dotdots rest else new_parts)
      | _ \<Rightarrow> new_parts)"

text \<open>
  One run of the inner \<open>for\<close> loop, from \<open>previous_part\<close> on: the first pair of a file name and a dot-dot is
  erased; the result says whether there was one. The test reads the first character of
  \<open>previous_part\<close> only when the two comparisons before it hold.
\<close>

fun erase_first_pair :: "string \<Rightarrow> string list \<Rightarrow> string list option result" where
  "erase_first_pair previous_part [] = Ret None"
| "erase_first_pair previous_part (current_part # rest) =
     (let continue = bind_outcome (erase_first_pair current_part rest) (\<lambda>r.
                       Ret (map_option ((#) previous_part) r))
      in if current_part = dotdot \<and> previous_part \<noteq> dotdot
         then bind_outcome (string_front previous_part) (\<lambda>c.
                if c \<noteq> preferred_separator then Ret (Some rest) else continue)
         else continue)"

lemma erase_first_pair_shorter:
  "erase_first_pair q ps = Ret (Some ps') \<Longrightarrow> length ps' + 1 = length ps"
  by (induction q ps arbitrary: ps' rule: erase_first_pair.induct)
    (auto simp: Let_def split: if_splits)

function RemovePotentialFileNamesFollowedByMoveUpsAndSeparator :: "string list \<Rightarrow> string list result" where
  "RemovePotentialFileNamesFollowedByMoveUpsAndSeparator new_parts =
     (case new_parts of
        [] \<Rightarrow> Ret []
      | first # rest \<Rightarrow>
          (case erase_first_pair first rest of
             Ret (Some new_parts') \<Rightarrow> RemovePotentialFileNamesFollowedByMoveUpsAndSeparator new_parts'
           | Ret None \<Rightarrow> Ret new_parts
           | Err e \<Rightarrow> Err e
           | Abort \<Rightarrow> Abort
           | Undefined \<Rightarrow> Undefined))"
  by pat_completeness auto
termination
  by (relation "measure length") (auto dest: erase_first_pair_shorter)

declare RemovePotentialFileNamesFollowedByMoveUpsAndSeparator.simps [simp del]

fun create_path_string :: "string list \<Rightarrow> bool \<Rightarrow> string \<Rightarrow> string" where
  "create_path_string [] is_separator_required normalized_path = normalized_path"
| "create_path_string (current_part # rest) is_separator_required normalized_path =
     create_path_string rest
       (if current_part \<noteq> [] \<and> hd current_part \<noteq> preferred_separator then True else is_separator_required)
       ((if is_separator_required then normalized_path @ [preferred_separator] else normalized_path) @ current_part)"

definition CreatePathStringFromParts :: "string list \<Rightarrow> string" where
  "CreatePathStringFromParts new_parts = create_path_string new_parts False []"

definition AddPreferredSeperatorIfNeeded :: "Path \<Rightarrow> string list \<Rightarrow> string \<Rightarrow> string result" where
  "AddPreferredSeperatorIfNeeded p new_parts normalized_path =
     (let last_was_dot = (Native (last (parts p)) = dot \<or> Native (last (parts p)) = dotdot)
      in if last_was_dot \<and> last new_parts \<noteq> dotdot
         then bind_outcome (if length new_parts \<noteq> 1 then Ret True
                            else bind_outcome (string_front (native_path p)) (\<lambda>c. Ret (c \<noteq> preferred_separator)))
                (\<lambda>b. Ret (if b then normalized_path @ [preferred_separator] else normalized_path))
         else Ret normalized_path)"

definition LexicallyNormal :: "Path \<Rightarrow> Path result" where
  "LexicallyNormal p =
     (if parts p = [] then path_from (native_path p)
      else let new_parts = filter (\<lambda>part. part \<noteq> dot) (map Native (parts p))
           in if new_parts = [] then path_from ''.''
              else bind_outcome (RemovePotentialFileNamesFollowedByMoveUpsAndSeparator new_parts) (\<lambda>new_parts.
                if new_parts = [] then path_from ''.''
                else let new_parts = RemovePotentialMoveUpsAndSeparatorsAfterRoot new_parts;
                         new_parts = RemovePotentialTrailingDirectorySeparator new_parts;
                         normalized_path = CreatePathStringFromParts new_parts
                     in if normalized_path = [] then path_from ''.''
                        else bind_outcome (AddPreferredSeperatorIfNeeded p new_parts normalized_path) path_from))"

subsection \<open>The iterator\<close>

text \<open>
  The iterator refers to a path object: its address, which \<open>equals\<close> compares, and its value. \<open>cur_\<close> is
  the index into \<open>parts_\<close> (not used by an iterator over an empty \<open>parts_\<close>, where it is value-initialised).
\<close>

record iterator =
  it_path :: "(nat \<times> Path) option"
  it_cur :: nat
  it_is_at_end :: bool

definition iterator_default :: iterator where
  "iterator_default = \<lparr> it_path = None, it_cur = 0, it_is_at_end = False \<rparr>"

definition iterator_at :: "nat \<times> Path \<Rightarrow> nat \<Rightarrow> iterator" where
  "iterator_at path cur = \<lparr> it_path = Some path, it_cur = cur, it_is_at_end = False \<rparr>"

definition iterator_single :: "nat \<times> Path \<Rightarrow> bool \<Rightarrow> iterator" where
  "iterator_single path is_at_end = \<lparr> it_path = Some path, it_cur = 0, it_is_at_end = is_at_end \<rparr>"

definition path_begin :: "nat \<times> Path \<Rightarrow> iterator" where
  "path_begin this =
     (if parts (snd this) \<noteq> [] then iterator_at this 0
      else if native_path (snd this) = [] then iterator_default
      else iterator_single this False)"

definition path_end :: "nat \<times> Path \<Rightarrow> iterator" where
  "path_end this =
     (if parts (snd this) \<noteq> [] then iterator_at this (length (parts (snd this)))
      else if native_path (snd this) = [] then iterator_default
      else iterator_single this True)"

definition iterator_equals :: "iterator \<Rightarrow> iterator \<Rightarrow> bool" where
  "iterator_equals l r =
     (case (it_path l, it_path r) of
        (None, None) \<Rightarrow> True
      | (Some (la, lp), Some (ra, rp)) \<Rightarrow>
          (if la \<noteq> ra then False
           else if parts lp = [] then it_is_at_end l = it_is_at_end r
           else it_cur l = it_cur r)
      | _ \<Rightarrow> False)"

definition iterator_increment :: "iterator \<Rightarrow> iterator result" where
  "iterator_increment it =
     (case it_path it of
        None \<Rightarrow> Abort
      | Some (_, p) \<Rightarrow>
          (if parts p = [] then (if it_is_at_end it then Abort else Ret (it\<lparr> it_is_at_end := True \<rparr>))
           else if it_cur it = length (parts p) then Abort
           else Ret (it\<lparr> it_cur := it_cur it + 1 \<rparr>)))"

definition iterator_decrement :: "iterator \<Rightarrow> iterator result" where
  "iterator_decrement it =
     (case it_path it of
        None \<Rightarrow> Abort
      | Some (_, p) \<Rightarrow>
          (if parts p = [] then (if \<not> it_is_at_end it then Abort else Ret (it\<lparr> it_is_at_end := False \<rparr>))
           else if it_cur it = 0 then Abort
           else Ret (it\<lparr> it_cur := it_cur it - 1 \<rparr>)))"

text \<open>The postfix forms return the old iterator and the updated one.\<close>

definition iterator_post_increment :: "iterator \<Rightarrow> (iterator \<times> iterator) result" where
  "iterator_post_increment it = bind_outcome (iterator_increment it) (\<lambda>it'. Ret (it, it'))"

definition iterator_post_decrement :: "iterator \<Rightarrow> (iterator \<times> iterator) result" where
  "iterator_post_decrement it = bind_outcome (iterator_decrement it) (\<lambda>it'. Ret (it, it'))"

definition iterator_deref :: "iterator \<Rightarrow> Path result" where
  "iterator_deref it =
     (case it_path it of
        None \<Rightarrow> Abort
      | Some (_, p) \<Rightarrow>
          (if parts p = [] then (if it_is_at_end it then Abort else Ret p)
           else if it_cur it = length (parts p) then Abort
           else if it_cur it < length (parts p) then Ret (parts p ! it_cur it)
           else Undefined))"

section \<open>Parsing\<close>

text \<open>The reference for the parser: split the text at every separator and keep the non-empty pieces.\<close>

fun split :: "string \<Rightarrow> string list" where
  "split [] = [[]]"
| "split (c # s) =
     (if c = preferred_separator then [] # split s
      else case split s of [] \<Rightarrow> [[c]] | x # xs \<Rightarrow> (c # x) # xs)"

definition names :: "string \<Rightarrow> string list" where
  "names s = filter (\<lambda>n. n \<noteq> []) (split s)"

definition absolute :: "string \<Rightarrow> bool" where
  "absolute s \<longleftrightarrow> s \<noteq> [] \<and> hd s = preferred_separator"

definition ends_with_separator :: "string \<Rightarrow> bool" where
  "ends_with_separator s \<longleftrightarrow> s \<noteq> [] \<and> last s = preferred_separator"

definition root_names :: "string \<Rightarrow> string list" where
  "root_names s = (if absolute s then [[preferred_separator]] else [])"

definition trail_names :: "string \<Rightarrow> string list" where
  "trail_names s = (if ends_with_separator s then [[]] else [])"

text \<open>The elements a traversal of the path with text \<open>s\<close> meets.\<close>

definition elements_of :: "string \<Rightarrow> string list" where
  "elements_of s =
     (if s = [] then [] else if names s = [] then [s] else root_names s @ names s @ trail_names s)"

definition path :: "string \<Rightarrow> Path" where
  "path s = Path s (if length (elements_of s) = 1 then [] else map (\<lambda>n. Path n []) (elements_of s))"

lemma split_not_Nil [simp]: "split s \<noteq> []"
  by (cases s) (auto split: list.splits)

lemma split_no_separator: "preferred_separator \<notin> set s \<Longrightarrow> split s = [s]"
  by (induction s) auto

lemma split_append: "split (s @ preferred_separator # t) = split s @ split t"
proof (induction s)
  case (Cons c s)
  then show ?case by (cases "split s") auto
qed simp

lemma names_Nil [simp]: "names [] = []"
  by (simp add: names_def)

lemma names_append [simp]: "names (s @ preferred_separator # t) = names s @ names t"
  by (simp add: names_def split_append)

lemma names_Cons [simp]: "names (preferred_separator # t) = names t"
  by (simp add: names_def)

lemma names_no_separator: "preferred_separator \<notin> set s \<Longrightarrow> names s = (if s = [] then [] else [s])"
  by (simp add: names_def split_no_separator)

lemma split_pieces: "x \<in> set (split s) \<Longrightarrow> preferred_separator \<notin> set x"
  by (induction s arbitrary: x) (auto split: if_splits list.splits)

lemma names_are_names: "n \<in> set (names s) \<Longrightarrow> n \<noteq> [] \<and> preferred_separator \<notin> set n"
  by (auto simp: names_def split_pieces)

lemma names_replicate [simp]: "names (replicate n preferred_separator) = []"
  by (induction n) simp_all

lemma names_eq_Nil: "names s = [] \<longleftrightarrow> set s \<subseteq> {preferred_separator}"
proof (induction s)
  case (Cons c s)
  then show ?case by (cases "c = preferred_separator") (auto simp: names_def split: list.splits)
qed simp

lemma split_first:
  "preferred_separator \<in> set s \<Longrightarrow>
   split s = takeWhile (\<lambda>c. c \<noteq> preferred_separator) s # split (drop (Suc (length (takeWhile (\<lambda>c. c \<noteq> preferred_separator) s))) s)"
  by (induction s) auto

lemma names_step:
  assumes "getline s preferred_separator = Some (part, rest)"
  shows "names s = (if part \<noteq> [] then part # names rest else names rest)"
proof (cases "preferred_separator \<in> set s")
  case True
  then show ?thesis using assms split_first[OF True]
    by (auto simp: getline_def Let_def names_def split: if_splits)
next
  case False
  then have t: "takeWhile (\<lambda>c. c \<noteq> preferred_separator) s = s" by (simp only: takeWhile_eq_all_conv) blast
  from assms have "s \<noteq> []" "part = s" "rest = []" by (simp_all add: getline_def Let_def t split: if_splits)
  with False show ?thesis by (simp add: names_no_separator)
qed

lemma AddPathPartToParts_names: "AddPathPartToParts s ps = ps @ map (\<lambda>n. Path n []) (names s)"
proof (induction s ps rule: AddPathPartToParts.induct)
  case (1 s ps)
  show ?case
  proof (cases "getline s preferred_separator")
    case None
    then show ?thesis by (subst AddPathPartToParts.simps) (auto simp: getline_def Let_def split: if_splits)
  next
    case (Some pr)
    then obtain part rest where g: "getline s preferred_separator = Some (part, rest)" by (cases pr) auto
    show ?thesis
      by (subst AddPathPartToParts.simps) (simp add: g 1[OF g refl] names_step[OF g])
  qed
qed

lemma all_separators:
  "s \<noteq> [] \<Longrightarrow> names s = [] \<Longrightarrow> absolute s \<and> ends_with_separator s"
  unfolding names_eq_Nil absolute_def ends_with_separator_def using hd_in_set[of s] last_in_set[of s] by blast

lemma Parse_eq: "Parse s = Ret (parts (path s))"
proof (cases "s = []")
  case True
  then show ?thesis by (simp add: Parse_def path_def elements_of_def)
next
  case False
  have f: "string_front s = Ret (hd s)" "string_back s = Ret (last s)"
    using False by (simp_all add: string_front_def string_back_def split: list.splits)
  let ?base = "map (\<lambda>n. Path n []) (root_names s @ names s)"
  have b: "AddPathPartToParts s (if hd s = preferred_separator then [Path [preferred_separator] []] else []) = ?base"
    using False by (simp add: AddPathPartToParts_names root_names_def absolute_def)
  show ?thesis
  proof (cases "names s = []")
    case True
    with all_separators[OF False True] show ?thesis
      using False b by (simp add: Parse_def f Let_def path_def elements_of_def absolute_def root_names_def)
  next
    case nonempty: False
    then have "length (names s) > 0" by simp
    then show ?thesis
      using False nonempty b
      by (simp add: Parse_def f Let_def path_def elements_of_def trail_names_def ends_with_separator_def
          root_names_def absolute_def)
  qed
qed


lemma make_Path_eq [simp]: "make_Path s f = Ret (path s)"
  by (simp add: make_Path_def Path_of_string_def Parse_eq path_def)

lemma native_path_path [simp]: "native_path (path s) = s"
  by (simp add: path_def)

lemma Native_path [simp]: "Native (path s) = s"
  by (simp add: Native_def)

lemma Path_default_eq: "Path_default = path []"
  by (simp add: Path_default_def path_def elements_of_def)

lemma Path_Empty_path [simp]: "Path_Empty (path s) \<longleftrightarrow> s = []"
  by (simp add: Path_Empty_def)

lemma IsAbsolute_path [simp]: "IsAbsolute (path s) \<longleftrightarrow> absolute s"
  by (cases s) (auto simp: IsAbsolute_def absolute_def)

lemma reparse [simp]: "bind_outcome (Parse s) (\<lambda>ps. Ret (Path s ps)) = Ret (path s)"
  by (simp add: Parse_eq path_def)

text \<open>The class invariant: the parts are those of the text.\<close>

definition wf_path :: "Path \<Rightarrow> bool" where
  "wf_path p \<longleftrightarrow> Parse (native_path p) = Ret (parts p)"

lemma wf_path_iff: "wf_path p \<longleftrightarrow> p = path (native_path p)"
  by (cases p) (auto simp: wf_path_def Parse_eq path_def)

lemma wf_path_path [simp, intro!]: "wf_path (path s)"
  by (simp add: wf_path_iff)

definition elements :: "Path \<Rightarrow> string list" where
  "elements p =
     (if parts p \<noteq> [] then map Native (parts p) else if native_path p = [] then [] else [native_path p])"

section \<open>Decomposition\<close>

lemma find_first_not_of_None: "find_first_not_of s c = None \<longleftrightarrow> set s \<subseteq> {c}"
  by (induction s) auto

lemma find_last_of_None: "find_last_of s c = None \<longleftrightarrow> c \<notin> set s"
  by (induction s) (auto split: option.splits)

lemma find_last_of_Some:
  "find_last_of s c = Some n \<Longrightarrow> n < length s \<and> s = take n s @ c # drop (Suc n) s \<and> c \<notin> set (drop (Suc n) s)"
proof (induction s arbitrary: n)
  case (Cons x s)
  then show ?case
    by (auto split: option.splits if_splits simp: find_last_of_None)
qed simp

lemma find_last_of_append: "c \<notin> set v \<Longrightarrow> find_last_of (u @ c # v) c = Some (length u)"
proof (induction u)
  case Nil
  then show ?case by (simp add: find_last_of_None[THEN iffD2])
qed simp

lemma last_separator_cases:
  obtains "preferred_separator \<notin> set s" | u v where "s = u @ preferred_separator # v" "preferred_separator \<notin> set v"
  using find_last_of_Some[of s preferred_separator] find_last_of_None[of s preferred_separator]
  by (cases "find_last_of s preferred_separator") auto

lemma absolute_append [simp]: "absolute (u @ v) \<longleftrightarrow> (if u = [] then absolute v else absolute u)"
  by (simp add: absolute_def)

lemma absolute_Cons [simp]: "absolute (preferred_separator # v)"
  by (simp add: absolute_def)

lemma absolute_Nil [simp]: "\<not> absolute []"
  by (simp add: absolute_def)

lemma elements_of_single: "length (elements_of s) = 1 \<Longrightarrow> elements_of s = [s]"
proof -
  assume 1: "length (elements_of s) = 1"
  show ?thesis
  proof (cases "names s = []")
    case True
    with 1 show ?thesis by (auto simp: elements_of_def split: if_splits)
  next
    case False
    with 1 have rel: "\<not> absolute s" "\<not> ends_with_separator s" "length (names s) = 1"
      by (auto simp: elements_of_def root_names_def trail_names_def split: if_splits)
    show ?thesis
    proof (cases rule: last_separator_cases[of s])
      case 1
      with rel show ?thesis by (auto simp: names_no_separator elements_of_def root_names_def trail_names_def)
    next
      case (2 u v)
      then have "v \<noteq> []" using rel by (auto simp: ends_with_separator_def)
      with 2 rel have "u \<noteq> []" "names u = []" by (auto simp: names_no_separator)
      with 2 rel all_separators[of u] show ?thesis by simp
    qed
  qed
qed

lemma elements_path: "elements (path s) = elements_of s"
  using elements_of_single[of s]
  by (auto simp: elements_def path_def Native_def comp_def elements_of_def)


definition strip_separators :: "string \<Rightarrow> string" where
  "strip_separators u = rev (dropWhile (\<lambda>c. c = preferred_separator) (rev u))"

lemma strip_snoc [simp]:
  "strip_separators (u @ [c]) = (if c = preferred_separator then strip_separators u else u @ [c])"
  "strip_separators [] = []"
  by (simp_all add: strip_separators_def)

lemma skip_separators_eq:
  "skip_separators (u @ w) (length u) =
     (if names u = [] then Undefined else Ret (length (strip_separators u)))"
proof (induction u arbitrary: w rule: rev_induct)
  case (snoc c u)
  from snoc[of "c # w"] show ?case
    by (auto simp: nth_append names_eq_Nil split: if_splits)
qed simp

lemma take_strip: "take (length (strip_separators u)) (u @ w) = strip_separators u"
  by (induction u arbitrary: w rule: rev_induct) auto

lemma names_snoc_separator [simp]: "names (u @ [preferred_separator]) = names u"
  using names_append[of u "[]"] by simp

lemma names_strip [simp]: "names (strip_separators u) = names u"
  by (induction u rule: rev_induct) auto

lemma ends_with_separator_snoc [simp]:
  "ends_with_separator (u @ [c]) \<longleftrightarrow> c = preferred_separator" "\<not> ends_with_separator []"
  by (simp_all add: ends_with_separator_def)

lemma ends_with_separator_strip [simp]: "\<not> ends_with_separator (strip_separators u)"
  by (induction u rule: rev_induct) auto

lemma absolute_strip: "names u \<noteq> [] \<Longrightarrow> absolute (strip_separators u) \<longleftrightarrow> absolute u"
proof (induction u rule: rev_induct)
  case (snoc c u)
  then show ?case using strip_snoc(1)[of "[]" c] by (cases "u = []") auto
qed simp

text \<open>The texts on which \<open>ParentPath\<close> reads outside of the string: two or more separators and then a name.\<close>

definition parent_unsafe :: "string \<Rightarrow> bool" where
  "parent_unsafe s \<longleftrightarrow>
     (let v = dropWhile (\<lambda>c. c = preferred_separator) s
      in v \<noteq> [] \<and> preferred_separator \<notin> set v \<and> length v + 2 \<le> length s)"

lemma ParentPath_last:
  assumes "s = u @ preferred_separator # v" "preferred_separator \<notin> set v" "names s \<noteq> []"
  shows "ParentPath (path s) =
    (if u = [] then Ret (path [preferred_separator])
     else if names u = [] then Undefined else Ret (path (strip_separators u)))"
proof -
  have "find_first_not_of s preferred_separator \<noteq> None" using assms(3) by (simp add: find_first_not_of_None names_eq_Nil)
  moreover have "find_last_of s preferred_separator = Some (length u)" using assms by (simp add: find_last_of_append)
  moreover have "s \<noteq> []" using assms(1) by simp
  moreover have "skip_separators s (length u) = (if names u = [] then Undefined else Ret (length (strip_separators u)))"
    "take (length (strip_separators u)) s = strip_separators u"
    by (simp_all only: assms(1) skip_separators_eq take_strip)
  ultimately show ?thesis by (auto simp: ParentPath_def Let_def split: nat.splits)
qed

lemma elements_of_last:
  assumes "s = u @ preferred_separator # v" "preferred_separator \<notin> set v" "names s \<noteq> []"
  shows "elements_of s = (if absolute s then [[preferred_separator]] else []) @ names u @ [v]"
proof -
  have "ends_with_separator s \<longleftrightarrow> v = []" using assms(1,2) by (auto simp: ends_with_separator_def dest: last_in_set)
  then show ?thesis using assms by (auto simp: elements_of_def root_names_def trail_names_def names_no_separator)
qed

lemma parent_unsafe_last:
  assumes "s = u @ preferred_separator # v" "preferred_separator \<notin> set v"
  shows "parent_unsafe s \<longleftrightarrow> u \<noteq> [] \<and> names u = [] \<and> v \<noteq> []"
proof (cases "names u = []")
  case True
  then have "dropWhile (\<lambda>c. c = preferred_separator) s = dropWhile (\<lambda>c. c = preferred_separator) v"
    unfolding assms(1) names_eq_Nil by (subst dropWhile_append2) auto
  moreover have "dropWhile (\<lambda>c. c = preferred_separator) v = v"
    using assms(2) by (cases v) auto
  ultimately show ?thesis using True assms by (cases u) (simp_all add: parent_unsafe_def Let_def)
next
  case False
  then obtain c where c: "c \<in> set u" "c \<noteq> preferred_separator" by (auto simp: names_eq_Nil)
  then have "dropWhile (\<lambda>c. c = preferred_separator) s = dropWhile (\<lambda>c. c = preferred_separator) u @ preferred_separator # v"
    unfolding assms(1) by (intro dropWhile_append1)
  with False show ?thesis by (simp add: parent_unsafe_def Let_def)
qed

lemma parent_unsafe_no_separator: "preferred_separator \<notin> set s \<Longrightarrow> \<not> parent_unsafe s"
  by (cases s) (auto simp: parent_unsafe_def Let_def)

lemma no_separator: "preferred_separator \<notin> set s \<Longrightarrow> \<not> absolute s \<and> \<not> ends_with_separator s"
  using hd_in_set[of s] last_in_set[of s] unfolding absolute_def ends_with_separator_def by metis

lemma elements_of_no_separator: "preferred_separator \<notin> set s \<Longrightarrow> elements_of s = (if s = [] then [] else [s])"
  using no_separator[of s] by (simp add: elements_of_def names_no_separator root_names_def trail_names_def)

lemma ParentPath_no_separator:
  assumes "preferred_separator \<notin> set s" shows "ParentPath (path s) = Ret (path [])"
proof -
  have "find_first_not_of s preferred_separator \<noteq> None" if "s \<noteq> []"
    using that assms by (cases s) (auto simp: find_first_not_of_None)
  then show ?thesis
    using assms by (auto simp: ParentPath_def Let_def Path_default_eq find_last_of_None[THEN iffD2])
qed

lemma elements_of_strip:
  "names u \<noteq> [] \<Longrightarrow> elements_of (strip_separators u) = (if absolute u then [[preferred_separator]] else []) @ names u"
  using absolute_strip[of u] names_strip[of u]
  by (auto simp: elements_of_def root_names_def trail_names_def simp del: names_strip)

lemma ParentPath_elements:
  assumes "names s \<noteq> []" "\<not> parent_unsafe s"
  shows "\<exists>t. ParentPath (path s) = Ret (path t) \<and> elements_of t = butlast (elements_of s)"
proof (cases rule: last_separator_cases[of s])
  case 1
  then show ?thesis by (auto simp: ParentPath_no_separator elements_of_no_separator intro!: exI[of _ "[]"])
next
  case (2 u v)
  note e = elements_of_last[OF 2 assms(1)] and P = ParentPath_last[OF 2 assms(1)]
  show ?thesis
  proof (cases "names u = []")
    case True
    with assms 2 have "v \<noteq> []" by (auto simp: names_no_separator)
    with assms(2) True have u: "u = []" using parent_unsafe_last[OF 2] by blast
    then have "elements_of s = [[preferred_separator], v]" using e by (simp add: 2(1))
    then show ?thesis using P u by (auto simp: elements_of_def intro!: exI[of _ "[preferred_separator]"])
  next
    case False
    then have "elements_of (strip_separators u) = butlast (elements_of s)"
      by (subst e) (auto simp: elements_of_strip 2(1) butlast_append)
    then show ?thesis using P False by auto
  qed
qed

lemma elements_of_Filename:
  assumes "names s \<noteq> []"
  shows "Filename (path s) = Ret (path (last (elements_of s)))"
proof (cases rule: last_separator_cases[of s])
  case 1
  then show ?thesis using assms
    by (auto simp: Filename_def FilenamePosition_def Let_def find_last_of_None[THEN iffD2] elements_of_no_separator)
next
  case (2 u v)
  then have "find_last_of s preferred_separator = Some (length u)" by (simp add: find_last_of_append)
  moreover have "length s = Suc (length u + length v)" "drop (Suc (length u)) s = v" "s \<noteq> []" by (simp_all add: 2(1))
  moreover have "last (elements_of s) = v" by (simp add: elements_of_last[OF 2 assms])
  ultimately show ?thesis by (auto simp: Filename_def FilenamePosition_def Let_def Path_default_eq)
qed


definition filename_start :: "string \<Rightarrow> nat" where
  "filename_start s = (case find_last_of s preferred_separator of None \<Rightarrow> 0 | Some n \<Rightarrow> n + 1)"

lemma filename_start_le: "filename_start s \<le> length s"
  using find_last_of_Some[of s preferred_separator] by (auto simp: filename_start_def Suc_le_eq split: option.splits)

lemma FilenamePosition_path:
  "FilenamePosition (path s) = (if filename_start s = length s then None else Some (filename_start s))"
  by (auto simp: FilenamePosition_def filename_start_def Let_def split: option.splits)

lemma Filename_path: "Filename (path s) = Ret (path (drop (filename_start s) s))"
  by (simp add: Filename_def FilenamePosition_path Path_default_eq)

lemma RemoveFilename_path: "RemoveFilename (path s) = Ret (path (take (filename_start s) s))"
  by (simp add: RemoveFilename_def FilenamePosition_path Let_def)

lemma filename_no_separator: "preferred_separator \<notin> set (drop (filename_start s) s)"
  using find_last_of_Some[of s preferred_separator] find_last_of_None[of s preferred_separator]
  by (auto simp: filename_start_def split: option.splits)

text \<open>
  The extension of a file name: from its last period on, unless that period is the first character
  or the name is dot or dot-dot.
\<close>

definition extension_of :: "string \<Rightarrow> string" where
  "extension_of f =
     (if f = ''.'' \<or> f = ''..'' \<or> CHR ''.'' \<notin> set (tl f) then []
      else CHR ''.'' # rev (takeWhile (\<lambda>c. c \<noteq> CHR ''.'') (rev f)))"

lemma takeWhile_rev_last: "c \<notin> set v \<Longrightarrow> rev (takeWhile (\<lambda>x. x \<noteq> c) (rev (u @ c # v))) = v"
proof -
  assume "c \<notin> set v"
  then have "takeWhile (\<lambda>x. x \<noteq> c) (rev v @ c # rev u) = rev v" by (subst takeWhile_append2) auto
  then show ?thesis by simp
qed

lemma extension_of_at:
  assumes "find_last_of (tl f) CHR ''.'' = Some n" "f \<noteq> ''..''"
  shows "extension_of f = drop (Suc n) f" "Suc n \<le> length f" "f \<noteq> ''.''"
proof -
  from assms(1) obtain x where f: "f = x # tl f" by (cases f) auto
  from find_last_of_Some[OF assms(1)]
  have n: "n < length (tl f)" "tl f = take n (tl f) @ CHR ''.'' # drop (Suc n) (tl f)" "CHR ''.'' \<notin> set (drop (Suc n) (tl f))"
    by auto
  then have "f = (x # take n (tl f)) @ CHR ''.'' # drop (Suc n) (tl f)" using f by simp
  then have t: "rev (takeWhile (\<lambda>c. c \<noteq> CHR ''.'') (rev f)) = drop (Suc n) (tl f)"
    using takeWhile_rev_last[OF n(3)] by metis
  have "CHR ''.'' \<in> set (tl f)" using n(2) by (metis in_set_conv_decomp)
  then show "f \<noteq> ''.''" by auto
  with \<open>CHR ''.'' \<in> set (tl f)\<close> assms(2) have "extension_of f = CHR ''.'' # drop (Suc n) (tl f)"
    by (simp add: extension_of_def t)
  also have "\<dots> = drop n (tl f)" using n(1,2) by (metis Cons_nth_drop_Suc nth_append_length length_take min.absorb4)
  finally show "extension_of f = drop (Suc n) f" by (simp add: drop_Suc)
  show "Suc n \<le> length f" using n(1) by simp
qed

lemma extension_of_none:
  "find_last_of (tl f) CHR ''.'' = None \<or> f = ''.'' \<or> f = ''..'' \<Longrightarrow> extension_of f = []"
  by (auto simp: extension_of_def find_last_of_None)

lemma ExtensionPosition_path:
  assumes f: "f = drop (filename_start s) s" and e: "e = extension_of f"
  shows "ExtensionPosition (path s) = (if e = [] then None else Some (length s - length e))"
proof (cases "f = ''.'' \<or> f = ''..'' \<or> find_last_of (tl f) CHR ''.'' = None")
  case True
  then have "e = []" using e extension_of_none by blast
  with True f show ?thesis
    by (auto simp: ExtensionPosition_def ExtensionPosition_at_def FilenamePosition_path Let_def drop_Suc tl_drop)
next
  case False
  then obtain n where n: "find_last_of (tl f) CHR ''.'' = Some n" by auto
  from extension_of_at[OF n] False have e': "e = drop (Suc n) f" "Suc n \<le> length f" by (auto simp: e)
  have "n < length (tl f)" using find_last_of_Some[OF n] by simp
  then have l: "length e = length f - Suc n" "e \<noteq> []" using e' by auto
  have "f \<noteq> []" using n by auto
  then have "filename_start s < length s" using f by simp
  moreover have "length s - length e = n + (filename_start s + 1)" using l e'(2) \<open>filename_start s < length s\<close> by (simp add: f)
  ultimately show ?thesis using n False l f
    by (auto simp: ExtensionPosition_def ExtensionPosition_at_def FilenamePosition_path Let_def drop_Suc tl_drop)
qed

lemma extension_of_suffix: "f = take (length f - length (extension_of f)) f @ extension_of f"
proof (cases "f = ''.'' \<or> f = ''..'' \<or> find_last_of (tl f) CHR ''.'' = None")
  case True
  then have "extension_of f = []" using extension_of_none by blast
  then show ?thesis by simp
next
  case False
  then obtain n where n: "find_last_of (tl f) CHR ''.'' = Some n" by auto
  from extension_of_at[OF n] False show ?thesis by simp
qed

lemma extension_length: "length (extension_of f) \<le> length f"
  using arg_cong[OF extension_of_suffix[of f], of length] by simp

definition stem_of :: "string \<Rightarrow> string" where
  "stem_of f = take (length f - length (extension_of f)) f"

lemma Extension_path: "Extension (path s) = Ret (path (extension_of (drop (filename_start s) s)))"
proof -
  define f where f: "f = drop (filename_start s) s"
  have "drop (length s - length (extension_of f)) s = drop (length f - length (extension_of f)) f"
    using extension_length[of f] filename_start_le[of s] by (simp add: f add.commute)
  also have "\<dots> = extension_of f" using extension_of_suffix[of f] by (metis append_eq_conv_conj length_take min.cobounded2 diff_le_self min_absorb2 min.commute)
  finally show ?thesis
    using ExtensionPosition_path[OF f refl] by (simp add: Extension_def Path_default_eq f)
qed

lemma Stem_path: "Stem (path s) = Ret (path (stem_of (drop (filename_start s) s)))"
proof -
  define f where f: "f = drop (filename_start s) s"
  have "filename_start s \<noteq> length s \<Longrightarrow> ExtensionPosition_at (path s) (Some (filename_start s)) = ExtensionPosition (path s)"
    by (simp add: ExtensionPosition_def FilenamePosition_path)
  moreover have "length s - length (extension_of f) - filename_start s = length f - length (extension_of f)"
    by (simp add: f)
  ultimately show ?thesis
    using ExtensionPosition_path[OF f refl]
    by (auto simp: Stem_def FilenamePosition_path Path_default_eq stem_of_def f)
qed

definition dotted :: "string \<Rightarrow> string" where
  "dotted e = (if e = [] \<or> hd e = CHR ''.'' then e else CHR ''.'' # e)"

lemma ReplaceExtension_path:
  "ReplaceExtension (path s) (path r) =
     Ret (path (take (filename_start s) s @ stem_of (drop (filename_start s) s) @ dotted r))"
proof -
  define f where f: "f = drop (filename_start s) s"
  have "take (length s - length (extension_of f)) s = take (filename_start s) s @ stem_of f"
    using extension_length[of f] filename_start_le[of s] unfolding stem_of_def f
    by (metis (no_types, lifting) Nat.add_diff_assoc append_take_drop_id le_add_diff_inverse length_drop take_add)
  then have "(case ExtensionPosition (path s) of None \<Rightarrow> s | Some pos \<Rightarrow> take pos s) = take (filename_start s) s @ stem_of f"
    using ExtensionPosition_path[OF f refl] by (auto split: if_splits)
  note n = this[unfolded f]
  show ?thesis
    unfolding ReplaceExtension_def native_path_path Native_path n Let_def by (auto simp: dotted_def hd_conv_nth)
qed


section \<open>Normalisation\<close>

text \<open>
  The reference for \<open>LexicallyNormal\<close>: the names are pushed on a stack one after the other, dot is
  skipped, dot-dot takes the name on t away; at the bottom a dot-dot is dropped under a root
  and kept in a relative path.
\<close>

fun push_name :: "bool \<Rightarrow> string list \<Rightarrow> string \<Rightarrow> string list" where
  "push_name rooted stack n =
     (if n = dot then stack
      else if n = dotdot
      then (case stack of
              [] \<Rightarrow> (if rooted then [] else [dotdot])
            | t # rest \<Rightarrow> (if t = dotdot then dotdot # stack else rest))
      else n # stack)"

definition normal_names :: "string \<Rightarrow> string list" where
  "normal_names s = rev (foldl (push_name (absolute s)) [] (names s))"

definition join :: "string list \<Rightarrow> string" where
  "join ns = (case ns of [] \<Rightarrow> [] | n # rest \<Rightarrow> n @ concat (map (\<lambda>m. preferred_separator # m) rest))"

definition names_directory :: "string \<Rightarrow> bool" where
  "names_directory s \<longleftrightarrow> ends_with_separator s \<or> last (names s) = dot \<or> last (names s) = dotdot"

definition normal_text :: "string \<Rightarrow> string" where
  "normal_text s =
     (let ns = normal_names s
      in if ns = [] then (if absolute s then [preferred_separator] else dot)
         else (if absolute s then [preferred_separator] else []) @ join ns
              @ (if names_directory s \<and> last ns \<noteq> dotdot then [preferred_separator] else []))"

subsection \<open>The erasing loop computes the stack\<close>

fun push_part :: "string list \<Rightarrow> string \<Rightarrow> string list" where
  "push_part stack cur =
     (case stack of
        [] \<Rightarrow> [cur]
      | t # rest \<Rightarrow> (if cur = dotdot \<and> t \<noteq> dotdot \<and> hd t \<noteq> preferred_separator then rest else cur # stack))"

declare push_part.simps [simp del]

lemma erase_first_pair_Cons:
  assumes "q \<noteq> []"
  shows "erase_first_pair q (c # rest) =
    (if c = dotdot \<and> q \<noteq> dotdot \<and> hd q \<noteq> preferred_separator then Ret (Some rest)
     else bind_outcome (erase_first_pair c rest) (\<lambda>r. Ret (map_option ((#) q) r)))"
  using assms by (cases q) (auto simp: string_front_def Let_def)

lemma push_part_Cons:
  "push_part (q # st) c =
     (if c = dotdot \<and> q \<noteq> dotdot \<and> hd q \<noteq> preferred_separator then st else c # q # st)"
  by (simp add: push_part.simps)

lemma erase_first_pair_Some:
  assumes "erase_first_pair q ps = Ret (Some ps')" "push_part st q = q # st" "\<forall>x \<in> set (butlast (q # ps)). x \<noteq> []"
  shows "foldl push_part (q # st) ps = foldl push_part st ps' \<and> (\<forall>x \<in> set (butlast ps'). x \<noteq> [])"
  using assms
proof (induction ps arbitrary: q ps' st)
  case (Cons c rest)
  have q: "q \<noteq> []" and ne: "\<forall>x \<in> set (butlast (c # rest)). x \<noteq> []" using Cons.prems(3) by auto
  show ?case
  proof (cases "c = dotdot \<and> q \<noteq> dotdot \<and> hd q \<noteq> preferred_separator")
    case True
    then have "ps' = rest" using Cons.prems(1) by (simp only: erase_first_pair_Cons[OF q]) simp
    then show ?thesis using True ne by (auto simp: push_part_Cons split: if_splits)
  next
    case False
    then obtain r where r: "erase_first_pair c rest = Ret (Some r)" "ps' = q # r"
      using Cons.prems(1) by (simp only: erase_first_pair_Cons[OF q]) auto
    have p: "push_part (q # st) c = c # q # st" using False by (auto simp: push_part_Cons)
    from Cons.IH[OF r(1) p ne] show ?thesis using p r Cons.prems(2) q by auto
  qed
qed simp

lemma erase_first_pair_None:
  assumes "erase_first_pair q ps = Ret None" "push_part st q = q # st" "\<forall>x \<in> set (butlast (q # ps)). x \<noteq> []"
  shows "foldl push_part st (q # ps) = rev ps @ q # st"
  using assms
proof (induction ps arbitrary: q st)
  case (Cons c rest)
  have q: "q \<noteq> []" and ne: "\<forall>x \<in> set (butlast (c # rest)). x \<noteq> []" using Cons.prems(3) by auto
  have n: "\<not> (c = dotdot \<and> q \<noteq> dotdot \<and> hd q \<noteq> preferred_separator)" and r: "erase_first_pair c rest = Ret None"
    using Cons.prems(1) by (simp_all only: erase_first_pair_Cons[OF q]) (auto split: if_splits)
  have p: "push_part (q # st) c = c # q # st" using n by (auto simp: push_part_Cons)
  from Cons.IH[OF r p ne] show ?case using p Cons.prems(2) by simp
qed simp

lemma erase_first_pair_returns:
  "\<forall>x \<in> set (butlast (q # ps)). x \<noteq> [] \<Longrightarrow> \<exists>r. erase_first_pair q ps = Ret r"
proof (induction ps arbitrary: q)
  case (Cons c rest)
  then have q: "q \<noteq> []" and ne: "\<forall>x \<in> set (butlast (c # rest)). x \<noteq> []" by auto
  from Cons.IH[OF ne] show ?case by (simp only: erase_first_pair_Cons[OF q]) auto
qed simp

lemma Remove_pairs_eq:
  "\<forall>x \<in> set (butlast ps). x \<noteq> [] \<Longrightarrow>
   RemovePotentialFileNamesFollowedByMoveUpsAndSeparator ps = Ret (rev (foldl push_part [] ps))"
proof (induction ps rule: RemovePotentialFileNamesFollowedByMoveUpsAndSeparator.induct)
  case (1 ps)
  show ?case
  proof (cases ps)
    case (Cons q rest)
    have q: "push_part [] q = [q]" by (simp add: push_part.simps)
    obtain r where r: "erase_first_pair q rest = Ret r" using erase_first_pair_returns "1.prems" Cons by blast
    show ?thesis
    proof (cases r)
      case None
      then show ?thesis using erase_first_pair_None[of q rest "[]"] r q "1.prems" Cons
        by (subst RemovePotentialFileNamesFollowedByMoveUpsAndSeparator.simps) simp
    next
      case (Some ps')
      have e: "foldl push_part [q] rest = foldl push_part [] ps' \<and> (\<forall>x \<in> set (butlast ps'). x \<noteq> [])"
        using erase_first_pair_Some[of q rest ps' "[]"] r Some q "1.prems" Cons by simp
      from "1.IH"[OF Cons r Some] e
      have "RemovePotentialFileNamesFollowedByMoveUpsAndSeparator ps' = Ret (rev (foldl push_part [] ps'))" by simp
      with e show ?thesis using r Some Cons q
        by (subst RemovePotentialFileNamesFollowedByMoveUpsAndSeparator.simps) simp
    qed
  qed (simp add: RemovePotentialFileNamesFollowedByMoveUpsAndSeparator.simps)
qed

definition is_name :: "string \<Rightarrow> bool" where
  "is_name n \<longleftrightarrow> n \<noteq> [] \<and> preferred_separator \<notin> set n"

lemma is_name_hd: "is_name n \<Longrightarrow> n \<noteq> [] \<and> hd n \<noteq> preferred_separator"
  by (cases n) (auto simp: is_name_def)

lemma names_is_name: "list_all is_name (names s)"
  using names_are_names by (auto simp: is_name_def list_all_iff)

lemma dots [simp]: "is_name dot" "is_name dotdot" "dot \<noteq> dotdot" "dotdot \<noteq> dot" "dot \<noteq> []" "dotdot \<noteq> []"
  "[] \<noteq> dot" "[] \<noteq> dotdot"
  by (auto simp: is_name_def dot_def dotdot_def preferred_separator_def)

lemma push_name_pop:
  "t \<noteq> dotdot \<Longrightarrow> push_name b (t # st) dotdot = st"
  "push_name b (dotdot # st) dotdot = dotdot # dotdot # st"
  "push_name b [] dotdot = (if b then [] else [dotdot])"
  "push_name b st dot = st"
  "n \<noteq> dot \<Longrightarrow> n \<noteq> dotdot \<Longrightarrow> push_name b st n = n # st"
  by simp_all

lemma push_part_push:
  "n \<noteq> dotdot \<Longrightarrow> push_part st n = n # st"
  "push_part [] n = [n]"
  "push_part (dotdot # st) n = n # dotdot # st"
  by (auto simp: push_part.simps split: list.splits)

lemma stacks_agree:
  assumes "list_all is_name xs" "list_all is_name ys" "dotdot \<notin> set ys \<and> dot \<notin> set ys"
  obtains ys' k' where "foldl push_part (ys @ replicate k dotdot) (filter (\<lambda>n. n \<noteq> dot) xs) = ys' @ replicate k' dotdot"
    "foldl (push_name True) ys xs = ys'" "foldl (push_name False) (ys @ replicate k dotdot) xs = ys' @ replicate k' dotdot"
    "list_all is_name ys'" "dotdot \<notin> set ys' \<and> dot \<notin> set ys'"
  using assms
proof (induction xs arbitrary: ys k thesis)
  case (Cons n xs)
  have xs: "list_all is_name xs" using Cons.prems(2) by simp
  consider "n = dot" | "n = dotdot" "ys = []" | t r where "n = dotdot" "ys = t # r" | "n \<noteq> dot" "n \<noteq> dotdot"
    by (cases ys) blast+
  then show ?case
  proof cases
    case 1
    show ?thesis
      by (rule Cons.IH[OF _ xs Cons.prems(3,4), of k], rule Cons.prems(1)) (simp_all add: 1 push_name_pop del: push_name.simps)
  next
    case 2
    have s: "push_part (replicate k dotdot) dotdot = replicate (Suc k) dotdot"
      "push_name False (replicate k dotdot) dotdot = replicate (Suc k) dotdot"
      by (cases k; simp add: push_part_push push_name_pop del: push_name.simps)+
    show ?thesis
      by (rule Cons.IH[OF _ xs, of "[]" "Suc k"], rule Cons.prems(1)) (simp_all add: 2 s push_name_pop del: push_name.simps replicate.simps)
  next
    case 3
    with Cons.prems have t: "t \<noteq> dotdot" "hd t \<noteq> preferred_separator" "list_all is_name r" "dotdot \<notin> set r \<and> dot \<notin> set r"
      using is_name_hd by auto
    show ?thesis
      by (rule Cons.IH[OF _ xs t(3,4), of k], rule Cons.prems(1)) (simp_all add: 3 t push_part_Cons push_name_pop del: push_name.simps)
  next
    case 4
    with Cons.prems have t: "list_all is_name (n # ys)" "dotdot \<notin> set (n # ys) \<and> dot \<notin> set (n # ys)" by auto
    show ?thesis
      by (rule Cons.IH[OF _ xs t, of k], rule Cons.prems(1)) (simp_all add: 4 push_part_push push_name_pop del: push_name.simps)
  qed
qed simp

lemma push_part_root:
  "list_all is_name xs \<Longrightarrow> foldl push_part (st @ [[preferred_separator]]) xs = foldl push_part st xs @ [[preferred_separator]]"
proof (induction xs arbitrary: st)
  case (Cons n xs)
  have "push_part (st @ [[preferred_separator]]) n = push_part st n @ [[preferred_separator]]"
    by (cases st) (auto simp: push_part.simps)
  with Cons show ?case by simp
qed simp

lemma normal_names_cases:
  obtains ys k where "rev (foldl push_part [] (filter (\<lambda>n. n \<noteq> dot) (names s))) = replicate k dotdot @ ys"
    "normal_names s = (if absolute s then ys else replicate k dotdot @ ys)"
    "list_all is_name ys" "dotdot \<notin> set ys" "dot \<notin> set ys"
proof -
  obtain ys k where y: "foldl push_part ([] @ replicate 0 dotdot) (filter (\<lambda>n. n \<noteq> dot) (names s)) = ys @ replicate k dotdot"
    "foldl (push_name True) [] (names s) = ys" "foldl (push_name False) ([] @ replicate 0 dotdot) (names s) = ys @ replicate k dotdot"
    "list_all is_name ys" "dotdot \<notin> set ys \<and> dot \<notin> set ys"
    by (rule stacks_agree[OF names_is_name, of "[]" 0 s]) simp_all
  show thesis
    by (rule that[of k "rev ys"]) (use y in \<open>auto simp: normal_names_def rev_map[symmetric]\<close>)
qed

lemma normal_names_names:
  "list_all is_name (normal_names s) \<and> dot \<notin> set (normal_names s) \<and> (absolute s \<longrightarrow> dotdot \<notin> set (normal_names s))"
  by (rule normal_names_cases[of s]) (auto simp: list_all_iff)

lemma create_path_string_True:
  "create_path_string xs True acc = acc @ concat (map (\<lambda>m. preferred_separator # m) xs)"
  by (induction xs arbitrary: acc) simp_all

lemma create_path_string_acc: "create_path_string xs b acc = acc @ create_path_string xs b []"
proof (induction xs arbitrary: b acc)
  case (Cons x xs)
  show ?case
    unfolding create_path_string.simps by (subst (1) Cons, subst (2) Cons) simp
qed simp

lemma CreatePathString_names:
  assumes "list_all is_name ns"
  shows "CreatePathStringFromParts (ns @ t) = join ns @ (if ns = [] then CreatePathStringFromParts t else concat (map (\<lambda>m. preferred_separator # m) t))"
  using assms is_name_hd
  by (cases ns) (auto simp: CreatePathStringFromParts_def join_def create_path_string_True)

lemma CreatePathString_root:
  "CreatePathStringFromParts ([preferred_separator] # ns) = preferred_separator # CreatePathStringFromParts ns"
  by (simp add: CreatePathStringFromParts_def create_path_string_acc[of ns False "[preferred_separator]"])

lemma erase_leading_dotdots_eq:
  "dotdot \<notin> set ys \<Longrightarrow> erase_leading_dotdots (replicate k dotdot @ ys) = ys"
proof (induction k)
  case 0
  then show ?case by (cases ys) auto
qed simp

lemma root_cases: "root_names s = [] \<and> \<not> absolute s \<or> root_names s = [[preferred_separator]] \<and> absolute s"
  by (simp add: root_names_def)

lemma trail_cases: "trail_names s = [] \<and> \<not> ends_with_separator s \<or> trail_names s = [[]] \<and> ends_with_separator s"
  by (simp add: trail_names_def)

lemma root_filter: "filter (\<lambda>n. n \<noteq> dot) (root_names s @ names s @ trail_names s) =
    root_names s @ filter (\<lambda>n. n \<noteq> dot) (names s) @ trail_names s"
  using root_cases[of s] trail_cases[of s] by (auto simp: dot_def preferred_separator_def)

lemma remove_pairs_names:
  assumes "rev (foldl push_part [] (filter (\<lambda>n. n \<noteq> dot) (names s))) = P"
  shows "RemovePotentialFileNamesFollowedByMoveUpsAndSeparator
      (root_names s @ filter (\<lambda>n. n \<noteq> dot) (names s) @ trail_names s) = Ret (root_names s @ P @ trail_names s)"
proof -
  let ?ms = "filter (\<lambda>n. n \<noteq> dot) (names s)"
  have ms: "list_all is_name ?ms" using names_is_name[of s] by (auto simp: list_all_iff)
  then have ne: "\<forall>x \<in> set ?ms. x \<noteq> []" by (auto simp: list_all_iff is_name_def)
  have "foldl push_part [] (root_names s @ ?ms) = foldl push_part [] ?ms @ root_names s"
    using root_cases[of s] push_part_root[OF ms, of "[]"] by (auto simp: push_part_push)
  then have "foldl push_part [] (root_names s @ ?ms @ trail_names s) = trail_names s @ foldl push_part [] ?ms @ root_names s"
    using trail_cases[of s] by (auto simp: push_part_push dotdot_def)
  moreover have "[] \<notin> set (butlast ?ms)" using ne in_set_butlastD[of "[]" ?ms] by blast
  then have "\<forall>x \<in> set (butlast (root_names s @ ?ms @ trail_names s)). x \<noteq> []"
    using ne trail_cases[of s] root_cases[of s]
    by (elim disjE conjE) (auto simp: butlast_append)
  ultimately show ?thesis using assms trail_cases[of s] root_cases[of s] by (auto simp: Remove_pairs_eq)
qed


lemma after_root_relative:
  "\<forall>x \<in> set xs. x = [] \<or> hd x \<noteq> preferred_separator \<Longrightarrow> RemovePotentialMoveUpsAndSeparatorsAfterRoot xs = xs"
  by (cases xs rule: list.exhaust; cases "hd xs") (auto simp: RemovePotentialMoveUpsAndSeparatorsAfterRoot_def)

lemma after_root_names:
  assumes "list_all is_name ys" "dotdot \<notin> set ys"
  shows "RemovePotentialMoveUpsAndSeparatorsAfterRoot (root_names s @ (replicate k dotdot @ ys) @ trail_names s) =
    root_names s @ (if absolute s then ys else replicate k dotdot @ ys) @ trail_names s"
proof (cases "absolute s")
  case True
  have "dotdot \<notin> set (ys @ trail_names s)" using assms trail_cases[of s] by auto
  from erase_leading_dotdots_eq[OF this, of k] show ?thesis
    using True by (simp add: root_names_def RemovePotentialMoveUpsAndSeparatorsAfterRoot_def)
next
  case False
  have "x = [] \<or> hd x \<noteq> preferred_separator" if "x \<in> set (replicate k dotdot @ ys @ trail_names s)" for x
    using that assms trail_cases[of s] is_name_hd dots(2) by (auto simp: list_all_iff)
  then have "RemovePotentialMoveUpsAndSeparatorsAfterRoot (replicate k dotdot @ ys @ trail_names s) =
      replicate k dotdot @ ys @ trail_names s"
    by (intro after_root_relative) blast
  then show ?thesis using False by (simp add: root_names_def)
qed

lemma trailing_names:
  assumes "list_all is_name ns" "dot \<notin> set ns"
  shows "RemovePotentialTrailingDirectorySeparator (root_names s @ ns @ trail_names s) =
    root_names s @ ns @ (if ns \<noteq> [] \<and> last ns = dotdot then [] else trail_names s)"
proof (cases "trail_names s = []")
  case True
  have "last (root_names s @ ns) \<noteq> []" if "root_names s @ ns \<noteq> []"
    using assms that root_cases[of s] by (auto simp: list_all_iff is_name_def last_append)
  then show ?thesis using True by (cases "root_names s @ ns = []") (auto simp: RemovePotentialTrailingDirectorySeparator_def)
next
  case False
  then have "trail_names s = [[]]" using trail_cases[of s] by blast
  moreover have "[preferred_separator] \<noteq> dotdot" "[preferred_separator] \<noteq> dot" by (simp_all add: dotdot_def dot_def preferred_separator_def)
  moreover have "last ns \<noteq> dot" if "ns \<noteq> []" using assms(2) that last_in_set by metis
  ultimately show ?thesis using root_cases[of s]
    by (cases ns) (auto simp: RemovePotentialTrailingDirectorySeparator_def butlast_append)
qed


lemma join_names: "list_all is_name ns \<Longrightarrow> join ns = [] \<longleftrightarrow> ns = []"
  by (cases ns) (auto simp: join_def is_name_def)

lemma create_names:
  assumes "list_all is_name ns" "t = [] \<or> t = [[]]"
  shows "CreatePathStringFromParts (root_names s @ ns @ t) =
    (if absolute s then [preferred_separator] else []) @ join ns @ (if ns \<noteq> [] \<and> t \<noteq> [] then [preferred_separator] else [])"
proof -
  have "CreatePathStringFromParts t = []" using assms(2) by (auto simp: CreatePathStringFromParts_def)
  then have "CreatePathStringFromParts (ns @ t) = join ns @ (if ns \<noteq> [] \<and> t \<noteq> [] then [preferred_separator] else [])"
    using assms by (auto simp: CreatePathString_names join_def)
  then show ?thesis by (simp add: root_names_def CreatePathString_root)
qed

lemma normal_text_single: "length (elements_of s) = 1 \<Longrightarrow> names s \<noteq> [] \<Longrightarrow> normal_text s = s"
proof -
  assume a: "length (elements_of s) = 1" "names s \<noteq> []"
  then have e: "elements_of s = [s]" and "s \<noteq> []" by (auto simp: elements_of_single)
  with a have n: "names s = [s]" "\<not> absolute s" "\<not> ends_with_separator s"
    using root_cases[of s] trail_cases[of s] by (auto simp: elements_of_def append_eq_Cons_conv)
  consider "s = dot" | "s = dotdot" | "s \<noteq> dot" "s \<noteq> dotdot" by blast
  then show ?thesis
    using n by cases (simp_all add: normal_text_def normal_names_def push_name_pop join_def names_directory_def Let_def del: push_name.simps)
qed

lemma AddPreferred_names:
  assumes ns: "list_all is_name ns" and m: "length (elements_of s) \<noteq> 1" "names s \<noteq> []"
    and L: "L = root_names s @ ns @ (if ns \<noteq> [] \<and> last ns = dotdot then [] else trail_names s)" and "L \<noteq> []"
  shows "AddPreferredSeperatorIfNeeded (path s) L T =
    Ret (T @ (if \<not> ends_with_separator s \<and> names_directory s \<and> ns \<noteq> [] \<and> last ns \<noteq> dotdot then [preferred_separator] else []))"
proof -
  have "parts (path s) = map (\<lambda>n. Path n []) (elements_of s)" "s \<noteq> []" "elements_of s \<noteq> []"
    using m by (auto simp: path_def elements_of_def)
  then have "Native (last (parts (path s))) = last (elements_of s)" by (simp add: last_map Native_def)
  moreover have "last (elements_of s) = (if ends_with_separator s then [] else last (names s))"
    using m trail_cases[of s] by (auto simp: elements_of_def)
  ultimately have d: "(Native (last (parts (path s))) = dot \<or> Native (last (parts (path s))) = dotdot) \<longleftrightarrow>
      \<not> ends_with_separator s \<and> names_directory s"
    by (auto simp: names_directory_def)
  have f: "string_front s = Ret (hd s)" using \<open>s \<noteq> []\<close> by (cases s) (simp_all add: string_front_def)
  show ?thesis
  proof (cases "\<not> ends_with_separator s \<and> names_directory s")
    case True
    then have t: "trail_names s = []" by (simp add: trail_names_def)
    have "[preferred_separator] \<noteq> dotdot" by (simp add: dotdot_def preferred_separator_def)
    then show ?thesis
      using True d f t L \<open>L \<noteq> []\<close> root_cases[of s] \<open>s \<noteq> []\<close>
      by (cases "ns = []") (auto simp: AddPreferredSeperatorIfNeeded_def Let_def absolute_def)
  next
    case False
    with d show ?thesis by (auto simp: AddPreferredSeperatorIfNeeded_def Let_def)
  qed
qed


lemma LexicallyNormal_names:
  assumes "names s \<noteq> []"
  shows "LexicallyNormal (path s) = Ret (path (normal_text s))"
proof (cases "length (elements_of s) = 1")
  case True
  then show ?thesis using normal_text_single[OF True assms] by (simp add: LexicallyNormal_def path_def Native_def)
next
  case False
  define ns where "ns = normal_names s"
  define L where "L = root_names s @ ns @ (if ns \<noteq> [] \<and> last ns = dotdot then [] else trail_names s)"
  obtain ys k where y: "rev (foldl push_part [] (filter (\<lambda>n. n \<noteq> dot) (names s))) = replicate k dotdot @ ys"
    "ns = (if absolute s then ys else replicate k dotdot @ ys)"
    "list_all is_name ys" "dotdot \<notin> set ys" "dot \<notin> set ys"
    unfolding ns_def by (rule normal_names_cases)
  have ns: "list_all is_name ns" "dot \<notin> set ns" using normal_names_names[of s] by (simp_all add: ns_def)
  have ps: "parts (path s) \<noteq> []" "map Native (parts (path s)) = root_names s @ names s @ trail_names s"
    using False assms by (auto simp: path_def elements_of_def Native_def comp_def)
  let ?new = "root_names s @ filter (\<lambda>n. n \<noteq> dot) (names s) @ trail_names s"
  let ?P = "root_names s @ (replicate k dotdot @ ys) @ trail_names s"
  have rel: "root_names s = [] \<Longrightarrow> \<not> absolute s" by (auto simp: root_names_def)
  have empty: "normal_text s = dot" if "root_names s = []" "ns = []"
    using that rel by (simp add: normal_text_def ns_def Let_def)
  have new_empty: "normal_text s = dot" if "?new = []"
    using that y(1,2) rel empty by simp
  have P_empty: "normal_text s = dot" if "?P = []"
    using that y(2) rel empty by simp
  have P_L: "RemovePotentialTrailingDirectorySeparator (RemovePotentialMoveUpsAndSeparatorsAfterRoot ?P) = L"
    by (simp only: after_root_names[OF y(3,4)] y(2)[symmetric] trailing_names[OF ns] L_def)
  have C: "CreatePathStringFromParts L = (if absolute s then [preferred_separator] else []) @ join ns
      @ (if ns \<noteq> [] \<and> last ns \<noteq> dotdot \<and> ends_with_separator s then [preferred_separator] else [])"
    unfolding L_def using trail_cases[of s] by (subst create_names[OF ns(1)]) auto
  have C_empty: "normal_text s = dot" if "CreatePathStringFromParts L = []"
    using that join_names[OF ns(1)] empty by (auto simp: C root_names_def split: if_splits)
  have A: "AddPreferredSeperatorIfNeeded (path s) L (CreatePathStringFromParts L) = Ret (normal_text s)"
    if "CreatePathStringFromParts L \<noteq> []"
  proof -
    have "L \<noteq> []" using that by (auto simp: CreatePathStringFromParts_def)
    from AddPreferred_names[OF ns(1) False assms L_def this] show ?thesis
      using that by (auto simp: C normal_text_def Let_def ns_def[symmetric] names_directory_def join_def)
  qed
  show ?thesis
    unfolding LexicallyNormal_def dot_def[symmetric] ps(2) root_filter Let_def remove_pairs_names[OF y(1)]
    using ps(1) A
    by (simp add: P_L new_empty P_empty C_empty del: append_assoc filter_append)
qed


subsection \<open>The normal form\<close>

lemma names_is_name_single: "is_name n \<Longrightarrow> names n = [n]"
  by (simp add: is_name_def names_no_separator)

lemma names_concat:
  "is_name n \<Longrightarrow> list_all is_name ns \<Longrightarrow> names (n @ concat (map (\<lambda>m. preferred_separator # m) ns)) = n # ns"
  by (induction ns arbitrary: n) (simp_all add: names_is_name_single)

lemma names_join: "list_all is_name ns \<Longrightarrow> names (join ns) = ns"
  by (cases ns) (simp_all add: join_def names_concat)

lemma join_ends:
  assumes "list_all is_name ns" shows "\<not> ends_with_separator (join ns)"
proof (cases ns rule: rev_cases)
  case (snoc init l)
  then have l: "l \<noteq> []" "preferred_separator \<notin> set l" using assms by (simp_all add: is_name_def)
  obtain u where "join ns = u @ l" using snoc by (cases init) (auto simp: join_def)
  moreover have "last l \<noteq> preferred_separator" using l last_in_set by metis
  ultimately show ?thesis using l(1) by (simp add: ends_with_separator_def)
qed (simp add: join_def)

lemma join_relative: "list_all is_name ns \<Longrightarrow> \<not> absolute (join ns)"
  by (cases ns) (auto simp: join_def absolute_def dest: is_name_hd)

definition normal_shape :: "bool \<Rightarrow> string list \<Rightarrow> bool" where
  "normal_shape rooted ns \<longleftrightarrow>
     (let rest = dropWhile (\<lambda>n. n = dotdot) ns
      in (rooted \<longrightarrow> rest = ns) \<and> dotdot \<notin> set rest \<and> dot \<notin> set rest)"

lemma normal_names_shape: "normal_shape (absolute s) (normal_names s)"
proof (rule normal_names_cases[of s])
  fix k ys
  assume "normal_names s = (if absolute s then ys else replicate k dotdot @ ys)" "dotdot \<notin> set ys" "dot \<notin> set ys"
  moreover have "dropWhile (\<lambda>n. n = dotdot) ys = ys" using \<open>dotdot \<notin> set ys\<close> by (cases ys) auto
  moreover have "dropWhile (\<lambda>n. n = dotdot) (replicate k dotdot @ ys) = dropWhile (\<lambda>n. n = dotdot) ys"
    by (induction k) auto
  ultimately show ?thesis by (auto simp: normal_shape_def Let_def)
qed

lemma foldl_push_names:
  "dotdot \<notin> set ys \<Longrightarrow> dot \<notin> set ys \<Longrightarrow> foldl (push_name b) st ys = rev ys @ st"
  by (induction ys arbitrary: st) auto

lemma foldl_push_dotdots: "foldl (push_name False) (replicate j dotdot) (replicate k dotdot) = replicate (j + k) dotdot"
proof (induction k arbitrary: j)
  case (Suc k)
  have "push_name False (replicate j dotdot) dotdot = replicate (Suc j) dotdot" by (cases j) auto
  then show ?case using Suc[of "Suc j"] by (simp del: push_name.simps)
qed simp

lemma normal_names_fixed:
  assumes "names t = normal_names s" "absolute t \<longleftrightarrow> absolute s" shows "normal_names t = normal_names s"
proof (rule normal_names_cases[of s])
  fix k ys
  assume n: "normal_names s = (if absolute s then ys else replicate k dotdot @ ys)" "dotdot \<notin> set ys" "dot \<notin> set ys"
  show ?thesis
    using n assms foldl_push_dotdots[of 0 k]
    by (auto simp: normal_names_def[of t] foldl_push_names simp del: push_name.simps)
qed

lemma normal_text_names:
  assumes "normal_names s \<noteq> []"
  shows "names (normal_text s) = normal_names s" "absolute (normal_text s) \<longleftrightarrow> absolute s"
    "ends_with_separator (normal_text s) \<longleftrightarrow> names_directory s \<and> last (normal_names s) \<noteq> dotdot"
proof -
  let ?ns = "normal_names s"
  have n: "list_all is_name ?ns" using normal_names_names[of s] by simp
  note j = names_join[OF n] join_ends[OF n] join_relative[OF n] join_names[OF n]
  show "names (normal_text s) = ?ns" using assms j(1) names_snoc_separator[of "preferred_separator # join ?ns"]
    by (auto simp: normal_text_def Let_def)
  show "absolute (normal_text s) \<longleftrightarrow> absolute s" using assms j(3,4) by (auto simp: normal_text_def Let_def)
  show "ends_with_separator (normal_text s) \<longleftrightarrow> names_directory s \<and> last ?ns \<noteq> dotdot"
    using assms j(2,4) by (auto simp: normal_text_def Let_def ends_with_separator_def)
qed

lemma normal_text_cong:
  "normal_names t = normal_names s \<Longrightarrow> absolute t \<longleftrightarrow> absolute s \<Longrightarrow>
   names_directory t \<and> last (normal_names s) \<noteq> dotdot \<longleftrightarrow> names_directory s \<and> last (normal_names s) \<noteq> dotdot \<Longrightarrow>
   normal_text t = normal_text s"
  by (simp add: normal_text_def Let_def)

lemma normal_text_fixed: "normal_names s \<noteq> [] \<Longrightarrow> normal_text (normal_text s) = normal_text s"
proof -
  assume a: "normal_names s \<noteq> []"
  note t = normal_text_names[OF a]
  have e: "normal_names (normal_text s) = normal_names s" using normal_names_fixed[OF t(1,2)] .
  have "last (normal_names s) \<noteq> dot" using normal_names_names[of s] a last_in_set by metis
  then have "names_directory (normal_text s) \<and> last (normal_names s) \<noteq> dotdot \<longleftrightarrow>
      names_directory s \<and> last (normal_names s) \<noteq> dotdot"
    by (auto simp: names_directory_def[of "normal_text s"] t)
  with e t(2) show ?thesis by (rule normal_text_cong)
qed

lemma normal_names_empty:
  assumes "normal_names s = []"
  shows "LexicallyNormal (path (normal_text s)) = Ret (path (normal_text s))"
proof (cases "absolute s")
  case True
  then have "normal_text s = [preferred_separator]" using assms by (simp add: normal_text_def)
  then show ?thesis by (simp add: LexicallyNormal_def path_def elements_of_def)
next
  case False
  then have "normal_text s = dot" using assms by (simp add: normal_text_def)
  moreover have "elements_of dot = [dot]" using dots(1) by (simp add: elements_of_no_separator is_name_def)
  ultimately show ?thesis by (simp add: LexicallyNormal_def path_def)
qed

lemma LexicallyNormal_all_separators:
  "names s = [] \<Longrightarrow> LexicallyNormal (path s) = Ret (path s)"
  by (auto simp: LexicallyNormal_def path_def elements_of_def)

section \<open>Traversal\<close>

fun advance :: "nat \<Rightarrow> iterator \<Rightarrow> iterator result" where
  "advance 0 it = Ret it"
| "advance (Suc n) it = bind_outcome (iterator_increment it) (advance n)"

lemma advance_parts:
  "parts p \<noteq> [] \<Longrightarrow> c + n \<le> length (parts p) \<Longrightarrow>
   advance n (iterator_at (a, p) c) = Ret (iterator_at (a, p) (c + n))"
  by (induction n arbitrary: c) (simp_all add: iterator_increment_def iterator_at_def)

lemma advance_begin:
  assumes "n \<le> length (elements p)"
  shows "advance n (path_begin (a, p)) =
    Ret (if parts p \<noteq> [] then iterator_at (a, p) n
         else if native_path p = [] then iterator_default else iterator_single (a, p) (n = 1))"
proof (cases "parts p = []")
  case True
  then have "native_path p \<noteq> [] \<Longrightarrow> n = 0 \<or> n = 1" "native_path p = [] \<Longrightarrow> n = 0"
    using assms by (auto simp: elements_def)
  with True show ?thesis
    by (cases "native_path p = []") (auto simp: path_begin_def iterator_increment_def iterator_single_def)
next
  case False
  then show ?thesis using assms advance_parts[of p 0 n a] by (simp add: path_begin_def elements_def)
qed

section \<open>Properties\<close>

lemma RootDirectory_path: "RootDirectory (path s) = Ret (path (if absolute s then [preferred_separator] else []))"
  by (simp add: RootDirectory_def Path_default_eq preferred_separator_def)

lemma RelativePath_path: "RelativePath (path s) = Ret (path (if absolute s then tl s else s))"
  by (simp add: RelativePath_def RootPath_def RootDirectory_path drop_Suc)

definition append_text :: "string \<Rightarrow> string \<Rightarrow> string" where
  "append_text s t =
     (if s = [] \<or> absolute t then t
      else s @ (if ends_with_separator s then [] else [preferred_separator]) @ t)"

lemma append_assign_path: "append_assign (path s) (path t) = Ret (path (append_text s t))"
  by (auto simp: append_assign_def append_text_def HasRootName_def RootName_def Path_default_eq string_back_def
      ends_with_separator_def preferred_separator_def[symmetric])

lemma ParentPath_all_separators: "names s = [] \<Longrightarrow> ParentPath (path s) = Ret (path s)"
  by (auto simp: ParentPath_def Path_default_eq Let_def find_first_not_of_None names_eq_Nil)

lemma ParentPath_unsafe: "names s \<noteq> [] \<Longrightarrow> parent_unsafe s \<Longrightarrow> ParentPath (path s) = Undefined"
  using ParentPath_last[of s] parent_unsafe_last[of s] parent_unsafe_no_separator[of s]
  by (cases rule: last_separator_cases[of s]) auto

lemma names_append_text: "s \<noteq> [] \<Longrightarrow> \<not> absolute t \<Longrightarrow> names (append_text s t) = names s @ names t"
proof -
  assume "s \<noteq> []" "\<not> absolute t"
  moreover obtain u where "s = u @ [preferred_separator]" if "ends_with_separator s"
    by (metis append_butlast_last_id ends_with_separator_def)
  ultimately show ?thesis
    by (cases "ends_with_separator s") (auto simp: append_text_def)
qed

lemma path_eq_iff: "wf_path p \<Longrightarrow> wf_path q \<Longrightarrow> path_eq p q \<longleftrightarrow> p = q"
  by (metis Native_path path_eq_def wf_path_iff)

lemma path_order:
  "path_neq p q \<longleftrightarrow> \<not> path_eq p q"
  "path_less p q \<or> path_eq p q \<or> path_less q p"
  "path_less p q \<Longrightarrow> \<not> path_eq p q \<and> \<not> path_less q p"
  "path_less p q \<Longrightarrow> path_less q r \<Longrightarrow> path_less p r"
  by (auto simp: path_neq_def path_eq_def path_less_def)

text \<open>
  Every constructor and every operation that yields a path establishes the class invariant that
  \<open>parts_\<close> is the parse of \<open>native_path_\<close>; none of them aborts, and none but \<open>ParentPath\<close> has undefined
  behaviour, whatever the text of the path.
\<close>

theorem path_operations_wf:
  assumes "wf_path p" "wf_path q"
  shows "(\<exists>r. make_Path s f = Ret r \<and> wf_path r \<and> Native r = s)
    \<and> wf_path Path_default \<and> wf_path (RootName p)
    \<and> (\<forall>f \<in> {RootDirectory, RootPath, RelativePath, Filename, Extension, Stem, RemoveFilename, LexicallyNormal}.
         \<exists>r. f p = Ret r \<and> wf_path r)
    \<and> (\<forall>f \<in> {append_assign, path_div, ReplaceExtension}. \<exists>r. f p q = Ret r \<and> wf_path r)
    \<and> (ParentPath p = Undefined \<or> (\<exists>r. ParentPath p = Ret r \<and> wf_path r))"
proof -
  obtain s t where [simp]: "p = path s" "q = path t" using assms wf_path_iff by metis
  have "\<exists>r. LexicallyNormal (path s) = Ret r \<and> wf_path r"
    using LexicallyNormal_names[of s] LexicallyNormal_all_separators[of s] by (cases "names s = []") auto
  moreover have "ParentPath (path s) = Undefined \<or> (\<exists>r. ParentPath (path s) = Ret r \<and> wf_path r)"
    using ParentPath_all_separators[of s] ParentPath_unsafe[of s] ParentPath_elements[of s] by blast
  ultimately show ?thesis
    by (simp add: RootName_def Path_default_eq RootPath_def RootDirectory_path RelativePath_path Filename_path
        Extension_path Stem_path RemoveFilename_path append_assign_path path_div_def ReplaceExtension_path)
qed

theorem path_operations_wf_witness:
  "wf_path (path ''a/b.c'') \<and> wf_path (path ''/x'') \<and> (\<exists>r. LexicallyNormal (path ''a/b.c'') = Ret r \<and> wf_path r)"
  using path_operations_wf[of "path ''a/b.c''" "path ''/x''"] by simp

text \<open>
  C8: On a path that names something, \<open>ParentPath\<close> yields the path whose elements are those of the path
  without the last one; exactly on a text of two or more separators followed by a single name
  it reads outside of the string. On a path of separators only (or none) it returns the path itself.
\<close>

theorem ParentPath_correct:
  assumes "wf_path p"
  shows "(names (Native p) = [] \<longrightarrow> ParentPath p = Ret p)
    \<and> (names (Native p) \<noteq> [] \<and> parent_unsafe (Native p) \<longrightarrow> ParentPath p = Undefined)
    \<and> (names (Native p) \<noteq> [] \<and> \<not> parent_unsafe (Native p) \<longrightarrow>
         (\<exists>q. ParentPath p = Ret q \<and> wf_path q \<and> elements q = butlast (elements p)))"
proof -
  obtain s where p: "p = path s" using assms wf_path_iff by metis
  show ?thesis
    using ParentPath_all_separators[of s] ParentPath_unsafe[of s] ParentPath_elements[of s] by (auto simp: p elements_path)
qed

theorem ParentPath_correct_witness:
  "wf_path (path ''/a//b'') \<and> names (Native (path ''/a//b'')) \<noteq> [] \<and> \<not> parent_unsafe (Native (path ''/a//b''))
   \<and> (\<exists>q. ParentPath (path ''/a//b'') = Ret q \<and> elements q = butlast (elements (path ''/a//b'')))
   \<and> parent_unsafe (Native (path ''//a'')) \<and> ParentPath (path ''//a'') = Undefined"
  using ParentPath_correct[of "path ''/a//b''"] ParentPath_correct[of "path ''//a''"]
  by (auto simp: names_def parent_unsafe_def preferred_separator_def)

text \<open>
  \<open>Filename\<close> is the last element of a path that names something and empty otherwise. \<open>RemoveFilename\<close>
  and \<open>Filename\<close> split the text, \<open>Stem\<close> and \<open>Extension\<close> split the file name at its last period that is not
  in front (dot and dot-dot have no extension), and \<open>ReplaceExtension\<close> puts the new extension, with a
  period in front where it has none, in the place of the old one.
\<close>

theorem filename_decomposition:
  assumes "wf_path p" "wf_path e"
  shows "\<exists>d f st ex. RemoveFilename p = Ret d \<and> Filename p = Ret f \<and> Stem p = Ret st \<and> Extension p = Ret ex
    \<and> Native p = Native d @ Native f \<and> preferred_separator \<notin> set (Native f)
    \<and> Native f = (if names (Native p) = [] then [] else last (elements p))
    \<and> Native f = Native st @ Native ex \<and> Native ex = extension_of (Native f)
    \<and> ReplaceExtension p e = Ret (path (Native d @ Native st @ dotted (Native e)))"
proof -
  obtain s t where p: "p = path s" "e = path t" using assms wf_path_iff by metis
  have "drop (filename_start s) s = []" if "names s = []"
  proof (rule ccontr)
    assume "drop (filename_start s) s \<noteq> []"
    then have "names (drop (filename_start s) s) \<noteq> []" using filename_no_separator[of s] by (simp add: names_no_separator)
    then show False using that set_drop_subset[of "filename_start s" s] by (auto simp: names_eq_Nil)
  qed
  moreover have "drop (filename_start s) s = last (elements_of s)" if "names s \<noteq> []"
    using elements_of_Filename[OF that] Filename_path[of s] by (metis Native_path outcome.inject(1))
  ultimately show ?thesis
    using filename_no_separator[of s] extension_of_suffix[of "drop (filename_start s) s"]
    by (simp add: p RemoveFilename_path Filename_path Stem_path Extension_path ReplaceExtension_path elements_path stem_of_def)
qed

theorem filename_decomposition_witness:
  "wf_path (path ''d/a.tar.gz'') \<and> wf_path (path ''zip'')
   \<and> (\<exists>d st. RemoveFilename (path ''d/a.tar.gz'') = Ret d \<and> Stem (path ''d/a.tar.gz'') = Ret st
        \<and> ReplaceExtension (path ''d/a.tar.gz'') (path ''zip'') = Ret (path (Native d @ Native st @ dotted (Native (path ''zip'')))))"
  using filename_decomposition[of "path ''d/a.tar.gz''" "path ''zip''"] by auto

text \<open>
  C7: \<open>LexicallyNormal\<close> computes the normal form of the reference: the loop that erases pairs of a name
  and a dot-dot, and the clean-up steps after it, give the text that pushing the names on a stack
  gives. A text of separators only is returned as it is, even when it has more than one. A separator
  stays at the end when the last element was a dot or a dot-dot: \<open>/../../foo/./bar/hello/..\<close>, the example
  of path.h, becomes \<open>/foo/bar/\<close>.
\<close>

theorem LexicallyNormal_correct:
  assumes "wf_path p"
  shows "LexicallyNormal p = Ret (path (if names (Native p) = [] then Native p else normal_text (Native p)))"
proof -
  obtain s where p: "p = path s" using assms wf_path_iff by metis
  show ?thesis using LexicallyNormal_names[of s] LexicallyNormal_all_separators[of s] by (simp add: p)
qed

theorem LexicallyNormal_correct_witness:
  "wf_path (path ''/a/./b/../../../c/..'')
   \<and> LexicallyNormal (path ''/a/./b/../../../c/..'') = Ret (path ''/'')
   \<and> wf_path (path ''//'') \<and> LexicallyNormal (path ''//'') = Ret (path ''//'')
   \<and> LexicallyNormal (path ''/../../foo/./bar/hello/..'') = Ret (path ''/foo/bar/'')"
  using LexicallyNormal_correct[of "path ''/a/./b/../../../c/..''"] LexicallyNormal_correct[of "path ''//''"]
    LexicallyNormal_correct[of "path ''/../../foo/./bar/hello/..''"]
  by (simp add: names_def normal_text_def normal_names_def names_directory_def join_def absolute_def preferred_separator_def dot_def dotdot_def)

text \<open>
  A normalised path is in normal form: dot-dots stand in front of all other names and only in a
  relative path, no dot is left (but for the path that is just a dot), and normalising it again
  gives it back. Normalisation does not turn a relative path into an absolute one or back.
\<close>

theorem LexicallyNormal_idempotent:
  assumes "wf_path p"
  shows "\<exists>q. LexicallyNormal p = Ret q \<and> LexicallyNormal q = Ret q \<and> IsAbsolute q = IsAbsolute p
    \<and> (Native q = dot \<or> normal_shape (IsAbsolute q) (names (Native q)))"
proof -
  obtain s where p: "p = path s" using assms wf_path_iff by metis
  consider "names s = []" | "names s \<noteq> []" "normal_names s = []" | "names s \<noteq> []" "normal_names s \<noteq> []" by blast
  then show ?thesis
  proof cases
    case 1
    then show ?thesis by (simp add: p LexicallyNormal_all_separators normal_shape_def)
  next
    case 2
    then have "absolute (normal_text s) = absolute s \<and> (normal_text s = dot \<or> names (normal_text s) = [])"
      using dots(1) is_name_hd[OF dots(1)] by (auto simp: normal_text_def absolute_def)
    with 2 show ?thesis by (auto simp: p LexicallyNormal_names normal_names_empty normal_shape_def)
  next
    case 3
    note t = normal_text_names[OF 3(2)]
    have "LexicallyNormal (path (normal_text s)) = Ret (path (normal_text s))"
      using LexicallyNormal_names[of "normal_text s"] 3 t normal_text_fixed[OF 3(2)] by simp
    then show ?thesis using 3 t normal_names_shape[of s] by (simp add: p LexicallyNormal_names)
  qed
qed

theorem LexicallyNormal_idempotent_witness:
  "wf_path (path ''../a/./..'') \<and> (\<exists>q. LexicallyNormal (path ''../a/./..'') = Ret q \<and> LexicallyNormal q = Ret q)"
  using LexicallyNormal_idempotent[of "path ''../a/./..''"] by auto

text \<open>
  C9: \<open>operator/=\<close> replaces the path by an absolute argument (or when the path is empty), otherwise the
  result is rooted like the path and its names are those of the path followed by those of the
  argument, with the text of the path as a prefix.
\<close>

theorem append_correct:
  assumes "wf_path p" "wf_path q"
  shows "\<exists>r. append_assign p q = Ret r \<and> path_div p q = Ret r
    \<and> (Path_Empty p \<or> IsAbsolute q \<longrightarrow> r = q)
    \<and> (\<not> Path_Empty p \<and> IsRelative q \<longrightarrow>
         IsAbsolute r = IsAbsolute p \<and> names (Native r) = names (Native p) @ names (Native q)
         \<and> (\<exists>sep. Native r = Native p @ sep @ Native q \<and> length sep \<le> 1))"
proof -
  obtain s t where p: "p = path s" "q = path t" using assms wf_path_iff by metis
  show ?thesis
    using names_append_text[of s t]
    by (auto simp: p append_assign_path path_div_def IsRelative_def append_text_def)
qed

theorem append_correct_witness:
  "wf_path (path ''a/'') \<and> wf_path (path ''b'')
   \<and> (\<exists>r. append_assign (path ''a/'') (path ''b'') = Ret r \<and> names (Native r) = names ''a/'' @ names ''b'')"
  using append_correct[of "path ''a/''" "path ''b''"] by (auto simp: IsRelative_def absolute_def preferred_separator_def)

text \<open>
  \<open>RootPath\<close> and \<open>RelativePath\<close> split the text; the root is the separator exactly for absolute paths;
  and every \<open>Has...\<close> query tells whether the part it asks for is empty.
\<close>

theorem root_decomposition:
  assumes "wf_path p"
  shows "\<exists>root rel. RootDirectory p = Ret root \<and> RootPath p = Ret root \<and> RelativePath p = Ret rel
    \<and> Native p = Native root @ Native rel \<and> Native root = (if IsAbsolute p then ''/'' else [])
    \<and> HasRootPath p = Ret (IsAbsolute p) \<and> HasRootDirectory p = Ret (IsAbsolute p) \<and> \<not> HasRootName p
    \<and> HasRelativePath p = Ret (\<not> Path_Empty rel)
    \<and> HasFilename p = bind_outcome (Filename p) (\<lambda>f. Ret (Native f \<noteq> []))
    \<and> HasExtension p = Ret (extension_of (drop (filename_start (Native p)) (Native p)) \<noteq> [])"
proof -
  obtain s where p: "p = path s" using assms wf_path_iff by metis
  show ?thesis
    by (cases s) (auto simp: p RootPath_def RootDirectory_path RelativePath_path HasRootPath_def HasRootDirectory_def
      HasRootName_def RootName_def Path_default_eq HasRelativePath_def HasFilename_def HasExtension_def Filename_path
      Extension_path absolute_def preferred_separator_def)
qed

theorem root_decomposition_witness:
  "wf_path (path ''/usr'') \<and> (\<exists>root rel. RootPath (path ''/usr'') = Ret root \<and> RelativePath (path ''/usr'') = Ret rel
     \<and> ''/usr'' = Native root @ Native rel)"
  using root_decomposition[of "path ''/usr''"] by auto

text \<open>
  Traversing a path from \<open>begin\<close> meets its elements in order and ends, after as many increments, at an
  iterator equal to \<open>end\<close>, which can be neither dereferenced nor incremented; before, no iterator equals
  \<open>end\<close>, and a decrement undoes an increment.
\<close>

theorem iterator_traversal:
  assumes "n \<le> length (elements p)"
  shows "\<exists>it. advance n (path_begin (a, p)) = Ret it \<and> (iterator_equals it (path_end (a, p)) \<longleftrightarrow> n = length (elements p))
    \<and> (n = length (elements p) \<longrightarrow> iterator_deref it = Abort \<and> iterator_increment it = Abort)
    \<and> (n < length (elements p) \<longrightarrow>
         (\<exists>q it'. iterator_deref it = Ret q \<and> Native q = elements p ! n
            \<and> iterator_increment it = Ret it' \<and> iterator_decrement it' = Ret it))"
  using advance_begin[OF assms, of a] assms
  by (auto simp: elements_def path_end_def iterator_equals_def iterator_at_def iterator_single_def iterator_default_def
      iterator_deref_def iterator_increment_def iterator_decrement_def Native_def)

theorem iterator_traversal_witness:
  "1 < length (elements (path ''/a/b''))
   \<and> (\<exists>it q. advance 1 (path_begin (0, path ''/a/b'')) = Ret it \<and> iterator_deref it = Ret q \<and> Native q = ''a'')"
  using iterator_traversal[of 1 "path ''/a/b''" 0]
  by (auto simp: elements_path elements_of_def names_def root_names_def absolute_def preferred_separator_def)

end
