(* ===== verification/Circular_Buffer.thy ===== *)
theory Circular_Buffer
  imports Prelude
begin

text \<open>
  The container \<open>score::cpp::circular_buffer\<close> of
  src/score/language/futurecpp/include/score/circular_buffer.hpp and its iterator
  (private/container/circular_buffer_iterator.hpp). A slot of \<open>array_\<close> is \<open>None\<close> where no object lives.
  Destroying or reading such a slot, or constructing over a living object, is \<^const>\<open>Undefined\<close>; a failed
  assertion or precondition is \<^const>\<open>Abort\<close> (the checks of debug builds are on: when none of them fails, a
  release build does the same). What a move leaves behind in its source is the parameter \<open>moved\<close>, a copy
  constructor that may throw is the parameter \<open>copy\<close>.
\<close>

section \<open>Model\<close>

record 'a circular_buffer =
  array :: "'a option list"
  tail :: nat
  head :: nat
  size_of :: nat

definition capacity :: "'a circular_buffer \<Rightarrow> nat" where
  "capacity b = length (array b)"

definition make_circular_buffer :: "nat \<Rightarrow> 'a circular_buffer" where
  "make_circular_buffer MaxSize = \<lparr> array = replicate MaxSize None, tail = 0, head = 0, size_of = 0 \<rparr>"

definition cb_empty :: "'a circular_buffer \<Rightarrow> bool" where
  "cb_empty b = (0 = size_of b)"

definition cb_full :: "'a circular_buffer \<Rightarrow> bool" where
  "cb_full b = (capacity b = size_of b)"

text \<open>Reading, destroying and constructing the object in a slot.\<close>

definition read_slot :: "'a circular_buffer \<Rightarrow> nat \<Rightarrow> 'a result" where
  "read_slot b i =
     (if i < length (array b) then (case array b ! i of None \<Rightarrow> Undefined | Some x \<Rightarrow> Ret x) else Undefined)"

definition destroy_slot :: "'a circular_buffer \<Rightarrow> nat \<Rightarrow> 'a circular_buffer result" where
  "destroy_slot b i = bind_outcome (read_slot b i) (\<lambda>_. Ret (b\<lparr> array := (array b)[i := None] \<rparr>))"

definition construct_slot :: "'a circular_buffer \<Rightarrow> nat \<Rightarrow> 'a \<Rightarrow> 'a circular_buffer result" where
  "construct_slot b i x =
     (if i < length (array b) \<and> array b ! i = None then Ret (b\<lparr> array := (array b)[i := Some x] \<rparr>) else Undefined)"

definition assign_slot :: "'a circular_buffer \<Rightarrow> nat \<Rightarrow> 'a \<Rightarrow> 'a circular_buffer result" where
  "assign_slot b i x = bind_outcome (read_slot b i) (\<lambda>_. Ret (b\<lparr> array := (array b)[i := Some x] \<rparr>))"

text \<open>\<open>operator[]\<close> yields a reference: the index of its slot.\<close>

definition cb_ref :: "'a circular_buffer \<Rightarrow> nat \<Rightarrow> nat result" where
  "cb_ref b n = (if n < size_of b then Ret ((head b + n) mod capacity b) else Abort)"

subsection \<open>The iterator\<close>

text \<open>An iterator has a position relative to the begin and the address of its container.\<close>

record cb_iterator =
  current :: int
  container :: "nat option"

definition cb_iterator_default :: cb_iterator where
  "cb_iterator_default = \<lparr> current = 0, container = None \<rparr>"

definition make_cb_iterator :: "nat \<Rightarrow> 'a circular_buffer \<Rightarrow> bool \<Rightarrow> cb_iterator" where
  "make_cb_iterator this b is_begin = \<lparr> current = (if is_begin then 0 else int (size_of b)), container = Some this \<rparr>"

definition cb_begin :: "nat \<Rightarrow> 'a circular_buffer \<Rightarrow> cb_iterator" where
  "cb_begin this b = make_cb_iterator this b True"

definition cb_end :: "nat \<Rightarrow> 'a circular_buffer \<Rightarrow> cb_iterator" where
  "cb_end this b = make_cb_iterator this b False"

definition checked_access :: "'a circular_buffer \<Rightarrow> cb_iterator \<Rightarrow> int \<Rightarrow> nat result" where
  "checked_access b it n =
     (if n \<ge> 0 \<and> container it \<noteq> None \<and> n < int (size_of b) then cb_ref b (nat n) else Abort)"

definition cb_deref :: "'a circular_buffer \<Rightarrow> cb_iterator \<Rightarrow> nat result" where
  "cb_deref b it = checked_access b it (current it)"

definition it_increment :: "cb_iterator \<Rightarrow> cb_iterator" where
  "it_increment it = it\<lparr> current := current it + 1 \<rparr>"

definition it_post_increment :: "cb_iterator \<Rightarrow> cb_iterator \<times> cb_iterator" where
  "it_post_increment it = (it, it_increment it)"

definition it_decrement :: "cb_iterator \<Rightarrow> cb_iterator" where
  "it_decrement it = it\<lparr> current := current it - 1 \<rparr>"

definition it_post_decrement :: "cb_iterator \<Rightarrow> cb_iterator \<times> cb_iterator" where
  "it_post_decrement it = (it, it_decrement it)"

definition it_plus :: "cb_iterator \<Rightarrow> int \<Rightarrow> cb_iterator" where
  "it_plus it n = it\<lparr> current := current it + n \<rparr>"

definition it_minus :: "cb_iterator \<Rightarrow> int \<Rightarrow> cb_iterator" where
  "it_minus it n = it\<lparr> current := current it - n \<rparr>"

definition it_index :: "'a circular_buffer \<Rightarrow> cb_iterator \<Rightarrow> int \<Rightarrow> nat result" where
  "it_index b it n = cb_deref b (it_plus it n)"

definition it_distance :: "cb_iterator \<Rightarrow> cb_iterator \<Rightarrow> int result" where
  "it_distance lhs rhs = (if container lhs = container rhs then Ret (current lhs - current rhs) else Abort)"

definition it_equal :: "cb_iterator \<Rightarrow> cb_iterator \<Rightarrow> bool result" where
  "it_equal lhs rhs = (if container lhs = container rhs then Ret (current lhs = current rhs) else Abort)"

definition it_not_equal :: "cb_iterator \<Rightarrow> cb_iterator \<Rightarrow> bool result" where
  "it_not_equal lhs rhs = bind_outcome (it_equal lhs rhs) (\<lambda>b. Ret (\<not> b))"

definition it_less :: "cb_iterator \<Rightarrow> cb_iterator \<Rightarrow> bool result" where
  "it_less lhs rhs = (if container lhs = container rhs then Ret (current lhs < current rhs) else Abort)"

definition it_less_equal :: "cb_iterator \<Rightarrow> cb_iterator \<Rightarrow> bool result" where
  "it_less_equal lhs rhs = bind_outcome (it_less rhs lhs) (\<lambda>b. Ret (\<not> b))"

definition it_greater :: "cb_iterator \<Rightarrow> cb_iterator \<Rightarrow> bool result" where
  "it_greater lhs rhs = it_less rhs lhs"

definition it_greater_equal :: "cb_iterator \<Rightarrow> cb_iterator \<Rightarrow> bool result" where
  "it_greater_equal lhs rhs = bind_outcome (it_less lhs rhs) (\<lambda>b. Ret (\<not> b))"

subsection \<open>Element access and modifiers\<close>

definition cb_front :: "'a circular_buffer \<Rightarrow> nat result" where
  "cb_front b = (if cb_empty b then Abort else cb_deref b (cb_begin 0 b))"

definition cb_back :: "'a circular_buffer \<Rightarrow> nat result" where
  "cb_back b = (if cb_empty b then Abort else cb_deref b (it_minus (cb_end 0 b) 1))"

definition pop_front :: "'a circular_buffer \<Rightarrow> 'a circular_buffer result" where
  "pop_front b =
     (if \<not> cb_empty b
      then bind_outcome (cb_front b) (\<lambda>i.
           bind_outcome (destroy_slot b i) (\<lambda>b.
           Ret (b\<lparr> head := (head b + 1) mod capacity b, size_of := size_of b - 1 \<rparr>)))
      else Ret b)"

definition pop_back :: "'a circular_buffer \<Rightarrow> 'a circular_buffer result" where
  "pop_back b =
     (if \<not> cb_empty b
      then bind_outcome (cb_back b) (\<lambda>i.
           bind_outcome (destroy_slot b i) (\<lambda>b.
           let b = b\<lparr> tail := (if tail b = 0 then capacity b - 1 else tail b - 1) \<rparr>
           in Ret (b\<lparr> size_of := size_of b - 1 \<rparr>)))
      else Ret b)"

fun repeat_op :: "nat \<Rightarrow> ('b \<Rightarrow> 'b result) \<Rightarrow> 'b \<Rightarrow> 'b result" where
  "repeat_op 0 f b = Ret b"
| "repeat_op (Suc n) f b = bind_outcome (f b) (repeat_op n f)"

definition cb_clear :: "'a circular_buffer \<Rightarrow> 'a circular_buffer result" where
  "cb_clear b = (let number_of_elements_to_remove = size_of b in repeat_op number_of_elements_to_remove pop_front b)"

text \<open>
  The argument of \<open>push_back\<close> and \<open>emplace_back\<close> is a reference: to an object outside of the buffer, or to
  the object in a slot of the buffer itself, which is read when the new element is constructed.
\<close>

datatype 'a source = External 'a | Slot nat

definition read_source :: "'a circular_buffer \<Rightarrow> 'a source \<Rightarrow> 'a result" where
  "read_source b s = (case s of External x \<Rightarrow> Ret x | Slot i \<Rightarrow> read_slot b i)"

definition emplace_back :: "'a circular_buffer \<Rightarrow> 'a source \<Rightarrow> 'a circular_buffer result" where
  "emplace_back b arguments =
     bind_outcome (if cb_full b then pop_front b else Ret b) (\<lambda>b.
     bind_outcome (read_source b arguments) (\<lambda>x.
     bind_outcome (construct_slot b (tail b) x) (\<lambda>b.
     Ret (b\<lparr> tail := (tail b + 1) mod capacity b, size_of := size_of b + 1 \<rparr>))))"

definition push_back :: "'a circular_buffer \<Rightarrow> 'a source \<Rightarrow> 'a circular_buffer result" where
  "push_back b x = emplace_back b x"

text \<open>
  \<open>*d = std::move(*s)\<close> for two iterators into the buffer. When both are the same element, \<open>moved\<close> is what a
  move assignment to itself leaves in it: a call of \<open>erase\<close> moves either every element onto itself (an empty
  range) or none, so the parameter stands for one kind of move per call.
\<close>

definition move_assign :: "('a \<Rightarrow> 'a) \<Rightarrow> 'a circular_buffer \<Rightarrow> cb_iterator \<Rightarrow> cb_iterator \<Rightarrow> 'a circular_buffer result" where
  "move_assign moved b s d =
     bind_outcome (cb_deref b s) (\<lambda>i.
     bind_outcome (cb_deref b d) (\<lambda>j.
     bind_outcome (read_slot b i) (\<lambda>x.
     bind_outcome (assign_slot b j x) (\<lambda>b.
     assign_slot b i (moved x)))))"

text \<open>\<open>std::move_backward(first, last, d_last)\<close> and \<open>std::move(first, last, d_first)\<close> for a range of n elements.\<close>

fun move_backward :: "('a \<Rightarrow> 'a) \<Rightarrow> nat \<Rightarrow> 'a circular_buffer \<Rightarrow> cb_iterator \<Rightarrow> cb_iterator \<Rightarrow> 'a circular_buffer result" where
  "move_backward moved 0 b last_it d_last = Ret b"
| "move_backward moved (Suc n) b last_it d_last =
     bind_outcome (move_assign moved b (it_decrement last_it) (it_decrement d_last)) (\<lambda>b.
     move_backward moved n b (it_decrement last_it) (it_decrement d_last))"

fun move_range :: "('a \<Rightarrow> 'a) \<Rightarrow> nat \<Rightarrow> 'a circular_buffer \<Rightarrow> cb_iterator \<Rightarrow> cb_iterator \<Rightarrow> 'a circular_buffer result" where
  "move_range moved 0 b first d_first = Ret b"
| "move_range moved (Suc n) b first d_first =
     bind_outcome (move_assign moved b first d_first) (\<lambda>b.
     move_range moved n b (it_increment first) (it_increment d_first))"

definition precondition :: "bool result \<Rightarrow> 'b result \<Rightarrow> 'b result" where
  "precondition c k = bind_outcome c (\<lambda>ok. if ok then k else Abort)"

definition erase_range ::
  "('a \<Rightarrow> 'a) \<Rightarrow> nat \<Rightarrow> 'a circular_buffer \<Rightarrow> cb_iterator \<Rightarrow> cb_iterator \<Rightarrow> ('a circular_buffer \<times> cb_iterator) result" where
  "erase_range moved this b first last_it =
     precondition (Ret (container first = Some this))
     (precondition (Ret (container last_it = Some this))
     (precondition (it_less_equal (cb_begin this b) first)
     (precondition (it_less_equal last_it (cb_end this b))
     (precondition (it_less_equal first last_it)
     (bind_outcome (it_distance last_it first) (\<lambda>diff.
      bind_outcome (it_distance first (cb_begin this b)) (\<lambda>before.
      bind_outcome (it_distance (cb_end this b) last_it) (\<lambda>after.
      bind_outcome
        (if before \<le> after
         then bind_outcome (move_backward moved (nat before) b first last_it) (repeat_op (nat diff) pop_front)
         else bind_outcome (move_range moved (nat after) b last_it first) (repeat_op (nat diff) pop_back))
        (\<lambda>b. Ret (b, it_minus last_it diff))))))))))"

definition erase_at :: "('a \<Rightarrow> 'a) \<Rightarrow> nat \<Rightarrow> 'a circular_buffer \<Rightarrow> cb_iterator \<Rightarrow> ('a circular_buffer \<times> cb_iterator) result" where
  "erase_at moved this b pos = erase_range moved this b pos (it_plus pos 1)"

subsection \<open>Copy and move\<close>

text \<open>
  \<open>std::uninitialized_copy\<close> and \<open>std::uninitialized_move\<close> from the elements of another buffer, position i on,
  to the slots of this one. The parameter \<open>transfer\<close> gives for an element the new object, or \<open>None\<close> when
  its constructor throws, and what is left in the source; for a copy that is the element itself.
  A throw destroys what was constructed so far; the flag of the result is \<open>False\<close> then.
\<close>

fun destroy_first :: "nat \<Rightarrow> 'a circular_buffer \<Rightarrow> 'a circular_buffer result" where
  "destroy_first 0 b = Ret b"
| "destroy_first (Suc i) b = bind_outcome (destroy_first i b) (\<lambda>b. bind_outcome (cb_ref b i) (destroy_slot b))"

fun uninitialized_transfer ::
  "('a \<Rightarrow> 'a option \<times> 'a) \<Rightarrow> nat \<Rightarrow> 'a circular_buffer \<Rightarrow> nat \<Rightarrow> 'a circular_buffer \<Rightarrow>
   (bool \<times> 'a circular_buffer \<times> 'a circular_buffer) result" where
  "uninitialized_transfer transfer 0 other i b = Ret (True, other, b)"
| "uninitialized_transfer transfer (Suc n) other i b =
     bind_outcome (cb_ref other i) (\<lambda>s.
     bind_outcome (read_slot other s) (\<lambda>x.
     bind_outcome (cb_ref b i) (\<lambda>d.
     bind_outcome (assign_slot other s (snd (transfer x))) (\<lambda>other.
     case fst (transfer x) of
       None \<Rightarrow> bind_outcome (destroy_first i b) (\<lambda>b. Ret (False, other, b))
     | Some y \<Rightarrow> bind_outcome (construct_slot b d y) (\<lambda>b. uninitialized_transfer transfer n other (Suc i) b)))))"

text \<open>The body of the \<open>try\<close> block and the handler that all four special members share.\<close>

definition take_over ::
  "('a \<Rightarrow> 'a option \<times> 'a) \<Rightarrow> 'a circular_buffer \<Rightarrow> 'a circular_buffer \<Rightarrow> ('a circular_buffer \<times> 'a circular_buffer) result" where
  "take_over transfer b other =
     (let b = b\<lparr> tail := tail other, head := head other, size_of := size_of other \<rparr>
      in bind_outcome (uninitialized_transfer transfer (size_of other) other 0 b) (\<lambda>(completed, other, b).
         Ret (if completed then b else b\<lparr> tail := 0, head := 0, size_of := 0 \<rparr>, other)))"

definition copy_transfer :: "('a \<Rightarrow> 'a option) \<Rightarrow> 'a \<Rightarrow> 'a option \<times> 'a" where
  "copy_transfer copy x = (copy x, x)"

definition cb_copy :: "('a \<Rightarrow> 'a option) \<Rightarrow> 'a circular_buffer \<Rightarrow> ('a circular_buffer \<times> 'a circular_buffer) result" where
  "cb_copy copy other = take_over (copy_transfer copy) (make_circular_buffer (capacity other)) other"

definition cb_move :: "('a \<Rightarrow> 'a option \<times> 'a) \<Rightarrow> 'a circular_buffer \<Rightarrow> ('a circular_buffer \<times> 'a circular_buffer) result" where
  "cb_move transfer other = take_over transfer (make_circular_buffer (capacity other)) other"

text \<open>The assignments compare the addresses of the two objects; two objects of the type have one capacity.\<close>

definition cb_copy_assign ::
  "('a \<Rightarrow> 'a option) \<Rightarrow> nat \<times> 'a circular_buffer \<Rightarrow> nat \<times> 'a circular_buffer \<Rightarrow> ('a circular_buffer \<times> 'a circular_buffer) result" where
  "cb_copy_assign copy this rhs =
     (if fst this \<noteq> fst rhs
      then bind_outcome (cb_clear (snd this)) (\<lambda>b. take_over (copy_transfer copy) b (snd rhs))
      else Ret (snd this, snd rhs))"

definition cb_move_assign ::
  "('a \<Rightarrow> 'a option \<times> 'a) \<Rightarrow> nat \<times> 'a circular_buffer \<Rightarrow> nat \<times> 'a circular_buffer \<Rightarrow> ('a circular_buffer \<times> 'a circular_buffer) result" where
  "cb_move_assign transfer this rhs =
     (if fst this \<noteq> fst rhs
      then bind_outcome (cb_clear (snd this)) (\<lambda>b. take_over transfer b (snd rhs))
      else Ret (snd this, snd rhs))"

text \<open>The destructor destroys the elements in order.\<close>

definition cb_destroy :: "'a circular_buffer \<Rightarrow> 'a circular_buffer result" where
  "cb_destroy b = destroy_first (size_of b) b"

section \<open>The window of living objects\<close>

text \<open>The slot of the element at position i, counted from the head.\<close>

definition idx :: "'a circular_buffer \<Rightarrow> nat \<Rightarrow> nat" where
  "idx b i = (head b + i) mod capacity b"

text \<open>What the slots hold, by position: the general form of the representation.\<close>

definition holds :: "'a circular_buffer \<Rightarrow> (nat \<Rightarrow> 'a option) \<Rightarrow> bool" where
  "holds b f \<longleftrightarrow> 0 < capacity b \<and> head b < capacity b \<and> (\<forall>i < capacity b. array b ! idx b i = f i)"

text \<open>The buffer represents the list of its elements; every slot outside of the window is free.\<close>

definition represents :: "'a circular_buffer \<Rightarrow> 'a list \<Rightarrow> bool" where
  "represents b xs \<longleftrightarrow>
     holds b (\<lambda>i. if i < length xs then Some (xs ! i) else None)
     \<and> length xs \<le> capacity b \<and> size_of b = length xs \<and> tail b = idx b (length xs)"

definition cb_inv :: "'a circular_buffer \<Rightarrow> bool" where
  "cb_inv b \<longleftrightarrow>
     0 < capacity b \<and> head b < capacity b \<and> size_of b \<le> capacity b \<and> tail b = idx b (size_of b)
     \<and> (\<forall>i \<in> {..<capacity b}. array b ! idx b i \<noteq> None \<longleftrightarrow> i < size_of b)"

definition contents :: "'a circular_buffer \<Rightarrow> 'a list" where
  "contents b = map (\<lambda>i. the (array b ! idx b i)) [0..<size_of b]"

lemma mod_window_inj:
  fixes c :: nat assumes "(h + i) mod c = (h + j) mod c" "i < c" "j < c" shows "i = j"
proof -
  have "i' = j'" if "i' \<le> j'" "(h + j') mod c = (h + i') mod c" "j' < c" for i' j'
  proof -
    have "c dvd (h + j') - (h + i')" using that by (subst mod_eq_dvd_iff_nat[symmetric]) auto
    then have "c dvd j' - i'" by simp
    then show ?thesis using that by (auto dest: dvd_imp_le)
  qed
  from this[of i j] this[of j i] assms show ?thesis by (metis nat_le_linear)
qed

lemma idx_inj: "i < capacity b \<Longrightarrow> j < capacity b \<Longrightarrow> idx b i = idx b j \<longleftrightarrow> i = j"
  by (auto simp: idx_def dest: mod_window_inj)

lemma idx_less: "0 < capacity b \<Longrightarrow> idx b i < capacity b"
  by (simp add: idx_def)

lemma capacity_update [simp]:
  "capacity (b\<lparr> array := (array b)[k := v] \<rparr>) = capacity b"
  "capacity (b\<lparr> head := h \<rparr>) = capacity b" "capacity (b\<lparr> tail := t \<rparr>) = capacity b"
  "capacity (b\<lparr> size_of := n \<rparr>) = capacity b"
  by (simp_all add: capacity_def)

lemma idx_update [simp]:
  "idx (b\<lparr> array := (array b)[k := v] \<rparr>) i = idx b i"
  "idx (b\<lparr> tail := t \<rparr>) i = idx b i" "idx (b\<lparr> size_of := n \<rparr>) i = idx b i"
  by (simp_all add: idx_def)

lemma holds_update:
  "holds b f \<Longrightarrow> i < capacity b \<Longrightarrow> holds (b\<lparr> array := (array b)[idx b i := v] \<rparr>) (f(i := v))"
  using idx_less[of b] by (auto simp: holds_def nth_list_update idx_inj capacity_def)

lemma holds_fields [simp]:
  "holds (b\<lparr> tail := t \<rparr>) f = holds b f" "holds (b\<lparr> size_of := n \<rparr>) f = holds b f"
  by (simp_all add: holds_def)

lemma holds_cong: "holds b f \<Longrightarrow> (\<And>i. i < capacity b \<Longrightarrow> f i = g i) \<Longrightarrow> holds b g"
  by (simp add: holds_def)

lemma read_slot_holds: "holds b f \<Longrightarrow> i < capacity b \<Longrightarrow> f i = Some x \<Longrightarrow> read_slot b (idx b i) = Ret x"
  using idx_less[of b i] by (simp add: holds_def read_slot_def capacity_def)

lemma read_slot_free: "holds b f \<Longrightarrow> i < capacity b \<Longrightarrow> f i = None \<Longrightarrow> read_slot b (idx b i) = Undefined"
  using idx_less[of b i] by (simp add: holds_def read_slot_def capacity_def)

lemma destroy_slot_holds:
  "holds b f \<Longrightarrow> i < capacity b \<Longrightarrow> f i = Some x \<Longrightarrow>
   destroy_slot b (idx b i) = Ret (b\<lparr> array := (array b)[idx b i := None] \<rparr>)"
  by (simp add: destroy_slot_def read_slot_holds)

lemma construct_slot_holds:
  "holds b f \<Longrightarrow> i < capacity b \<Longrightarrow> f i = None \<Longrightarrow>
   construct_slot b (idx b i) x = Ret (b\<lparr> array := (array b)[idx b i := Some x] \<rparr>)"
  using idx_less[of b i] by (simp add: holds_def construct_slot_def capacity_def)

lemma holds_head:
  assumes "holds b f"
  shows "holds (b\<lparr> head := (head b + 1) mod capacity b \<rparr>) (\<lambda>i. f ((i + 1) mod capacity b))"
proof -
  have "idx (b\<lparr> head := (head b + 1) mod capacity b \<rparr>) i = idx b ((i + 1) mod capacity b)" for i
    by (simp add: idx_def mod_simps)
  with assms show ?thesis by (simp add: holds_def)
qed

lemma represents_inv: "cb_inv b \<longleftrightarrow> represents b (contents b)"
  by (auto simp: cb_inv_def represents_def holds_def contents_def idx_less)

lemma represents_contents: "represents b xs \<Longrightarrow> cb_inv b \<and> contents b = xs"
  by (auto simp: cb_inv_def represents_def holds_def contents_def intro!: nth_equalityI)

lemma cb_inv_cases: "cb_inv b \<Longrightarrow> (\<And>xs. represents b xs \<Longrightarrow> contents b = xs \<Longrightarrow> P) \<Longrightarrow> P"
  using represents_inv by blast

section \<open>The operations on the represented list\<close>

lemma cb_ref_represents: "represents b xs \<Longrightarrow> i < length xs \<Longrightarrow> cb_ref b i = Ret (idx b i)"
  by (simp add: represents_def cb_ref_def idx_def)

lemma read_represents: "represents b xs \<Longrightarrow> i < length xs \<Longrightarrow> read_slot b (idx b i) = Ret (xs ! i)"
  using read_slot_holds[of b "\<lambda>i. if i < length xs then Some (xs ! i) else None" i "xs ! i"]
  by (simp add: represents_def)

lemma cb_front_represents: "represents b xs \<Longrightarrow> xs \<noteq> [] \<Longrightarrow> cb_front b = Ret (idx b 0)"
  by (auto simp: cb_front_def cb_empty_def cb_deref_def checked_access_def cb_begin_def make_cb_iterator_def
      represents_def cb_ref_def idx_def)

lemma cb_back_represents: "represents b xs \<Longrightarrow> xs \<noteq> [] \<Longrightarrow> cb_back b = Ret (idx b (length xs - 1))"
  by (auto simp: cb_back_def cb_empty_def cb_deref_def checked_access_def cb_end_def make_cb_iterator_def
      it_minus_def represents_def cb_ref_def idx_def nat_diff_distrib' Suc_le_eq)

lemma pop_front_represents:
  assumes "represents b (x # xs)" shows "\<exists>b'. pop_front b = Ret b' \<and> represents b' xs \<and> capacity b' = capacity b
    \<and> (\<forall>j. idx b' j = idx b (Suc j))"
proof -
  let ?f = "\<lambda>i. if i < length (x # xs) then Some ((x # xs) ! i) else None"
  have h: "holds b ?f" "Suc (length xs) \<le> capacity b" "size_of b = Suc (length xs)" "tail b = idx b (Suc (length xs))"
    using assms by (simp_all add: represents_def)
  let ?b1 = "b\<lparr> array := (array b)[idx b 0 := None] \<rparr>"
  let ?b2 = "?b1\<lparr> head := (head ?b1 + 1) mod capacity ?b1 \<rparr>"
  have "destroy_slot b (idx b 0) = Ret ?b1" using destroy_slot_holds[OF h(1), of 0] h(2) by simp
  then have "pop_front b = Ret (?b2\<lparr> size_of := size_of ?b1 - 1 \<rparr>)"
    using cb_front_represents[OF assms] h(3) by (simp add: pop_front_def cb_empty_def)
  moreover have "holds ?b2 (\<lambda>i. if i < length xs then Some (xs ! i) else None)"
  proof (rule holds_cong[OF holds_head[OF holds_update[OF h(1)]]])
    show "0 < capacity b" using h(2) by simp
    fix i assume "i < capacity ?b2"
    then show "(?f(0 := None)) ((i + 1) mod capacity ?b1) = (if i < length xs then Some (xs ! i) else None)"
      using h(2) by (auto simp: mod_Suc)
  qed
  moreover have "idx ?b2 j = idx b (Suc j)" for j by (simp add: idx_def mod_simps)
  ultimately show ?thesis using h by (simp add: represents_def)
qed

lemma idx_Suc: "idx b (Suc n) = (if Suc (idx b n) = capacity b then 0 else Suc (idx b n))"
  by (simp add: idx_def mod_Suc)

lemma pop_back_represents:
  assumes "represents b (xs @ [x])" shows "\<exists>b'. pop_back b = Ret b' \<and> represents b' xs \<and> capacity b' = capacity b"
proof -
  let ?f = "\<lambda>i. if i < length (xs @ [x]) then Some ((xs @ [x]) ! i) else None"
  have h: "holds b ?f" "Suc (length xs) \<le> capacity b" "size_of b = Suc (length xs)" "tail b = idx b (Suc (length xs))"
    using assms by (simp_all add: represents_def)
  let ?b1 = "b\<lparr> array := (array b)[idx b (length xs) := None] \<rparr>"
  have "destroy_slot b (idx b (length xs)) = Ret ?b1" using destroy_slot_holds[OF h(1), of "length xs"] h(2) by simp
  moreover have "(if tail b = 0 then capacity b - 1 else tail b - 1) = idx b (length xs)"
    unfolding h(4) idx_Suc using h(2) idx_less[of b "length xs"] by auto
  ultimately have "pop_back b = Ret (?b1\<lparr> tail := idx b (length xs), size_of := length xs \<rparr>)"
    using cb_back_represents[OF assms] h(3) by (auto simp: pop_back_def cb_empty_def Let_def split: if_splits)
  moreover have "holds ?b1 (\<lambda>i. if i < length xs then Some (xs ! i) else None)"
    by (rule holds_cong[OF holds_update[OF h(1)]]) (use h(2) in \<open>auto simp: nth_append\<close>)
  ultimately show ?thesis using h by (simp add: represents_def)
qed

lemma construct_represents:
  assumes "represents b xs" "length xs < capacity b"
  shows "\<exists>b'. bind_outcome (construct_slot b (tail b) x) (\<lambda>b. Ret (b\<lparr> tail := (tail b + 1) mod capacity b, size_of := size_of b + 1 \<rparr>)) = Ret b'
    \<and> represents b' (xs @ [x]) \<and> capacity b' = capacity b"
proof -
  let ?f = "\<lambda>i. if i < length xs then Some (xs ! i) else None"
  have h: "holds b ?f" "size_of b = length xs" "tail b = idx b (length xs)" using assms by (simp_all add: represents_def)
  let ?b1 = "b\<lparr> array := (array b)[idx b (length xs) := Some x] \<rparr>"
  have "construct_slot b (tail b) x = Ret ?b1" using construct_slot_holds[OF h(1) assms(2)] h(3) by simp
  moreover have "holds ?b1 (\<lambda>i. if i < length (xs @ [x]) then Some ((xs @ [x]) ! i) else None)"
    by (rule holds_cong[OF holds_update[OF h(1) assms(2)]]) (auto simp: nth_append)
  moreover have "(tail b + 1) mod capacity b = idx b (Suc (length xs))" by (simp add: h(3) idx_def mod_simps)
  ultimately show ?thesis using h assms(2) by (simp add: represents_def)
qed

text \<open>The elements after an element was added to a buffer with the given capacity.\<close>

definition push_list :: "nat \<Rightarrow> 'a list \<Rightarrow> 'a \<Rightarrow> 'a list" where
  "push_list cap xs x = drop (length xs + 1 - cap) (xs @ [x])"

lemma emplace_back_external:
  assumes "represents b xs"
  shows "\<exists>b'. emplace_back b (External x) = Ret b' \<and> represents b' (push_list (capacity b) xs x) \<and> capacity b' = capacity b"
proof (cases "length xs = capacity b")
  case True
  then obtain y ys where xs: "xs = y # ys" using assms by (cases xs) (auto simp: represents_def holds_def)
  from pop_front_represents[OF assms[unfolded xs]]
  obtain b1 where b1: "pop_front b = Ret b1" "represents b1 ys" "capacity b1 = capacity b" by blast
  have "length ys < capacity b1" using True xs b1 by simp
  from construct_represents[OF b1(2) this, of x] show ?thesis
    using b1 True assms xs by (auto simp: emplace_back_def cb_full_def represents_def[of b] read_source_def push_list_def)
next
  case False
  then have "length xs < capacity b" using assms by (auto simp: represents_def)
  from construct_represents[OF assms this, of x] show ?thesis
    using False assms by (auto simp: emplace_back_def cb_full_def represents_def[of b] read_source_def push_list_def)
qed

text \<open>A reference to an element of the buffer itself is dead exactly when its element is discarded.\<close>

lemma emplace_back_slot:
  assumes "represents b xs" "i < length xs"
  shows "emplace_back b (Slot (idx b i)) =
    (if length xs = capacity b \<and> i = 0 then Undefined else emplace_back b (External (xs ! i)))"
proof (cases "length xs = capacity b")
  case True
  then obtain y ys where xs: "xs = y # ys" using assms by (cases xs) auto
  from pop_front_represents[OF assms(1)[unfolded xs]]
  obtain b1 where b1: "pop_front b = Ret b1" "represents b1 ys" "capacity b1 = capacity b" "\<And>j. idx b1 j = idx b (Suc j)" by blast
  have full: "cb_full b" using assms True by (simp add: cb_full_def represents_def)
  show ?thesis
  proof (cases i)
    case 0
    have "idx b1 (length ys) = idx b (capacity b)" using True xs b1(4)[of "length ys"] by simp
    then have "idx b 0 = idx b1 (length ys)" by (simp add: idx_def)
    moreover have "read_slot b1 (idx b1 (length ys)) = Undefined"
      using b1(2,3) True xs read_slot_free[of b1 "\<lambda>i. if i < length ys then Some (ys ! i) else None" "length ys"]
      by (auto simp: represents_def)
    ultimately show ?thesis using full b1 True 0 by (simp add: emplace_back_def read_source_def)
  next
    case (Suc j)
    then have "read_slot b1 (idx b i) = Ret (xs ! i)"
      using read_represents[OF b1(2), of j] b1(4) xs assms(2) by simp
    then show ?thesis using full b1 Suc by (simp add: emplace_back_def read_source_def)
  qed
next
  case False
  then have "\<not> cb_full b" using assms by (auto simp: cb_full_def represents_def)
  then show ?thesis using read_represents[OF assms] False by (simp add: emplace_back_def read_source_def)
qed

lemma repeat_pop_front:
  "represents b xs \<Longrightarrow> n \<le> length xs \<Longrightarrow>
   \<exists>b'. repeat_op n pop_front b = Ret b' \<and> represents b' (drop n xs) \<and> capacity b' = capacity b"
proof (induction n arbitrary: b xs)
  case (Suc n)
  then obtain x ys where xs: "xs = x # ys" by (cases xs) auto
  from pop_front_represents[OF Suc.prems(1)[unfolded xs]]
  obtain b1 where b1: "pop_front b = Ret b1" "represents b1 ys" "capacity b1 = capacity b" by blast
  with Suc.IH[OF b1(2)] Suc.prems(2) xs show ?case by auto
qed auto

lemma repeat_pop_back:
  "represents b xs \<Longrightarrow> n \<le> length xs \<Longrightarrow>
   \<exists>b'. repeat_op n pop_back b = Ret b' \<and> represents b' (take (length xs - n) xs) \<and> capacity b' = capacity b"
proof (induction n arbitrary: b xs)
  case (Suc n)
  then obtain x ys where xs: "xs = ys @ [x]" by (cases xs rule: rev_cases) auto
  from pop_back_represents[OF Suc.prems(1)[unfolded xs]]
  obtain b1 where b1: "pop_back b = Ret b1" "represents b1 ys" "capacity b1 = capacity b" by blast
  with Suc.IH[OF b1(2)] Suc.prems(2) xs show ?case by auto
qed auto

lemma clear_represents:
  "represents b xs \<Longrightarrow> \<exists>b'. cb_clear b = Ret b' \<and> represents b' [] \<and> capacity b' = capacity b"
  using repeat_pop_front[of b xs "length xs"] by (simp add: cb_clear_def represents_def)

subsection \<open>Erasing\<close>

definition at :: "nat \<Rightarrow> nat \<Rightarrow> cb_iterator" where
  "at this i = \<lparr> current = int i, container = Some this \<rparr>"

definition move_list :: "('a \<Rightarrow> 'a) \<Rightarrow> 'a list \<Rightarrow> nat \<Rightarrow> nat \<Rightarrow> 'a list" where
  "move_list moved xs i j = (xs[j := xs ! i])[i := moved (xs ! i)]"

lemma cb_deref_at: "represents b xs \<Longrightarrow> i < length xs \<Longrightarrow> cb_deref b (at this i) = Ret (idx b i)"
  using cb_ref_represents[of b xs i] by (simp add: cb_deref_def checked_access_def at_def represents_def)

lemma assign_represents:
  assumes "represents b xs" "j < length xs"
  shows "\<exists>b'. assign_slot b (idx b j) y = Ret b' \<and> represents b' (xs[j := y]) \<and> capacity b' = capacity b \<and> idx b' = idx b"
proof -
  let ?f = "\<lambda>i. if i < length xs then Some (xs ! i) else None"
  have h: "holds b ?f" "j < capacity b" using assms by (simp_all add: represents_def)
  let ?b1 = "b\<lparr> array := (array b)[idx b j := Some y] \<rparr>"
  have "assign_slot b (idx b j) y = Ret ?b1" using read_represents[OF assms] by (simp add: assign_slot_def)
  moreover have "holds ?b1 (\<lambda>i. if i < length (xs[j := y]) then Some (xs[j := y] ! i) else None)"
    by (rule holds_cong[OF holds_update[OF h]]) (use assms(2) in \<open>auto simp: nth_list_update\<close>)
  moreover have "idx ?b1 = idx b" by (rule ext) simp
  ultimately show ?thesis using assms(1) by (simp add: represents_def)
qed

lemma move_assign_represents:
  assumes "represents b xs" "i < length xs" "j < length xs"
  shows "\<exists>b'. move_assign moved b (at this i) (at this j) = Ret b' \<and> represents b' (move_list moved xs i j) \<and> capacity b' = capacity b"
proof -
  obtain b1 where b1: "assign_slot b (idx b j) (xs ! i) = Ret b1" "represents b1 (xs[j := xs ! i])"
    "capacity b1 = capacity b" "idx b1 = idx b"
    using assign_represents[OF assms(1,3)] by blast
  then obtain b2 where "assign_slot b1 (idx b1 i) (moved (xs ! i)) = Ret b2" "represents b2 (move_list moved xs i j)"
    "capacity b2 = capacity b1"
    using assign_represents[of b1 "xs[j := xs ! i]" i] assms(2) by (fastforce simp: move_list_def)
  then show ?thesis using assms b1 by (simp add: move_assign_def cb_deref_at read_represents)
qed

fun move_backward_list :: "('a \<Rightarrow> 'a) \<Rightarrow> nat \<Rightarrow> 'a list \<Rightarrow> nat \<Rightarrow> nat \<Rightarrow> 'a list" where
  "move_backward_list moved 0 xs p q = xs"
| "move_backward_list moved (Suc n) xs p q = move_backward_list moved n (move_list moved xs (p - 1) (q - 1)) (p - 1) (q - 1)"

fun move_range_list :: "('a \<Rightarrow> 'a) \<Rightarrow> nat \<Rightarrow> 'a list \<Rightarrow> nat \<Rightarrow> nat \<Rightarrow> 'a list" where
  "move_range_list moved 0 xs p q = xs"
| "move_range_list moved (Suc n) xs p q = move_range_list moved n (move_list moved xs p q) (Suc p) (Suc q)"

lemma length_move_list [simp]: "length (move_list moved xs i j) = length xs"
  by (simp add: move_list_def)

lemma length_moves [simp]:
  "length (move_backward_list moved n xs p q) = length xs" "length (move_range_list moved n xs p q) = length xs"
  by (induction n arbitrary: xs p q) simp_all

lemma it_step_at: "it_increment (at this i) = at this (Suc i)" "0 < i \<Longrightarrow> it_decrement (at this i) = at this (i - 1)"
  by (simp_all add: it_increment_def it_decrement_def at_def)

lemma move_backward_represents:
  "represents b xs \<Longrightarrow> n \<le> p \<Longrightarrow> p \<le> q \<Longrightarrow> q \<le> length xs \<Longrightarrow>
   \<exists>b'. move_backward moved n b (at this p) (at this q) = Ret b' \<and> represents b' (move_backward_list moved n xs p q)
     \<and> capacity b' = capacity b"
proof (induction n arbitrary: b xs p q)
  case (Suc n)
  then have pq: "0 < p" "0 < q" "p - 1 < length xs" "q - 1 < length xs" by auto
  obtain b1 where b1: "move_assign moved b (at this (p - 1)) (at this (q - 1)) = Ret b1"
    "represents b1 (move_list moved xs (p - 1) (q - 1))" "capacity b1 = capacity b"
    using move_assign_represents[OF Suc.prems(1) pq(3,4)] by blast
  have "\<exists>b'. move_backward moved n b1 (at this (p - 1)) (at this (q - 1)) = Ret b'
      \<and> represents b' (move_backward_list moved n (move_list moved xs (p - 1) (q - 1)) (p - 1) (q - 1)) \<and> capacity b' = capacity b1"
    by (rule Suc.IH[OF b1(2)]) (use Suc.prems in auto)
  then show ?case using b1 pq(1,2) by (simp add: it_step_at)
qed auto

lemma move_range_represents:
  "represents b xs \<Longrightarrow> q \<le> p \<Longrightarrow> p + n \<le> length xs \<Longrightarrow>
   \<exists>b'. move_range moved n b (at this p) (at this q) = Ret b' \<and> represents b' (move_range_list moved n xs p q)
     \<and> capacity b' = capacity b"
proof (induction n arbitrary: b xs p q)
  case (Suc n)
  obtain b1 where b1: "move_assign moved b (at this p) (at this q) = Ret b1"
    "represents b1 (move_list moved xs p q)" "capacity b1 = capacity b"
    using move_assign_represents[OF Suc.prems(1), of p q] Suc.prems by auto
  have "\<exists>b'. move_range moved n b1 (at this (Suc p)) (at this (Suc q)) = Ret b'
      \<and> represents b' (move_range_list moved n (move_list moved xs p q) (Suc p) (Suc q)) \<and> capacity b' = capacity b1"
    by (rule Suc.IH[OF b1(2)]) (use Suc.prems in auto)
  then show ?case using b1 by (simp add: it_step_at)
qed auto

lemma nth_move_list:
  "i < length xs \<Longrightarrow> j < length xs \<Longrightarrow> k < length xs \<Longrightarrow>
   move_list moved xs i j ! k = (if k = i then moved (xs ! i) else if k = j then xs ! i else xs ! k)"
  by (simp add: move_list_def nth_list_update)

lemma nth_move_backward_list:
  "n \<le> p \<Longrightarrow> p < q \<Longrightarrow> q \<le> length xs \<Longrightarrow> k < length xs \<Longrightarrow> q - n \<le> k \<Longrightarrow>
   move_backward_list moved n xs p q ! k = (if k < q then xs ! (k - (q - p)) else xs ! k)"
proof (induction n arbitrary: xs p q)
  case (Suc n)
  let ?xs = "move_list moved xs (p - 1) (q - 1)"
  have IH: "move_backward_list moved n ?xs (p - 1) (q - 1) ! k =
      (if k < q - 1 then ?xs ! (k - (q - p)) else ?xs ! k)"
    using Suc.IH[of "p - 1" "q - 1" ?xs] Suc.prems by (simp add: diff_diff_eq)
  show ?case
    unfolding move_backward_list.simps IH using Suc.prems by (auto simp: nth_move_list)
qed simp

lemma nth_move_range_list:
  "q < p \<Longrightarrow> p + n \<le> length xs \<Longrightarrow> k < q + n \<Longrightarrow>
   move_range_list moved n xs p q ! k = (if k < q then xs ! k else xs ! (k + (p - q)))"
proof (induction n arbitrary: xs p q)
  case (Suc n)
  let ?xs = "move_list moved xs p q"
  have IH: "move_range_list moved n ?xs (Suc p) (Suc q) ! k =
      (if k < Suc q then ?xs ! k else ?xs ! (k + (p - q)))"
    using Suc.IH[of "Suc q" "Suc p" ?xs] Suc.prems by simp
  show ?case
    unfolding move_range_list.simps IH using Suc.prems by (auto simp: nth_move_list)
qed simp

lemma nth_move_self:
  "n \<le> p \<Longrightarrow> p \<le> length xs \<Longrightarrow> k < length xs \<Longrightarrow>
   move_backward_list moved n xs p p ! k = (if p - n \<le> k \<and> k < p then moved (xs ! k) else xs ! k)"
  "p + n \<le> length xs \<Longrightarrow> k < length xs \<Longrightarrow>
   move_range_list moved n xs p p ! k = (if p \<le> k \<and> k < p + n then moved (xs ! k) else xs ! k)"
proof (induction n arbitrary: xs p)
  case (Suc n)
  case 1
  then show ?case using Suc(1)[of "p - 1" "move_list moved xs (p - 1) (p - 1)"] by (auto simp: nth_move_list)
next
  case (Suc n)
  case 2
  then show ?case using Suc(2)[of "Suc p" "move_list moved xs p p"] by (auto simp: nth_move_list)
qed auto

text \<open>
  The elements after a range was erased. An empty range has all elements on the shorter side
  moved onto themselves, which leaves in them what a move leaves in its source.
\<close>

definition erase_list :: "('a \<Rightarrow> 'a) \<Rightarrow> nat \<Rightarrow> nat \<Rightarrow> 'a list \<Rightarrow> 'a list" where
  "erase_list moved f l xs =
     (if f < l then take f xs @ drop l xs
      else if f \<le> length xs - l then map moved (take f xs) @ drop f xs
      else take f xs @ map moved (drop f xs))"

lemma erase_list_id: "f \<le> l \<Longrightarrow> moved = (\<lambda>x. x) \<Longrightarrow> erase_list moved f l xs = take f xs @ drop l xs"
  by (auto simp: erase_list_def)

lemma drop_move_backward:
  assumes "f \<le> l" "l \<le> length xs" "f \<le> length xs - l"
  shows "drop (l - f) (move_backward_list moved f xs f l) = erase_list moved f l xs"
proof (cases "f = l")
  case True
  then show ?thesis using assms
    by (intro nth_equalityI) (auto simp: erase_list_def nth_move_self nth_append)
next
  case False
  then show ?thesis using assms
    by (intro nth_equalityI) (auto simp: erase_list_def nth_move_backward_list nth_append)
qed

lemma take_move_range:
  assumes "f \<le> l" "l \<le> length xs" "\<not> f \<le> length xs - l"
  shows "take (length xs - (l - f)) (move_range_list moved (length xs - l) xs l f) = erase_list moved f l xs"
proof (cases "f = l")
  case True
  then show ?thesis using assms
    by (intro nth_equalityI) (auto simp: erase_list_def nth_move_self nth_append)
next
  case False
  then show ?thesis using assms
    by (intro nth_equalityI) (auto simp: erase_list_def nth_move_range_list nth_append add.commute)
qed

lemma erase_range_represents:
  assumes b: "represents b xs" and r: "f \<le> l" "l \<le> length xs"
  shows "\<exists>b'. erase_range moved this b (at this f) (at this l) = Ret (b', at this f)
    \<and> represents b' (erase_list moved f l xs) \<and> capacity b' = capacity b"
proof -
  have lf: "l - f \<le> length xs" using r by simp
  have size: "size_of b = length xs" using b by (simp add: represents_def)
  have last: "it_minus (at this l) (int l - int f) = at this f" by (simp add: it_minus_def at_def)
  have guards: "erase_range moved this b (at this f) (at this l) =
    bind_outcome
      (if f \<le> length xs - l
       then bind_outcome (move_backward moved f b (at this f) (at this l)) (repeat_op (l - f) pop_front)
       else bind_outcome (move_range moved (length xs - l) b (at this l) (at this f)) (repeat_op (l - f) pop_back))
      (\<lambda>b. Ret (b, at this f))"
  proof -
    have c: "int f \<le> int (length xs) - int l \<longleftrightarrow> f \<le> length xs - l" using r by auto
    have n: "nat (int l - int f) = l - f" "nat (int (length xs) - int l) = length xs - l" using r by auto
    have i: "cb_begin this b = at this 0" "cb_end this b = at this (length xs)"
      by (simp_all add: cb_begin_def cb_end_def make_cb_iterator_def at_def size)
    have "it_less_equal (at this u) (at this v) = Ret (u \<le> v)" "it_distance (at this u) (at this v) = Ret (int u - int v)"
      "container (at this u) = Some this" for u v
      by (auto simp: it_less_equal_def it_less_def it_distance_def at_def)
    with r c n last show ?thesis by (simp add: erase_range_def precondition_def i)
  qed
  show ?thesis
  proof (cases "f \<le> length xs - l")
    case True
    obtain b1 where b1: "move_backward moved f b (at this f) (at this l) = Ret b1"
      "represents b1 (move_backward_list moved f xs f l)" "capacity b1 = capacity b"
      using move_backward_represents[OF b, of f f l] r by auto
    obtain b2 where "repeat_op (l - f) pop_front b1 = Ret b2" "represents b2 (drop (l - f) (move_backward_list moved f xs f l))"
      "capacity b2 = capacity b1"
      using repeat_pop_front[OF b1(2), of "l - f"] lf by auto
    then show ?thesis using b1 True guards drop_move_backward[OF r True] by auto
  next
    case False
    obtain b1 where b1: "move_range moved (length xs - l) b (at this l) (at this f) = Ret b1"
      "represents b1 (move_range_list moved (length xs - l) xs l f)" "capacity b1 = capacity b"
      using move_range_represents[OF b, of f l "length xs - l"] r by auto
    obtain b2 where "repeat_op (l - f) pop_back b1 = Ret b2"
      "represents b2 (take (length xs - (l - f)) (move_range_list moved (length xs - l) xs l f))" "capacity b2 = capacity b1"
      using repeat_pop_back[OF b1(2), of "l - f"] lf by auto
    then show ?thesis using b1 False guards take_move_range[OF r False] by auto
  qed
qed

subsection \<open>Copy and move\<close>

lemma represents_nil_iff:
  "represents b [] \<longleftrightarrow> holds b (\<lambda>_. None) \<and> size_of b = 0 \<and> tail b = head b"
  by (auto simp: represents_def holds_def idx_def)

lemma make_represents: "0 < cap \<Longrightarrow> represents (make_circular_buffer cap) []"
  by (simp add: represents_nil_iff holds_def make_circular_buffer_def capacity_def idx_def)

lemma capacity_make [simp]: "capacity (make_circular_buffer cap) = cap"
  by (simp add: make_circular_buffer_def capacity_def)

lemma all_free_holds: "holds b (\<lambda>_. None) \<longleftrightarrow> 0 < capacity b \<and> head b < capacity b \<and> set (array b) \<subseteq> {None}"
proof
  assume h: "holds b (\<lambda>_. None)"
  then have cap: "0 < capacity b" by (simp add: holds_def)
  have "bij_betw (idx b) {..<capacity b} {..<capacity b}"
  proof -
    have "inj_on (idx b) {..<capacity b}" by (auto simp: inj_on_def idx_inj)
    moreover have "idx b ` {..<capacity b} \<subseteq> {..<capacity b}" using idx_less[OF cap] by auto
    ultimately show ?thesis by (simp add: bij_betw_def endo_inj_surj)
  qed
  then have "\<exists>i < capacity b. k = idx b i" if "k < capacity b" for k
    using that by (metis bij_betw_imp_surj_on imageE lessThan_iff)
  with h show "0 < capacity b \<and> head b < capacity b \<and> set (array b) \<subseteq> {None}"
    by (auto simp: holds_def in_set_conv_nth capacity_def) (metis capacity_def option.distinct(1))
next
  assume h: "0 < capacity b \<and> head b < capacity b \<and> set (array b) \<subseteq> {None}"
  then have "array b ! idx b i \<in> set (array b)" for i
    using idx_less[of b i] by (simp add: capacity_def)
  then have "array b ! idx b i = None" for i using h by blast
  with h show "holds b (\<lambda>_. None)" by (simp add: holds_def)
qed


lemma destroy_first_holds:
  assumes "holds b (\<lambda>k. if k < n then Some (ys k) else None)" "n \<le> capacity b" "n \<le> size_of b" "m \<le> n"
  shows "\<exists>b'. destroy_first m b = Ret b' \<and> holds b' (\<lambda>k. if m \<le> k \<and> k < n then Some (ys k) else None)
    \<and> capacity b' = capacity b \<and> size_of b' = size_of b"
  using assms(4)
proof (induction m)
  case 0
  with assms show ?case by simp
next
  case (Suc m)
  then obtain b1 where b1: "destroy_first m b = Ret b1" "holds b1 (\<lambda>k. if m \<le> k \<and> k < n then Some (ys k) else None)"
    "capacity b1 = capacity b" "size_of b1 = size_of b" by auto
  have m: "m < capacity b1" "cb_ref b1 m = Ret (idx b1 m)" using Suc.prems assms b1 by (auto simp: cb_ref_def idx_def)
  have "destroy_slot b1 (idx b1 m) = Ret (b1\<lparr> array := (array b1)[idx b1 m := None] \<rparr>)"
    using destroy_slot_holds[OF b1(2) m(1)] Suc.prems by simp
  moreover have "holds (b1\<lparr> array := (array b1)[idx b1 m := None] \<rparr>) (\<lambda>k. if Suc m \<le> k \<and> k < n then Some (ys k) else None)"
    by (rule holds_cong[OF holds_update[OF b1(2) m(1)]]) auto
  ultimately show ?case using b1 m by simp
qed

text \<open>The state after the first i elements were transferred.\<close>

definition transferring ::
  "('a \<Rightarrow> 'a option \<times> 'a) \<Rightarrow> 'a list \<Rightarrow> nat \<Rightarrow> 'a circular_buffer \<Rightarrow> 'a circular_buffer \<Rightarrow> bool" where
  "transferring t xs i other b \<longleftrightarrow>
     represents other (map (snd \<circ> t) (take i xs) @ drop i xs) \<and> capacity b = capacity other \<and> size_of b = length xs
     \<and> holds b (\<lambda>k. if k < i then fst (t (xs ! k)) else None) \<and> (\<forall>k < i. fst (t (xs ! k)) \<noteq> None) \<and> i \<le> length xs"

lemma transfer_step:
  assumes "transferring t xs i other b" "i < length xs"
  shows "\<exists>other'. uninitialized_transfer t (Suc n) other i b =
      (case fst (t (xs ! i)) of
         None \<Rightarrow> bind_outcome (destroy_first i b) (\<lambda>b. Ret (False, other', b))
       | Some y \<Rightarrow> uninitialized_transfer t n other' (Suc i) (b\<lparr> array := (array b)[idx b i := Some y] \<rparr>))
    \<and> represents other' (map (snd \<circ> t) (take (Suc i) xs) @ drop (Suc i) xs) \<and> capacity other' = capacity other"
proof -
  let ?zs = "map (snd \<circ> t) (take i xs) @ drop i xs"
  have o: "represents other ?zs" and b: "holds b (\<lambda>k. if k < i then fst (t (xs ! k)) else None)" "i < capacity b"
    "cb_ref b i = Ret (idx b i)"
    using assms by (auto simp: transferring_def represents_def cb_ref_def idx_def)
  have z: "i < length ?zs" "?zs ! i = xs ! i" using assms(2) by (simp_all add: nth_append)
  obtain other' where o': "assign_slot other (idx other i) (snd (t (xs ! i))) = Ret other'"
    "represents other' (?zs[i := snd (t (xs ! i))])" "capacity other' = capacity other"
    using assign_represents[OF o z(1)] by blast
  have "?zs[i := snd (t (xs ! i))] = map (snd \<circ> t) (take (Suc i) xs) @ drop (Suc i) xs"
    using assms(2) by (simp add: list_update_append take_Suc_conv_app_nth Cons_nth_drop_Suc[symmetric])
  moreover have "construct_slot b (idx b i) y = Ret (b\<lparr> array := (array b)[idx b i := Some y] \<rparr>)" for y
    using construct_slot_holds[OF b(1,2)] by simp
  ultimately show ?thesis
    using o' z cb_ref_represents[OF o z(1)] read_represents[OF o z(1)] b(3)
    by (intro exI[of _ other']) (auto split: option.split)
qed

lemma transfer_all:
  assumes "transferring t xs i other b" "i + n = length xs" "\<forall>x \<in> set (drop i xs). fst (t x) \<noteq> None"
  shows "\<exists>other' b'. uninitialized_transfer t n other i b = Ret (True, other', b') \<and> transferring t xs (length xs) other' b'
    \<and> head b' = head b \<and> tail b' = tail b \<and> capacity b' = capacity b"
  using assms
proof (induction n arbitrary: i other b)
  case (Suc n)
  then have i: "i < length xs" by simp
  then obtain y where y: "fst (t (xs ! i)) = Some y" using Suc.prems(3) by (metis Cons_nth_drop_Suc list.set_intros(1) option.exhaust)
  let ?b = "b\<lparr> array := (array b)[idx b i := Some y] \<rparr>"
  obtain other1 where o1: "uninitialized_transfer t (Suc n) other i b = uninitialized_transfer t n other1 (Suc i) ?b"
    "represents other1 (map (snd \<circ> t) (take (Suc i) xs) @ drop (Suc i) xs)" "capacity other1 = capacity other"
    using transfer_step[OF Suc.prems(1) i, of n] y by auto
  have hb: "holds b (\<lambda>k. if k < i then fst (t (xs ! k)) else None)" "i < capacity b"
    using Suc.prems(1) i by (auto simp: transferring_def represents_def)
  have "holds ?b (\<lambda>k. if k < Suc i then fst (t (xs ! k)) else None)"
    by (rule holds_cong[OF holds_update[OF hb]]) (auto simp: y less_Suc_eq)
  then have "transferring t xs (Suc i) other1 ?b"
    using o1 Suc.prems(1) i y by (auto simp: transferring_def less_Suc_eq)
  moreover have "\<forall>x \<in> set (drop (Suc i) xs). fst (t x) \<noteq> None"
    using Suc.prems(3) set_drop_subset_set_drop[of i "Suc i" xs] by auto
  ultimately show ?case using Suc.IH[of "Suc i" other1 ?b] Suc.prems(2) unfolding o1(1) by simp
qed (auto simp: transferring_def)

lemma transfer_throws:
  assumes "transferring t xs i other b" "i + n = length xs" "\<exists>x \<in> set (drop i xs). fst (t x) = None"
  shows "\<exists>other' b' j. uninitialized_transfer t n other i b = Ret (False, other', b') \<and> holds b' (\<lambda>_. None)
    \<and> represents other' (map (snd \<circ> t) (take j xs) @ drop j xs) \<and> capacity b' = capacity b"
  using assms
proof (induction n arbitrary: i other b)
  case (Suc n)
  then have i: "i < length xs" by simp
  have hb: "holds b (\<lambda>k. if k < i then fst (t (xs ! k)) else None)" "i < capacity b" "i \<le> size_of b"
    and ok: "\<forall>k < i. fst (t (xs ! k)) \<noteq> None"
    using Suc.prems(1) i by (auto simp: transferring_def represents_def)
  obtain other1 where o1: "uninitialized_transfer t (Suc n) other i b =
      (case fst (t (xs ! i)) of
         None \<Rightarrow> bind_outcome (destroy_first i b) (\<lambda>b. Ret (False, other1, b))
       | Some y \<Rightarrow> uninitialized_transfer t n other1 (Suc i) (b\<lparr> array := (array b)[idx b i := Some y] \<rparr>))"
    "represents other1 (map (snd \<circ> t) (take (Suc i) xs) @ drop (Suc i) xs)" "capacity other1 = capacity other"
    using transfer_step[OF Suc.prems(1) i, of n] by blast
  show ?case
  proof (cases "fst (t (xs ! i))")
    case None
    have "holds b (\<lambda>k. if k < i then Some (the (fst (t (xs ! k)))) else None)"
      by (rule holds_cong[OF hb(1)]) (use ok in auto)
    from destroy_first_holds[OF this _ hb(3) order.refl] hb(2)
    obtain b' where "destroy_first i b = Ret b'" "holds b' (\<lambda>k. if i \<le> k \<and> k < i then Some (the (fst (t (xs ! k)))) else None)"
      "capacity b' = capacity b" by auto
    moreover have "(\<lambda>k. if i \<le> k \<and> k < i then Some (the (fst (t (xs ! k)))) else None) = (\<lambda>_. None)" by auto
    ultimately have "uninitialized_transfer t (Suc n) other i b = Ret (False, other1, b') \<and> holds b' (\<lambda>_. None) \<and> capacity b' = capacity b"
      unfolding o1(1) by (simp add: None)
    then show ?thesis using o1(2) by blast
  next
    case (Some y)
    let ?b = "b\<lparr> array := (array b)[idx b i := Some y] \<rparr>"
    have "holds ?b (\<lambda>k. if k < Suc i then fst (t (xs ! k)) else None)"
      by (rule holds_cong[OF holds_update[OF hb(1,2)]]) (auto simp: Some less_Suc_eq)
    then have "transferring t xs (Suc i) other1 ?b"
      using o1 Suc.prems(1) i Some by (auto simp: transferring_def less_Suc_eq)
    moreover have "\<exists>x \<in> set (drop (Suc i) xs). fst (t x) = None"
      using Suc.prems(3) Some Cons_nth_drop_Suc[OF i] by (metis option.distinct(1) set_ConsD)
    ultimately show ?thesis using Suc.IH[of "Suc i" other1 ?b] Suc.prems(2) unfolding o1(1) Some by simp
  qed
qed simp

lemma take_over_represents:
  assumes "represents b []" "represents other xs" "capacity b = capacity other"
  shows "\<exists>b' other' j. take_over t b other = Ret (b', other')
    \<and> (if \<forall>x \<in> set xs. fst (t x) \<noteq> None
       then represents b' (map (the \<circ> fst \<circ> t) xs) \<and> represents other' (map (snd \<circ> t) xs)
       else represents b' [] \<and> represents other' (map (snd \<circ> t) (take j xs) @ drop j xs))
    \<and> capacity b' = capacity b"
proof -
  let ?b = "b\<lparr> tail := tail other, head := head other, size_of := size_of other \<rparr>"
  have free: "set (array b) \<subseteq> {None}" using assms(1) by (simp add: represents_nil_iff all_free_holds)
  have o: "size_of other = length xs" "head other < capacity other" "tail other = idx other (length xs)" "length xs \<le> capacity other"
    using assms(2) by (simp_all add: represents_def holds_def)
  have capb: "capacity ?b = capacity other" using assms(3) by (simp add: capacity_def)
  have "holds ?b (\<lambda>_. None)" using free o capb by (simp add: all_free_holds)
  then have tr: "transferring t xs 0 other ?b" using assms(2) capb o by (simp add: transferring_def)
  show ?thesis
  proof (cases "\<forall>x \<in> set xs. fst (t x) \<noteq> None")
    case True
    then obtain other' b' where r: "uninitialized_transfer t (length xs) other 0 ?b = Ret (True, other', b')"
      "transferring t xs (length xs) other' b'" "head b' = head ?b" "tail b' = tail ?b" "capacity b' = capacity ?b"
      using transfer_all[OF tr, of "length xs"] by auto
    have "holds b' (\<lambda>k. if k < length (map (the \<circ> fst \<circ> t) xs) then Some (map (the \<circ> fst \<circ> t) xs ! k) else None)"
      by (rule holds_cong[of b' "\<lambda>k. if k < length xs then fst (t (xs ! k)) else None"])
        (use r(2) True in \<open>auto simp: transferring_def\<close>)
    moreover have "tail b' = idx b' (length xs)" "capacity b' = capacity b"
      using r(3-5) o(3) capb assms(3) by (simp_all add: idx_def)
    ultimately have "represents b' (map (the \<circ> fst \<circ> t) xs)" using r o assms by (auto simp: represents_def transferring_def)
    then show ?thesis using True r o(1) by (auto simp: take_over_def Let_def transferring_def)
  next
    case False
    then obtain other' b' j where r: "uninitialized_transfer t (length xs) other 0 ?b = Ret (False, other', b')"
      "holds b' (\<lambda>_. None)" "represents other' (map (snd \<circ> t) (take j xs) @ drop j xs)" "capacity b' = capacity ?b"
      using transfer_throws[OF tr, of "length xs"] by auto
    have "represents (b'\<lparr> tail := 0, head := 0, size_of := 0 \<rparr>) []"
      using r(2) by (simp add: represents_nil_iff all_free_holds capacity_def)
    then show ?thesis using False r o(1) capb assms(3) by (auto simp: take_over_def Let_def)
  qed
qed

section \<open>Interfaces\<close>

text \<open>
  What the users of the container rely on: a bounded buffer that discards its oldest elements,
  and the removal of elements at both ends.
\<close>

fun push_all :: "('b \<Rightarrow> 'a \<Rightarrow> 'b result) \<Rightarrow> 'b \<Rightarrow> 'a list \<Rightarrow> 'b result" where
  "push_all push b [] = Ret b"
| "push_all push b (x # xs) = bind_outcome (push b x) (\<lambda>b. push_all push b xs)"

locale bounded_history =
  fixes inv :: "'b \<Rightarrow> bool" and elems :: "'b \<Rightarrow> 'a list" and limit :: "'b \<Rightarrow> nat" and push :: "'b \<Rightarrow> 'a \<Rightarrow> 'b result"
  assumes bounded: "inv b \<Longrightarrow> length (elems b) \<le> limit b"
    and push_law: "inv b \<Longrightarrow> \<exists>b'. push b x = Ret b' \<and> inv b' \<and> limit b' = limit b
      \<and> elems b' = drop (length (elems b) + 1 - limit b) (elems b @ [x])"
begin

lemma history:
  "inv b \<Longrightarrow> \<exists>b'. push_all push b xs = Ret b' \<and> inv b' \<and> limit b' = limit b
     \<and> elems b' = drop (length (elems b @ xs) - limit b) (elems b @ xs)"
proof (induction xs arbitrary: b)
  case Nil
  then show ?case using bounded[of b] by simp
next
  case (Cons x xs)
  then obtain b1 where b1: "push b x = Ret b1" "inv b1" "limit b1 = limit b"
    "elems b1 = drop (length (elems b) + 1 - limit b) (elems b @ [x])" using push_law by blast
  let ?d = "length (elems b) + 1 - limit b"
  from Cons.IH[OF b1(2)] obtain b2 where b2: "push_all push b1 xs = Ret b2" "inv b2" "limit b2 = limit b1"
    "elems b2 = drop (length (elems b1 @ xs) - limit b1) (elems b1 @ xs)" by blast
  let ?z = "elems b @ x # xs"
  have e: "elems b1 @ xs = drop ?d ?z" using b1(4) drop_append[of ?d "elems b @ [x]" xs] by simp
  have "length ?z - ?d - limit b + ?d = length ?z - limit b" by auto
  then have "elems b2 = drop (length ?z - limit b) ?z" unfolding b2(4) e b1(3) drop_drop length_drop by simp
  then show ?case using b1 b2 by simp
qed

end

locale bounded_deque = bounded_history +
  fixes pop_first :: "'b \<Rightarrow> 'b result" and pop_last :: "'b \<Rightarrow> 'b result"
  assumes pop_first_law: "inv b \<Longrightarrow> \<exists>b'. pop_first b = Ret b' \<and> inv b' \<and> limit b' = limit b \<and> elems b' = tl (elems b)"
    and pop_last_law: "inv b \<Longrightarrow> \<exists>b'. pop_last b = Ret b' \<and> inv b' \<and> limit b' = limit b \<and> elems b' = butlast (elems b)"
begin

lemma drain_first:
  "inv b \<Longrightarrow> \<exists>b'. repeat_op n pop_first b = Ret b' \<and> inv b' \<and> limit b' = limit b \<and> elems b' = drop n (elems b)"
proof (induction n arbitrary: b)
  case (Suc n)
  then obtain b1 where b1: "pop_first b = Ret b1" "inv b1" "limit b1 = limit b" "elems b1 = tl (elems b)"
    using pop_first_law by blast
  from Suc.IH[OF b1(2)] b1 show ?case by (auto simp: drop_Suc)
qed simp

lemma drain_last:
  "inv b \<Longrightarrow> \<exists>b'. repeat_op n pop_last b = Ret b' \<and> inv b' \<and> limit b' = limit b
     \<and> elems b' = take (length (elems b) - n) (elems b)"
proof (induction n arbitrary: b)
  case (Suc n)
  then obtain b1 where b1: "pop_last b = Ret b1" "inv b1" "limit b1 = limit b" "elems b1 = butlast (elems b)"
    using pop_last_law by blast
  from Suc.IH[OF b1(2)] b1 show ?case by (auto simp: take_butlast butlast_conv_take min_def)
qed simp

end

lemma push_back_inv:
  assumes "cb_inv b"
  shows "\<exists>b'. push_back b (External x) = Ret b' \<and> cb_inv b' \<and> capacity b' = capacity b
    \<and> contents b' = push_list (capacity b) (contents b) x"
  using emplace_back_external[OF assms[unfolded represents_inv], of x] represents_contents
  unfolding push_back_def by blast

lemma pop_front_inv:
  assumes "cb_inv b"
  shows "\<exists>b'. pop_front b = Ret b' \<and> cb_inv b' \<and> capacity b' = capacity b \<and> contents b' = tl (contents b)"
proof (cases "contents b")
  case Nil
  then have "cb_empty b" by (simp add: contents_def cb_empty_def)
  then show ?thesis using assms Nil by (simp add: pop_front_def)
next
  case (Cons x xs)
  have "represents b (x # xs)" using assms[unfolded represents_inv] Cons by simp
  from pop_front_represents[OF this] show ?thesis using represents_contents Cons by fastforce
qed

lemma pop_back_inv:
  assumes "cb_inv b"
  shows "\<exists>b'. pop_back b = Ret b' \<and> cb_inv b' \<and> capacity b' = capacity b \<and> contents b' = butlast (contents b)"
proof (cases "contents b" rule: rev_cases)
  case Nil
  then have "cb_empty b" by (simp add: contents_def cb_empty_def)
  then show ?thesis using assms Nil by (simp add: pop_back_def)
next
  case (snoc xs x)
  have "represents b (xs @ [x])" using assms[unfolded represents_inv] snoc by simp
  from pop_back_represents[OF this] show ?thesis using represents_contents snoc by fastforce
qed

interpretation cb: bounded_deque cb_inv contents capacity "\<lambda>b x. push_back b (External x)" pop_front pop_back
proof
  fix b :: "'a circular_buffer" and x
  assume "cb_inv b"
  then show "length (contents b) \<le> capacity b" by (simp add: contents_def cb_inv_def)
  from \<open>cb_inv b\<close> show "\<exists>b'. push_back b (External x) = Ret b' \<and> cb_inv b' \<and> capacity b' = capacity b
      \<and> contents b' = drop (length (contents b) + 1 - capacity b) (contents b @ [x])"
    using push_back_inv[of b x] by (simp add: push_list_def)
qed (rule pop_front_inv pop_back_inv; assumption)+

section \<open>Properties\<close>

lemma contents_size: "cb_inv b \<Longrightarrow> length (contents b) = size_of b"
  by (simp add: contents_def)

lemma access_inv:
  assumes "cb_inv b" "n < size_of b"
  shows "\<exists>i. cb_ref b n = Ret i \<and> read_slot b i = Ret (contents b ! n)"
proof -
  have r: "represents b (contents b)" using assms(1) by (simp add: represents_inv)
  have "n < length (contents b)" using assms contents_size by metis
  then show ?thesis using cb_ref_represents[OF r] read_represents[OF r] by blast
qed

lemma make_inv:
  assumes "0 < cap"
  shows "cb_inv (make_circular_buffer cap :: 'a circular_buffer)" "contents (make_circular_buffer cap :: 'a circular_buffer) = []"
  using represents_contents[OF make_represents[OF assms]] by blast+

lemma filled_buffer:
  assumes "0 < cap" "length xs \<le> cap"
  obtains b where "cb_inv b" "contents b = xs" "capacity b = cap"
proof -
  obtain b where "cb_inv b" "capacity b = cap" "contents b = drop (length xs - cap) xs"
    using cb.history[OF make_inv(1)[OF assms(1)], of xs] by (auto simp: make_inv(2)[OF assms(1)])
  then show thesis using that assms(2) by simp
qed

text \<open>
  C13: The circular buffer keeps a history: after any sequence of elements was added to a valid buffer, it
  holds the last \<open>capacity()\<close> elements of what it held before followed by the sequence, in order, and
  is valid again. No addition aborts, leaks an object or touches a dead one.
\<close>

theorem push_back_history:
  assumes "cb_inv b"
  shows "\<exists>b'. push_all (\<lambda>b x. push_back b (External x)) b xs = Ret b' \<and> cb_inv b' \<and> capacity b' = capacity b
    \<and> contents b' = drop (length (contents b @ xs) - capacity b) (contents b @ xs)"
  by (rule cb.history[OF assms])

theorem push_back_history_witness:
  "cb_inv (make_circular_buffer 2 :: nat circular_buffer)
   \<and> (\<exists>b'. push_all (\<lambda>b x. push_back b (External x)) (make_circular_buffer 2) [1, 2, 3 :: nat] = Ret b' \<and> contents b' = [2, 3])"
proof -
  have i: "cb_inv (make_circular_buffer 2 :: nat circular_buffer)" "contents (make_circular_buffer 2 :: nat circular_buffer) = []"
    by (rule make_inv; simp)+
  have d: "drop (length ([] @ [1, 2, 3 :: nat]) - 2) ([] @ [1, 2, 3]) = [2, 3]" by simp
  from push_back_history[OF i(1), of "[1, 2, 3]"] i(1) show ?thesis unfolding i(2) capacity_make d by blast
qed

text \<open>
  C14: On a valid buffer every operation refines the operation on the list of the elements: access by index,
  at the front and at the back reads the right element; removing at either end and clearing remove
  the right elements, and nothing happens to an empty buffer; the buffer stays valid. Access out of
  range is caught by the assertions. The destructor ends the lifetime of every element.
\<close>

theorem circular_buffer_refines_list:
  assumes "cb_inv b"
  shows "(\<forall>n < size_of b. \<exists>i. cb_ref b n = Ret i \<and> read_slot b i = Ret (contents b ! n))
    \<and> (\<forall>n \<ge> size_of b. cb_ref b n = Abort)
    \<and> (if cb_empty b then cb_front b = Abort \<and> cb_back b = Abort
       else (\<exists>i. cb_front b = Ret i \<and> read_slot b i = Ret (hd (contents b)))
          \<and> (\<exists>i. cb_back b = Ret i \<and> read_slot b i = Ret (last (contents b))))
    \<and> (\<exists>b'. pop_front b = Ret b' \<and> cb_inv b' \<and> contents b' = tl (contents b))
    \<and> (\<exists>b'. pop_back b = Ret b' \<and> cb_inv b' \<and> contents b' = butlast (contents b))
    \<and> (\<exists>b'. cb_clear b = Ret b' \<and> cb_inv b' \<and> contents b' = [])
    \<and> (\<exists>b'. cb_destroy b = Ret b' \<and> set (array b') \<subseteq> {None})"
proof -
  have r: "represents b (contents b)" using assms by (simp add: represents_inv)
  have e: "cb_empty b \<longleftrightarrow> contents b = []" by (simp add: cb_empty_def contents_def)
  have f: "cb_front b = Ret (idx b 0) \<and> read_slot b (idx b 0) = Ret (hd (contents b))" if "contents b \<noteq> []"
    using that cb_front_represents[OF r] read_represents[OF r, of 0] by (simp add: hd_conv_nth)
  have l: "cb_back b = Ret (idx b (length (contents b) - 1)) \<and> read_slot b (idx b (length (contents b) - 1)) = Ret (last (contents b))"
    if "contents b \<noteq> []"
    using that cb_back_represents[OF r] read_represents[OF r, of "length (contents b) - 1"] by (simp add: last_conv_nth)
  have "holds b (\<lambda>k. if k < size_of b then Some (contents b ! k) else None)" "size_of b \<le> capacity b"
    using r contents_size[OF assms] by (simp_all add: represents_def)
  from destroy_first_holds[OF this order.refl order.refl]
  obtain b' where d: "cb_destroy b = Ret b'" "holds b' (\<lambda>k. if size_of b \<le> k \<and> k < size_of b then Some (contents b ! k) else None)"
    by (auto simp: cb_destroy_def)
  have "(\<lambda>k. if size_of b \<le> k \<and> k < size_of b then Some (contents b ! k) else None) = (\<lambda>_. None)" by auto
  with d(2) have "set (array b') \<subseteq> {None}" by (simp add: all_free_holds)
  moreover have "\<exists>b'. cb_clear b = Ret b' \<and> cb_inv b' \<and> contents b' = []"
    using clear_represents[OF r] represents_contents by blast
  ultimately show ?thesis
    using access_inv[OF assms] pop_front_inv[OF assms] pop_back_inv[OF assms] e f l d(1)
    by (auto simp: cb_front_def cb_back_def cb_ref_def)
qed

theorem circular_buffer_refines_list_witness:
  "cb_inv (make_circular_buffer 3 :: int circular_buffer)
   \<and> (\<exists>b'. pop_front (make_circular_buffer 3 :: int circular_buffer) = Ret b' \<and> cb_inv b' \<and> contents b' = [])"
proof -
  have i: "cb_inv (make_circular_buffer 3 :: int circular_buffer)" "contents (make_circular_buffer 3 :: int circular_buffer) = []"
    by (rule make_inv; simp)+
  note r = circular_buffer_refines_list[OF i(1)]
  have "\<exists>b'. pop_front (make_circular_buffer 3 :: int circular_buffer) = Ret b' \<and> cb_inv b' \<and> contents b' = tl []"
    using r unfolding i(2) by (elim conjE)
  then show ?thesis using i(1) by simp
qed

text \<open>
  C15: \<open>erase\<close> with a range of the buffer removes exactly the elements of the range, on either of its two ways
  of closing the gap, and returns the position of the element behind it. An empty range makes it move
  the elements of the shorter side onto themselves, so they keep their values only where a
  self-move keeps them. Iterators of another container or out of order are caught.
\<close>

theorem erase_correct:
  assumes "cb_inv b"
  shows "(f \<le> l \<and> l \<le> size_of b \<longrightarrow>
      (\<exists>b'. erase_range moved this b (at this f) (at this l) = Ret (b', at this f) \<and> cb_inv b'
        \<and> contents b' = erase_list moved f l (contents b)))
    \<and> (f < size_of b \<longrightarrow>
      (\<exists>b'. erase_at moved this b (at this f) = Ret (b', at this f) \<and> cb_inv b'
        \<and> contents b' = take f (contents b) @ drop (Suc f) (contents b)))
    \<and> (container i1 \<noteq> Some this \<or> container i2 \<noteq> Some this \<or> current i1 < 0 \<or> current i2 < current i1
         \<or> int (size_of b) < current i2 \<longrightarrow> erase_range moved this b i1 i2 = Abort)"
proof -
  have r: "represents b (contents b)" using assms by (simp add: represents_inv)
  note n = contents_size[OF assms]
  have range: "\<exists>b'. erase_range moved this b (at this f) (at this l) = Ret (b', at this f) \<and> cb_inv b'
        \<and> contents b' = erase_list moved f l (contents b)" if "f \<le> l" "l \<le> size_of b" for l
    using erase_range_represents[OF r, of f l] that n represents_contents by metis
  have "it_plus (at this f) 1 = at this (Suc f)" by (simp add: it_plus_def at_def)
  moreover have "erase_list moved f (Suc f) (contents b) = take f (contents b) @ drop (Suc f) (contents b)"
    by (simp add: erase_list_def)
  moreover have "erase_range moved this b i1 i2 = Abort"
    if "container i1 \<noteq> Some this \<or> container i2 \<noteq> Some this \<or> current i1 < 0 \<or> current i2 < current i1
         \<or> int (size_of b) < current i2"
    using that by (auto simp: erase_range_def precondition_def it_less_equal_def it_less_def cb_begin_def cb_end_def make_cb_iterator_def)
  ultimately show ?thesis using range[of l] range[of "Suc f"] by (auto simp: erase_at_def)
qed

theorem erase_correct_witness:
  "\<exists>b :: nat circular_buffer. cb_inv b \<and> contents b = [1, 2, 3, 4] \<and> 1 \<le> (3 :: nat) \<and> 3 \<le> size_of b
   \<and> (\<exists>b'. erase_range (\<lambda>_. 0) 7 b (at 7 1) (at 7 3) = Ret (b', at 7 1) \<and> contents b' = [1, 4])
   \<and> (\<exists>b'. erase_range (\<lambda>_. 0) 7 b (at 7 1) (at 7 1) = Ret (b', at 7 1) \<and> contents b' = [0, 2, 3, 4])"
proof -
  obtain b :: "nat circular_buffer" where b: "cb_inv b" "contents b = [1, 2, 3, 4]"
    by (rule filled_buffer[of 5 "[1, 2, 3, 4 :: nat]"]) simp_all
  have "size_of b = 4" using contents_size[OF b(1)] b(2) by simp
  with b erase_correct[OF b(1), of 1 3 "\<lambda>_. 0" 7] erase_correct[OF b(1), of 1 1 "\<lambda>_. 0" 7] show ?thesis
    by (intro exI[of _ b]) (auto simp: erase_list_def)
qed

text \<open>
  C16: A reference to an element of the buffer itself may be given to \<open>push_back\<close>, with the same result as
  with a copy of the element, unless the buffer is full and the reference is to its first element: that
  one is destroyed before it is read.
\<close>

theorem push_back_own_element:
  assumes "cb_inv b" "n < size_of b" "cb_ref b n = Ret i"
  shows "push_back b (Slot i) = (if cb_full b \<and> n = 0 then Undefined else push_back b (External (contents b ! n)))"
proof -
  have r: "represents b (contents b)" using assms by (simp add: represents_inv)
  have "i = idx b n" "cb_full b \<longleftrightarrow> length (contents b) = capacity b"
    using assms by (auto simp: cb_ref_def idx_def cb_full_def contents_def split: if_splits)
  then show ?thesis
    using emplace_back_slot[OF r, of n] assms(2) contents_size[OF assms(1)] by (simp add: push_back_def)
qed

theorem push_back_own_element_witness:
  "\<exists>b :: nat circular_buffer. cb_inv b \<and> cb_full b \<and> 0 < size_of b \<and> (\<exists>i. cb_ref b 0 = Ret i \<and> push_back b (Slot i) = Undefined)"
proof -
  obtain b :: "nat circular_buffer" where b: "cb_inv b" "contents b = [1, 2]" "capacity b = 2"
    by (rule filled_buffer[of 2 "[1, 2 :: nat]"]) simp_all
  then have "size_of b = 2" "cb_full b" using contents_size[OF b(1)] by (simp_all add: cb_full_def)
  moreover from this obtain i where "cb_ref b 0 = Ret i" using access_inv[OF b(1), of 0] by auto
  ultimately show ?thesis using b push_back_own_element[OF b(1), of 0 i] by auto
qed

text \<open>
  C17: The copy constructor and the copy assignment make the target a buffer with the copies of the
  elements in order and leave the source as it was; when the copy of an element throws, the target is a
  valid empty buffer, everything constructed so far is destroyed, and the exception ends in the
  buffer. Moving leaves every element of the source alive with what the move left in it.
\<close>

theorem copy_move_correct:
  assumes "cb_inv b" "cb_inv other" "capacity b = capacity other" "this \<noteq> rhs"
  shows "(\<forall>r \<in> {cb_copy copy other, cb_copy_assign copy (this, b) (rhs, other)}. \<exists>b' other'. r = Ret (b', other')
      \<and> cb_inv b' \<and> cb_inv other' \<and> contents other' = contents other
      \<and> contents b' = (if \<forall>x \<in> set (contents other). copy x \<noteq> None then map (the \<circ> copy) (contents other) else []))
    \<and> (\<forall>r \<in> {cb_move t other, cb_move_assign t (this, b) (rhs, other)}. \<exists>b' other' j. r = Ret (b', other')
        \<and> cb_inv b' \<and> cb_inv other'
        \<and> (if \<forall>x \<in> set (contents other). fst (t x) \<noteq> None
           then contents b' = map (the \<circ> fst \<circ> t) (contents other) \<and> contents other' = map (snd \<circ> t) (contents other)
           else contents b' = [] \<and> contents other' = map (snd \<circ> t) (take j (contents other)) @ drop j (contents other)))"
proof -
  let ?xs = "contents other"
  have o: "represents other ?xs" using assms(2) by (simp add: represents_inv)
  have cap: "0 < capacity other" using assms(2) by (simp add: cb_inv_def)
  obtain b1 where b1: "cb_clear b = Ret b1" "represents b1 []" "capacity b1 = capacity other"
    using clear_represents[of b "contents b"] assms(1,3) by (auto simp: represents_inv)
  have T: "\<exists>b' other' j. take_over t b0 other = Ret (b', other') \<and> cb_inv b' \<and> cb_inv other'
      \<and> (if \<forall>x \<in> set ?xs. fst (t x) \<noteq> None
         then contents b' = map (the \<circ> fst \<circ> t) ?xs \<and> contents other' = map (snd \<circ> t) ?xs
         else contents b' = [] \<and> contents other' = map (snd \<circ> t) (take j ?xs) @ drop j ?xs)"
    if b0: "represents b0 []" "capacity b0 = capacity other" for b0 t
  proof -
    obtain b' other' j where r: "take_over t b0 other = Ret (b', other')"
      "if \<forall>x \<in> set ?xs. fst (t x) \<noteq> None
       then represents b' (map (the \<circ> fst \<circ> t) ?xs) \<and> represents other' (map (snd \<circ> t) ?xs)
       else represents b' [] \<and> represents other' (map (snd \<circ> t) (take j ?xs) @ drop j ?xs)"
      using take_over_represents[OF b0(1) o b0(2), of t] by blast
    show ?thesis
      by (intro exI[of _ b'] exI[of _ other'] exI[of _ j])
        (use r in \<open>auto dest!: represents_contents split: if_splits simp del: fst_conv\<close>)
  qed
  have C: "\<exists>b' other'. take_over (copy_transfer copy) b0 other = Ret (b', other') \<and> cb_inv b' \<and> cb_inv other'
      \<and> contents other' = ?xs \<and> contents b' = (if \<forall>x \<in> set ?xs. copy x \<noteq> None then map (the \<circ> copy) ?xs else [])"
    if "represents b0 []" "capacity b0 = capacity other" for b0
  proof -
    have m: "map (snd \<circ> copy_transfer copy) ys = ys" "the \<circ> fst \<circ> copy_transfer copy = the \<circ> copy" "fst (copy_transfer copy x) = copy x" for ys x
      by (auto simp: copy_transfer_def comp_def)
    show ?thesis using T[OF that, of "copy_transfer copy"] unfolding m append_take_drop_id by (auto split: if_splits)
  qed
  let ?new = "make_circular_buffer (capacity other)"
  have mk: "represents ?new []" "capacity ?new = capacity other" using make_represents[OF cap] by simp_all
  have e: "cb_copy copy other = take_over (copy_transfer copy) ?new other"
    "cb_copy_assign copy (this, b) (rhs, other) = take_over (copy_transfer copy) b1 other"
    "cb_move t other = take_over t ?new other" "cb_move_assign t (this, b) (rhs, other) = take_over t b1 other"
    using b1(1) assms(4) by (simp_all add: cb_copy_def cb_copy_assign_def cb_move_def cb_move_assign_def)
  have two: "(\<forall>r \<in> {x, y}. P r) \<longleftrightarrow> P x \<and> P y" for x y :: "('a circular_buffer \<times> 'a circular_buffer) result" and P by blast
  show ?thesis unfolding e two by (intro conjI C T mk b1(2,3))
qed

theorem copy_move_correct_witness:
  "\<exists>(b :: nat circular_buffer) (other :: nat circular_buffer). cb_inv b \<and> cb_inv other \<and> capacity b = capacity other \<and> contents other = [1, 2]
   \<and> (\<exists>b' other'. cb_copy Some other = Ret (b', other') \<and> contents b' = [1, 2])
   \<and> (\<exists>b' other'. cb_copy (\<lambda>x. if x = 2 then None else Some x) other = Ret (b', other') \<and> contents b' = [])"
proof -
  obtain b :: "nat circular_buffer" where b: "cb_inv b" "contents b = [1]" "capacity b = 2"
    by (rule filled_buffer[of 2 "[1 :: nat]"]) simp_all
  obtain c :: "nat circular_buffer" where c: "cb_inv c" "contents c = [1, 2]" "capacity c = 2"
    by (rule filled_buffer[of 2 "[1, 2 :: nat]"]) simp_all
  have "(0 :: nat) \<noteq> 1" by simp
  note r = copy_move_correct[OF b(1) c(1) _ this, unfolded b(3) c(3), OF refl, of _ "Pair None"]
  have "\<exists>b' other'. cb_copy Some c = Ret (b', other') \<and> contents b' = [1, 2]"
    using conjunct1[OF r, of Some] by (auto simp: c(2))
  then have "cb_inv b \<and> cb_inv c \<and> capacity b = capacity c \<and> contents c = [1, 2]
    \<and> (\<exists>b' other'. cb_copy Some c = Ret (b', other') \<and> contents b' = [1, 2])" using b c by simp
  moreover have "\<exists>b' other'. cb_copy (\<lambda>x. if x = 2 then None else Some x) c = Ret (b', other') \<and> contents b' = []"
    using conjunct1[OF r, of "\<lambda>x. if x = 2 then None else Some x"] by (auto simp: c(2))
  ultimately show ?thesis by blast
qed

end
