(* ===== verification/Hash_Common.thy ===== *)
theory Hash_Common
  imports Prelude
begin

unbundle bit_operations_syntax

text \<open>
  The value types of the hash library: the algorithms and their digest sizes
  (src/score/hash/code/common/algorithms.cpp), the error codes (common/error.h), and the class
  \<open>Hash\<close> (core/hash.cpp) with its hexadecimal text form, together with \<open>TypedHash\<close>
  (core/typed_hash.h), which fixes the algorithm of a \<open>Hash\<close> at compile time.
  A \<open>Result<T>\<close> that the caller inspects is a sum type, \<open>Inl\<close> holding the error code.
\<close>

section \<open>Algorithms and error codes\<close>

type_synonym byte = "8 word"
type_synonym u32 = "32 word"
type_synonym u64 = "64 word"

datatype hash_error =
    kCouldNotCreateDigest | kCouldNotUpdateDigest | kCouldNotUpdateDigestFromStream
  | kCouldNotFinalizeDigest | kInvalidParameters | kNotFound | kStreamError | kUnknownError

datatype HashAlgorithm = kNone | kSha256 | kSha384 | kSha512 | kCrc32 | kCrc32Autosar | kLast

definition kMaxDigestSize :: nat where "kMaxDigestSize = 64"

definition kSha256Size :: byte where "kSha256Size = 32"
definition kSha384Size :: byte where "kSha384Size = 48"
definition kSha512Size :: byte where "kSha512Size = 64"
definition kCrc32Size :: byte where "kCrc32Size = 4"
definition kCrc32AutosarSize :: byte where "kCrc32AutosarSize = 4"

lemmas digest_sizes =
  kMaxDigestSize_def kSha256Size_def kSha384Size_def kSha512Size_def kCrc32Size_def
  kCrc32AutosarSize_def

fun HashSizeInBytes :: "HashAlgorithm \<Rightarrow> byte option" where
  "HashSizeInBytes kCrc32 = Some kCrc32Size"
| "HashSizeInBytes kCrc32Autosar = Some kCrc32AutosarSize"
| "HashSizeInBytes kSha256 = Some kSha256Size"
| "HashSizeInBytes kSha384 = Some kSha384Size"
| "HashSizeInBytes kSha512 = Some kSha512Size"
| "HashSizeInBytes kNone = None"
| "HashSizeInBytes kLast = None"

text \<open>The product is computed in \<open>unsigned\<close> and narrowed to eight bits.\<close>

definition HashSizeInCharacters :: "HashAlgorithm \<Rightarrow> byte option" where
  "HashSizeInCharacters algorithm = (case HashSizeInBytes algorithm of
     None \<Rightarrow> None
   | Some n \<Rightarrow> Some (word_of_nat (unat n * 2)))"

definition IdentifyHash_string :: "string \<Rightarrow> HashAlgorithm" where
  "IdentifyHash_string hash_string = (
     if length hash_string = unat kCrc32Size * 2 then kCrc32
     else if length hash_string = unat kSha256Size * 2 then kSha256
     else if length hash_string = unat kSha384Size * 2 then kSha384
     else if length hash_string = unat kSha512Size * 2 then kSha512
     else kNone)"

definition IdentifyHash_size :: "nat \<Rightarrow> HashAlgorithm" where
  "IdentifyHash_size hash_size_in_bytes = (
     if hash_size_in_bytes = unat kCrc32Size then kCrc32
     else if hash_size_in_bytes = unat kSha256Size then kSha256
     else if hash_size_in_bytes = unat kSha384Size then kSha384
     else if hash_size_in_bytes = unat kSha512Size then kSha512
     else kNone)"

section \<open>The class Hash\<close>

record Hash =
  hash_algorithm :: HashAlgorithm
  hash_bytes :: "byte list"

text \<open>\<open>push_back\<close> of the \<open>static_vector\<close> of capacity \<open>kMaxDigestSize\<close>: a full vector aborts.\<close>

definition bytes_push_back :: "byte list \<Rightarrow> byte \<Rightarrow> byte list result" where
  "bytes_push_back v x = (if length v < kMaxDigestSize then Ret (v @ [x]) else Abort)"

definition kInvalidCharSentinel :: byte where "kInvalidCharSentinel = 255"

definition hex_chars :: string where "hex_chars = ''0123456789abcdef''"

definition NumToChar :: "byte \<Rightarrow> char result" where
  "NumToChar number =
     (if unat number < length hex_chars then Ret (hex_chars ! unat number) else Abort)"

definition char_num_mapping :: "(char \<times> byte) list" where
  "char_num_mapping = [
     (CHR ''0'', 0), (CHR ''1'', 1), (CHR ''2'', 2), (CHR ''3'', 3), (CHR ''4'', 4), (CHR ''5'', 5),
     (CHR ''6'', 6), (CHR ''7'', 7), (CHR ''8'', 8), (CHR ''9'', 9), (CHR ''a'', 10), (CHR ''A'', 10),
     (CHR ''b'', 11), (CHR ''B'', 11), (CHR ''c'', 12), (CHR ''C'', 12), (CHR ''d'', 13), (CHR ''D'', 13),
     (CHR ''e'', 14), (CHR ''E'', 14), (CHR ''f'', 15), (CHR ''F'', 15)]"

definition Char2Num :: "char \<Rightarrow> byte" where
  "Char2Num character = (case map_of char_num_mapping character of
     Some v \<Rightarrow> v
   | None \<Rightarrow> kInvalidCharSentinel)"

definition GetBytes :: "Hash \<Rightarrow> byte list" where "GetBytes h = hash_bytes h"

definition GetAlgorithm :: "Hash \<Rightarrow> HashAlgorithm" where "GetAlgorithm h = hash_algorithm h"

definition hash_eq :: "Hash \<Rightarrow> Hash \<Rightarrow> bool" where
  "hash_eq lhs rhs \<longleftrightarrow> hash_algorithm lhs = hash_algorithm rhs \<and> hash_bytes lhs = hash_bytes rhs"

definition hash_neq :: "Hash \<Rightarrow> Hash \<Rightarrow> bool" where
  "hash_neq lhs rhs \<longleftrightarrow> \<not> hash_eq lhs rhs"

primrec ToString_loop :: "byte list \<Rightarrow> string \<Rightarrow> string result" where
  "ToString_loop [] hex_repr = Ret hex_repr"
| "ToString_loop (a_byte # rest) hex_repr =
     bind_outcome (NumToChar (a_byte div 16)) (\<lambda>high_char.
     bind_outcome (NumToChar (a_byte mod 16)) (\<lambda>low_char.
     ToString_loop rest (hex_repr @ [high_char, low_char])))"

definition ToString :: "Hash \<Rightarrow> string result" where
  "ToString h = (case HashSizeInCharacters (hash_algorithm h) of
     None \<Rightarrow> Ret []
   | Some _ \<Rightarrow> ToString_loop (hash_bytes h) [])"

text \<open>The loop of \<open>FromString\<close> over (raw\_hash, is\_high\_byte, current\_byte).\<close>

primrec FromString_loop ::
  "string \<Rightarrow> byte list \<Rightarrow> bool \<Rightarrow> byte \<Rightarrow> (hash_error + byte list) result" where
  "FromString_loop [] raw_hash is_high_byte current_byte = Ret (Inr raw_hash)"
| "FromString_loop (character # rest) raw_hash is_high_byte current_byte =
     (let current_digit = Char2Num character in
      if current_digit = kInvalidCharSentinel then Ret (Inl kInvalidParameters)
      else if is_high_byte
      then FromString_loop rest raw_hash (\<not> is_high_byte) (push_bit 4 current_digit)
      else (let current_byte' = current_byte + current_digit in
            bind_outcome (bytes_push_back raw_hash current_byte') (\<lambda>raw_hash'.
            FromString_loop rest raw_hash' (\<not> is_high_byte) current_byte')))"

definition FromString :: "HashAlgorithm \<Rightarrow> string \<Rightarrow> (hash_error + Hash) result" where
  "FromString algorithm hex_repr = (case HashSizeInCharacters algorithm of
     None \<Rightarrow> Ret (Inl kInvalidParameters)
   | Some exp_size \<Rightarrow>
       if length hex_repr \<noteq> unat exp_size then Ret (Inl kInvalidParameters)
       else bind_outcome (FromString_loop hex_repr [] True 0) (\<lambda>r. case r of
              Inl e \<Rightarrow> Ret (Inl e)
            | Inr raw_hash \<Rightarrow> Ret (Inr \<lparr>hash_algorithm = algorithm, hash_bytes = raw_hash\<rparr>)))"

subsection \<open>TypedHash\<close>

text \<open>
  The template parameter \<open>Algorithm\<close> is the first argument. \<open>FromAny\<close> gets what
  \<open>any.As<std::string_view>()\<close> returned.
\<close>

record TypedHash =
  typed_hash :: Hash

datatype any_error = kParsingError | HashError hash_error

definition TypedHash_ctor :: "HashAlgorithm \<Rightarrow> byte list \<Rightarrow> TypedHash" where
  "TypedHash_ctor algorithm raw_hash =
     \<lparr>typed_hash = \<lparr>hash_algorithm = algorithm, hash_bytes = raw_hash\<rparr>\<rparr>"

definition TypedHash_FromString :: "HashAlgorithm \<Rightarrow> string \<Rightarrow> (hash_error + TypedHash) result" where
  "TypedHash_FromString algorithm hex_repr =
     bind_outcome (FromString algorithm hex_repr) (\<lambda>h. case h of
       Inr hash \<Rightarrow> Ret (Inr (TypedHash_ctor algorithm (GetBytes hash)))
     | Inl e \<Rightarrow> Ret (Inl e))"

definition TypedHash_FromAny :: "HashAlgorithm \<Rightarrow> string option \<Rightarrow> (any_error + TypedHash) result" where
  "TypedHash_FromAny algorithm any = (case any of
     Some hash_string \<Rightarrow>
       bind_outcome (TypedHash_FromString algorithm hash_string) (\<lambda>r. case r of
         Inr h \<Rightarrow> Ret (Inr h)
       | Inl e \<Rightarrow> Ret (Inl (HashError e)))
   | None \<Rightarrow> Ret (Inl kParsingError))"

definition TypedHash_ToAny :: "TypedHash \<Rightarrow> string option result" where
  "TypedHash_ToAny h = bind_outcome (ToString (typed_hash h)) (\<lambda>s. Ret (Some s))"

definition TypedHash_ToHash :: "TypedHash \<Rightarrow> Hash" where
  "TypedHash_ToHash h = typed_hash h"

section \<open>Hexadecimal digits\<close>

text \<open>The digits of either case, what they stand for, and the text that printing yields.\<close>

definition is_hex :: "char \<Rightarrow> bool" where
  "is_hex c \<longleftrightarrow> c \<in> set ''0123456789abcdefABCDEF''"

definition lower_hex :: "char \<Rightarrow> char" where
  "lower_hex c = (if c \<in> set ''ABCDEF'' then char_of (of_char c + 32 :: nat) else c)"

fun hex_decode :: "string \<Rightarrow> byte list" where
  "hex_decode (h # l # rest) = (push_bit 4 (Char2Num h) + Char2Num l) # hex_decode rest"
| "hex_decode _ = []"

definition hex_encode :: "byte list \<Rightarrow> string" where
  "hex_encode bs = concat (map (\<lambda>b. [hex_chars ! unat (b div 16), hex_chars ! unat (b mod 16)]) bs)"

lemma hex_digit_cases:
  assumes "is_hex c"
  shows "unat (Char2Num c) < 16" "hex_chars ! unat (Char2Num c) = lower_hex c"
proof -
  have "\<forall>c \<in> set ''0123456789abcdefABCDEF''.
          unat (Char2Num c) < 16 \<and> hex_chars ! unat (Char2Num c) = lower_hex c"
    by code_simp
  then show "unat (Char2Num c) < 16" "hex_chars ! unat (Char2Num c) = lower_hex c"
    using assms unfolding is_hex_def by blast+
qed

lemma Char2Num_hex_chars: "n < 16 \<Longrightarrow> Char2Num (hex_chars ! n) = word_of_nat n"
proof -
  have "\<forall>n \<in> set [0..<16]. Char2Num (hex_chars ! n) = word_of_nat n"
    by code_simp
  then show "n < 16 \<Longrightarrow> ?thesis" by simp
qed

lemma Char2Num_sentinel: "Char2Num c = kInvalidCharSentinel \<longleftrightarrow> \<not> is_hex c"
proof -
  have "set (map fst char_num_mapping) = set ''0123456789abcdefABCDEF''"
    by code_simp
  then have dom: "is_hex c \<longleftrightarrow> c \<in> dom (map_of char_num_mapping)"
    by (simp only: is_hex_def dom_map_of_conv_image_fst set_map)
  show ?thesis
  proof (cases "is_hex c")
    case True
    then show ?thesis using hex_digit_cases(1)[OF True] by (auto simp: kInvalidCharSentinel_def)
  next
    case False
    then show ?thesis using dom by (simp add: Char2Num_def domIff)
  qed
qed

lemma NumToChar_digit: "unat d < 16 \<Longrightarrow> NumToChar d = Ret (hex_chars ! unat d)"
  by (simp add: NumToChar_def hex_chars_def)

lemma nibbles: "unat ((b :: byte) div 16) < 16" "unat (b mod 16) < 16"
  using unsigned_less[where ?'a = nat and w = b] by (simp_all add: unat_div unat_mod)

lemma nibbles_join: "push_bit 4 (b div 16) + b mod 16 = (b :: byte)"
  using div_mult_mod_eq[of b 16] by (simp add: push_bit_eq_mult)

lemma nibbles_split:
  assumes "unat (h :: byte) < 16" "unat l < 16"
  shows "(push_bit 4 h + l) div 16 = h" "(push_bit 4 h + l) mod 16 = l"
proof -
  have *: "unat (push_bit 4 h + l) = 16 * unat h + unat l"
    using assms by (simp add: push_bit_eq_mult unat_word_ariths)
  show "(push_bit 4 h + l) div 16 = h" "(push_bit 4 h + l) mod 16 = l"
    using assms by (auto simp: word_unat_eq_iff unat_div unat_mod *)
qed

lemma hex_decode_encode: "hex_decode (hex_encode bs) = bs"
  by (induction bs)
    (simp_all add: hex_encode_def Char2Num_hex_chars nibbles nibbles_join)

lemma hex_encode_decode:
  "even (length s) \<Longrightarrow> list_all is_hex s \<Longrightarrow> hex_encode (hex_decode s) = map lower_hex s"
  by (induction s rule: hex_decode.induct)
    (simp_all add: hex_encode_def nibbles_split hex_digit_cases)

lemma length_hex_encode: "length (hex_encode bs) = 2 * length bs"
  by (induction bs) (simp_all add: hex_encode_def)

lemma length_hex_decode: "length (hex_decode s) = length s div 2"
  by (induction s rule: hex_decode.induct) simp_all

lemma is_hex_hex_chars: "n < 16 \<Longrightarrow> is_hex (hex_chars ! n)"
proof -
  have "\<forall>n \<in> set [0..<16]. is_hex (hex_chars ! n)" by code_simp
  then show "n < 16 \<Longrightarrow> ?thesis" by simp
qed

lemma hex_encode_is_hex: "list_all is_hex (hex_encode bs)"
  by (induction bs) (simp_all add: hex_encode_def is_hex_hex_chars nibbles)

section \<open>Text form of a hash\<close>

lemma ToString_loop_encode: "ToString_loop bs acc = Ret (acc @ hex_encode bs)"
  by (induction bs arbitrary: acc) (simp_all add: hex_encode_def NumToChar_digit nibbles)

lemma FromString_loop_high: "FromString_loop s raw True b = FromString_loop s raw True 0"
  by (cases s) (simp_all add: Let_def)

lemma FromString_loop_hex:
  assumes "even (length s)" "list_all is_hex s" "length raw + length s div 2 \<le> kMaxDigestSize"
  shows "FromString_loop s raw True b = Ret (Inr (raw @ hex_decode s))"
  using assms
proof (induction s arbitrary: raw b rule: hex_decode.induct)
  case (1 h l rest)
  then show ?case
    by (simp add: Char2Num_sentinel bytes_push_back_def)
qed simp_all

lemma FromString_loop_invalid:
  assumes "\<not> list_all is_hex s" "2 * length raw + length s + of_bool (\<not> hi) \<le> 2 * kMaxDigestSize"
  shows "FromString_loop s raw hi b = Ret (Inl kInvalidParameters)"
  using assms
  by (induction s arbitrary: raw hi b)
    (auto simp: Char2Num_sentinel Let_def bytes_push_back_def split: if_splits)

lemma HashSizeInCharacters_eq:
  "HashSizeInCharacters a = map_option (\<lambda>n. 2 * n) (HashSizeInBytes a)"
  by (cases a) (simp_all add: HashSizeInCharacters_def digest_sizes)

lemma HashSizeInBytes_bounds [bounds]:
  "HashSizeInBytes a = Some n \<Longrightarrow> unat (2 * n) = 2 * unat n \<and> unat n \<le> kMaxDigestSize"
  by (cases a) (auto simp: digest_sizes)

text \<open>The sizes at which a hash object is well formed.\<close>

definition hash_wf :: "Hash \<Rightarrow> bool" where
  "hash_wf h \<longleftrightarrow> map_option unat (HashSizeInBytes (hash_algorithm h)) = Some (length (hash_bytes h))"

definition hex_text_ok :: "HashAlgorithm \<Rightarrow> string \<Rightarrow> bool" where
  "hex_text_ok a s \<longleftrightarrow> list_all is_hex s \<and>
     map_option (\<lambda>n. 2 * unat n) (HashSizeInBytes a) = Some (length s)"

lemma FromString_cases:
  "FromString a s = (case HashSizeInBytes a of
     None \<Rightarrow> Ret (Inl kInvalidParameters)
   | Some n \<Rightarrow> if length s = 2 * unat n \<and> list_all is_hex s
       then Ret (Inr \<lparr>hash_algorithm = a, hash_bytes = hex_decode s\<rparr>)
       else Ret (Inl kInvalidParameters))"
  using HashSizeInBytes_bounds[of a]
  by (auto simp: FromString_def HashSizeInCharacters_eq FromString_loop_hex
        FromString_loop_invalid split: option.splits)

lemma ToString_eq:
  "ToString h = (case HashSizeInBytes (hash_algorithm h) of
     None \<Rightarrow> Ret [] | Some _ \<Rightarrow> Ret (hex_encode (hash_bytes h)))"
  by (simp add: ToString_def HashSizeInCharacters_eq ToString_loop_encode split: option.splits)

text \<open>
  C18: The hexadecimal text form of a hash is faithful. Parsing accepts exactly the strings of
  hexadecimal digits (of either case) whose length is twice the digest size of a supported
  algorithm and reports \<open>kInvalidParameters\<close> for every other input; the parsed hash has the
  requested algorithm and the right number of bytes and prints as the input in lower case; and
  every well-formed hash is what parsing its own text returns. Neither direction aborts.
\<close>

theorem Hash_string_round_trip:
  "(if hex_text_ok a s
    then \<exists>h. FromString a s = Ret (Inr h) \<and> hash_wf h \<and> GetAlgorithm h = a \<and>
             ToString h = Ret (map lower_hex s)
    else FromString a s = Ret (Inl kInvalidParameters)) \<and>
   (hash_wf h \<longrightarrow> bind_outcome (ToString h) (FromString (GetAlgorithm h)) = Ret (Inr h))"
proof (intro conjI impI)
  show "if hex_text_ok a s
        then \<exists>h. FromString a s = Ret (Inr h) \<and> hash_wf h \<and> GetAlgorithm h = a \<and>
               ToString h = Ret (map lower_hex s)
        else FromString a s = Ret (Inl kInvalidParameters)"
  proof (cases "hex_text_ok a s")
    case True
    then obtain n where n: "HashSizeInBytes a = Some n" "length s = 2 * unat n" "list_all is_hex s"
      by (auto simp: hex_text_ok_def)
    then show ?thesis using True
      by (simp add: FromString_cases ToString_eq hash_wf_def GetAlgorithm_def hex_encode_decode
          length_hex_decode)
  next
    case False
    then show ?thesis by (simp add: hex_text_ok_def FromString_cases split: option.split) metis
  qed
next
  assume "hash_wf h"
  then obtain n where "HashSizeInBytes (hash_algorithm h) = Some n" "unat n = length (hash_bytes h)"
    by (auto simp: hash_wf_def)
  then show "bind_outcome (ToString h) (FromString (GetAlgorithm h)) = Ret (Inr h)"
    by (simp add: FromString_cases ToString_eq GetAlgorithm_def hex_decode_encode
        hex_encode_is_hex length_hex_encode)
qed

theorem Hash_string_round_trip_witness:
  "hash_wf \<lparr>hash_algorithm = kCrc32, hash_bytes = [203, 244, 57, 38]\<rparr> \<and>
   bind_outcome (ToString \<lparr>hash_algorithm = kCrc32, hash_bytes = [203, 244, 57, 38]\<rparr>) (FromString kCrc32)
     = Ret (Inr \<lparr>hash_algorithm = kCrc32, hash_bytes = [203, 244, 57, 38]\<rparr>)"
proof -
  have "hash_wf \<lparr>hash_algorithm = kCrc32, hash_bytes = [203, 244, 57, 38]\<rparr>"
    by (simp add: hash_wf_def digest_sizes)
  then show ?thesis
    using Hash_string_round_trip[THEN conjunct2,
        of "\<lparr>hash_algorithm = kCrc32, hash_bytes = [203, 244, 57, 38]\<rparr>"]
    by (simp only: GetAlgorithm_def Hash.select_convs simp_thms)
qed

end
