(* ===== verification/Hash_Calculator.thy ===== *)
theory Hash_Calculator
  imports Hash_Common
begin

text \<open>
  The interface \<open>IHashCalculator\<close> and its operation \<open>UpdateFromStream\<close>
  (src/score/hash/code/core/i_hash_calculator.cpp), which reads an input stream in blocks and feeds
  them to the virtual \<open>Update\<close>. The virtual call is a function argument. The locale
  \<open>hash_calculator\<close> states what a calculator promises; reading a stream is proved against it once.
\<close>

section \<open>Input streams\<close>

text \<open>
  What \<open>std::istream\<close> contributes: the bytes still to be delivered, whether the device fails behind
  them instead of reporting the end of the file, the state flags, and the count of the last
  unformatted read. A failing device throws inside the stream buffer: \<open>read\<close> catches that, sets
  \<open>badbit\<close> and has counted nothing.
\<close>

record istream =
  in_rest :: "byte list"
  in_broken :: bool
  in_eof :: bool
  in_fail :: bool
  in_bad :: bool
  in_gcount :: nat

definition in_good :: "istream \<Rightarrow> bool" where
  "in_good i \<longleftrightarrow> \<not> in_eof i \<and> \<not> in_fail i \<and> \<not> in_bad i"

definition in_read :: "nat \<Rightarrow> istream \<Rightarrow> byte list \<times> istream" where
  "in_read n i = (
     if \<not> in_good i then ([], i\<lparr>in_fail := True, in_gcount := 0\<rparr>)
     else if n \<le> length (in_rest i) then (take n (in_rest i), i\<lparr>in_rest := drop n (in_rest i), in_gcount := n\<rparr>)
     else if in_broken i then ([], i\<lparr>in_rest := [], in_bad := True, in_gcount := 0\<rparr>)
     else (in_rest i, i\<lparr>in_rest := [], in_eof := True, in_fail := True, in_gcount := length (in_rest i)\<rparr>))"

section \<open>StreamConsumer\<close>

definition kDataChunkSize :: nat where "kDataChunkSize = 4096"

definition kReadEndlessFromStream :: int where "kReadEndlessFromStream = - 1"

record stream_consumer =
  sc_read_buffer :: "byte list"
  sc_block_size :: int
  sc_total_size :: int
  sc_expected_size :: int

definition StreamConsumer_ctor :: "int \<Rightarrow> stream_consumer" where
  "StreamConsumer_ctor expected_size_in_bytes =
     \<lparr>sc_read_buffer = replicate kDataChunkSize 0, sc_block_size = 0, sc_total_size = 0,
      sc_expected_size = expected_size_in_bytes\<rparr>"

definition HasReadEnough :: "stream_consumer \<Rightarrow> bool" where
  "HasReadEnough c \<longleftrightarrow>
     sc_expected_size c \<noteq> kReadEndlessFromStream \<and> sc_total_size c \<ge> sc_expected_size c"

definition CalculateNumberBytesToRead :: "stream_consumer \<Rightarrow> int" where
  "CalculateNumberBytesToRead c = (
     if sc_expected_size c = kReadEndlessFromStream then int kDataChunkSize
     else min (sc_expected_size c - sc_total_size c) (int kDataChunkSize))"

definition ReadBlock :: "stream_consumer \<Rightarrow> istream \<Rightarrow> stream_consumer \<times> istream" where
  "ReadBlock c input = (case in_read (nat (CalculateNumberBytesToRead c)) input of
     (bytes, input') \<Rightarrow>
       (c\<lparr>sc_read_buffer := bytes @ drop (length bytes) (sc_read_buffer c),
          sc_block_size := int (in_gcount input')\<rparr>, input'))"

text \<open>The addition is one of 64-bit signed integers.\<close>

definition sc_accumulate :: "stream_consumer \<Rightarrow> stream_consumer result" where
  "sc_accumulate c = (
     if sc_total_size c + sc_block_size c < 2 ^ 63
     then Ret (c\<lparr>sc_total_size := sc_total_size c + sc_block_size c, sc_block_size := 0\<rparr>)
     else Undefined)"

definition ConvertToSpan :: "stream_consumer \<Rightarrow> byte list" where
  "ConvertToSpan c = take (nat (sc_block_size c)) (sc_read_buffer c)"

type_synonym 's updater = "'s \<Rightarrow> byte list \<Rightarrow> ('s \<times> (hash_error + unit)) result"

lemma ReadBlock_progress:
  assumes "in_good input" "\<not> HasReadEnough c" "(c', input') = ReadBlock c input"
  shows "length (in_rest input') < length (in_rest input) \<or>
    length (in_rest input') = length (in_rest input) \<and> in_good input \<and> \<not> in_good input'"
  using assms
  by (auto simp: ReadBlock_def in_read_def HasReadEnough_def CalculateNumberBytesToRead_def
      kDataChunkSize_def in_good_def split: if_splits)

function Consume :: "'s updater \<Rightarrow> stream_consumer \<Rightarrow> istream \<Rightarrow> 's
    \<Rightarrow> ('s \<times> istream \<times> (hash_error + unit)) result" where
  "Consume Update c input s = (
     if in_good input then
       if HasReadEnough c then Ret (s, input, Inr ())
       else (case ReadBlock c input of (c1, input1) \<Rightarrow>
         if sc_block_size c1 = 0 \<and> in_eof input1 then Ret (s, input1, Inr ())
         else bind_outcome (Update s (ConvertToSpan c1)) (\<lambda>(s', r). case r of
                Inl e \<Rightarrow> Ret (s', input1, Inl e)
              | Inr _ \<Rightarrow> bind_outcome (sc_accumulate c1) (\<lambda>c2. Consume Update c2 input1 s')))
     else if \<not> in_eof input \<or> in_bad input then Ret (s, input, Inl kCouldNotUpdateDigestFromStream)
     else Ret (s, input, Inr ()))"
  by pat_completeness auto

termination
  by (relation "measures [\<lambda>(_, _, input, _). length (in_rest input),
        \<lambda>(_, _, input, _). of_bool (in_good input)]")
    (auto dest: ReadBlock_progress)

declare Consume.simps [simp del]

text \<open>What every update keeps, reading a stream keeps.\<close>

lemma Consume_preserves:
  fixes Update :: "'s updater"
  assumes "\<And>s d s' r. P s \<Longrightarrow> Update s d = Ret (s', r) \<Longrightarrow> P s'"
    and "P s" "Consume Update c input s = Ret (s', input', r)"
  shows "P s'"
  using assms
proof (induction Update c input s rule: Consume.induct)
  case (1 Update c input s)
  note IH = 1(1) and pres = 1(2) and P = 1(3) and run = 1(4)
  show ?case
  proof (cases "in_good input \<and> \<not> HasReadEnough c")
    case True
    obtain c1 input1 where rb: "ReadBlock c input = (c1, input1)" by fastforce
    show ?thesis
    proof (cases "sc_block_size c1 = 0 \<and> in_eof input1")
      case False
      then obtain s1 r1 where u: "Update s (ConvertToSpan c1) = Ret (s1, r1)"
        "(case r1 of Inl e \<Rightarrow> Ret (s1, input1, Inl e)
          | Inr _ \<Rightarrow> bind_outcome (sc_accumulate c1) (\<lambda>c2. Consume Update c2 input1 s1)) = Ret (s', input', r)"
        using run True rb by (subst (asm) Consume.simps) auto
      have "P s1" using pres[OF P u(1)] .
      then show ?thesis using u(2) IH[OF _ _ rb[symmetric] _ u(1) refl] True False pres
        by (cases r1) auto
    qed (use run True rb P in \<open>simp add: Consume.simps[of _ c]\<close>)
  qed (use run P in \<open>auto simp: Consume.simps[of _ c] split: if_splits\<close>)
qed

definition UpdateFromStream_max ::
  "'s updater \<Rightarrow> 's \<Rightarrow> istream \<Rightarrow> int \<Rightarrow> ('s \<times> istream \<times> (hash_error + unit)) result" where
  "UpdateFromStream_max Update s input max_read = (
     if \<not> in_good input then Ret (s, input, Inl kStreamError)
     else Consume Update (StreamConsumer_ctor max_read) input s)"

definition UpdateFromStream ::
  "'s updater \<Rightarrow> 's \<Rightarrow> istream \<Rightarrow> ('s \<times> istream \<times> (hash_error + unit)) result" where
  "UpdateFromStream Update s input = UpdateFromStream_max Update s input kReadEndlessFromStream"

section \<open>What a hash calculator promises\<close>

text \<open>A client that passes a message in pieces and stops at the first error.\<close>

primrec Updates :: "'s updater \<Rightarrow> 's \<Rightarrow> byte list list \<Rightarrow> ('s \<times> (hash_error + unit)) result" where
  "Updates Update s [] = Ret (s, Inr ())"
| "Updates Update s (d # ds) = bind_outcome (Update s d) (\<lambda>(s', r). case r of
     Inl e \<Rightarrow> Ret (s', Inl e)
   | Inr _ \<Rightarrow> Updates Update s' ds)"

text \<open>The part of the remaining bytes that a request for \<open>n\<close> more bytes (or all of them) covers.\<close>

definition requested :: "stream_consumer \<Rightarrow> byte list \<Rightarrow> byte list" where
  "requested c rest = (if sc_expected_size c = kReadEndlessFromStream then rest
     else take (nat (sc_expected_size c - sc_total_size c)) rest)"

definition runs_dry :: "stream_consumer \<Rightarrow> byte list \<Rightarrow> bool" where
  "runs_dry c rest \<longleftrightarrow> sc_expected_size c = kReadEndlessFromStream \<or>
     int (length rest) < sc_expected_size c - sc_total_size c"

definition consumer_ok :: "stream_consumer \<Rightarrow> byte list \<Rightarrow> bool" where
  "consumer_ok c rest \<longleftrightarrow> length (sc_read_buffer c) = kDataChunkSize \<and> 0 \<le> sc_total_size c \<and>
     sc_total_size c + int (length (requested c rest)) < 2 ^ 63"


lemma bytes_to_read: "\<not> HasReadEnough c \<Longrightarrow> 0 < CalculateNumberBytesToRead c"
  "CalculateNumberBytesToRead c \<le> int kDataChunkSize"
  by (auto simp: CalculateNumberBytesToRead_def HasReadEnough_def kDataChunkSize_def)

text \<open>A read that the stream can satisfy, and one at its end.\<close>

lemma ReadBlock_full:
  fixes input :: istream
  defines "rest \<equiv> in_rest input"
  assumes "in_good input" "\<not> HasReadEnough c" "consumer_ok c rest"
    "nat (CalculateNumberBytesToRead c) \<le> length rest"
  shows "\<exists>n c1 c2. ReadBlock c input = (c1, input\<lparr>in_rest := drop n rest, in_gcount := n\<rparr>) \<and>
    sc_block_size c1 = int n \<and> 0 < n \<and> n \<le> length rest \<and> ConvertToSpan c1 = take n rest \<and>
    sc_accumulate c1 = Ret c2 \<and> consumer_ok c2 (drop n rest) \<and>
    requested c rest = take n rest @ requested c2 (drop n rest) \<and>
    runs_dry c2 (drop n rest) = runs_dry c rest"
proof -
  define n where "n = nat (CalculateNumberBytesToRead c)"
  define c1 where "c1 = c\<lparr>sc_read_buffer := take n rest @ drop n (sc_read_buffer c), sc_block_size := int n\<rparr>"
  define c2 where "c2 = c1\<lparr>sc_total_size := sc_total_size c + int n, sc_block_size := 0\<rparr>"
  have n: "0 < n" "n \<le> length rest" "n \<le> kDataChunkSize" "int n = CalculateNumberBytesToRead c"
    using bytes_to_read[of c] assms by (auto simp: n_def)
  have req: "requested c rest = take n rest @ requested c2 (drop n rest)"
  proof (cases "sc_expected_size c = kReadEndlessFromStream")
    case False
    then have "nat (sc_expected_size c - sc_total_size c) = n + nat (sc_expected_size c - sc_total_size c2)"
      using n(4) by (simp add: c1_def c2_def CalculateNumberBytesToRead_def)
    then show ?thesis using False
      by (simp add: requested_def c1_def c2_def take_add)
  qed (simp add: requested_def c1_def c2_def)
  moreover have "ReadBlock c input = (c1, input\<lparr>in_rest := drop n rest, in_gcount := n\<rparr>)"
    using assms n by (simp add: ReadBlock_def in_read_def c1_def rest_def flip: n_def)
  moreover have "sc_accumulate c1 = Ret c2" "consumer_ok c2 (drop n rest)"
    using assms(4) n req by (auto simp: sc_accumulate_def consumer_ok_def c1_def c2_def)
  moreover have "ConvertToSpan c1 = take n rest" using n(1-3) by (simp add: ConvertToSpan_def c1_def)
  moreover have "runs_dry c2 (drop n rest) = runs_dry c rest"
    using n by (auto simp: runs_dry_def c1_def c2_def)
  ultimately show ?thesis using n by (intro exI[of _ n] exI[of _ c1] exI[of _ c2]) (simp add: c1_def)
qed

lemma ReadBlock_end:
  fixes input :: istream
  defines "rest \<equiv> in_rest input"
  assumes "in_good input" "\<not> HasReadEnough c" "consumer_ok c rest"
    "length rest < nat (CalculateNumberBytesToRead c)"
  shows "runs_dry c rest \<and> requested c rest = rest"
    and "\<not> in_broken input \<Longrightarrow> \<exists>c1 c2. ReadBlock c input = (c1, input\<lparr>in_rest := [], in_eof := True,
      in_fail := True, in_gcount := length rest\<rparr>) \<and> sc_block_size c1 = int (length rest) \<and>
      ConvertToSpan c1 = rest \<and> sc_accumulate c1 = Ret c2"
    and "in_broken input \<Longrightarrow> \<exists>c1 c2. ReadBlock c input = (c1, input\<lparr>in_rest := [], in_bad := True,
      in_gcount := 0\<rparr>) \<and> ConvertToSpan c1 = [] \<and> sc_accumulate c1 = Ret c2"
proof -
  show req: "runs_dry c rest \<and> requested c rest = rest"
    using assms(5) by (auto simp: runs_dry_def requested_def CalculateNumberBytesToRead_def split: if_splits)
  have "length rest \<le> kDataChunkSize" using assms(5) bytes_to_read(2)[of c] by simp
  then show "\<not> in_broken input \<Longrightarrow> \<exists>c1 c2. ReadBlock c input = (c1, input\<lparr>in_rest := [], in_eof := True,
      in_fail := True, in_gcount := length rest\<rparr>) \<and> sc_block_size c1 = int (length rest) \<and>
      ConvertToSpan c1 = rest \<and> sc_accumulate c1 = Ret c2"
    using assms req
    by (simp add: ReadBlock_def in_read_def ConvertToSpan_def sc_accumulate_def consumer_ok_def)
  show "in_broken input \<Longrightarrow> \<exists>c1 c2. ReadBlock c input = (c1, input\<lparr>in_rest := [], in_bad := True,
      in_gcount := 0\<rparr>) \<and> ConvertToSpan c1 = [] \<and> sc_accumulate c1 = Ret c2"
    using assms req
    by (simp add: ReadBlock_def in_read_def ConvertToSpan_def sc_accumulate_def consumer_ok_def)
qed

text \<open>
  \<open>absorbed s m\<close>: the calculator has consumed the message \<open>m\<close>. \<open>fits n\<close>: messages of \<open>n\<close> bytes are
  within the limits of the calculator. An empty update must not disturb what was absorbed.
\<close>

locale hash_calculator =
  fixes Update :: "'s updater"
    and Finalize :: "'s \<Rightarrow> ('s \<times> Hash) result"
    and absorbed :: "'s \<Rightarrow> byte list \<Rightarrow> bool"
    and fits :: "nat \<Rightarrow> bool"
    and digest :: "byte list \<Rightarrow> Hash"
  assumes update: "absorbed s m \<Longrightarrow> d \<noteq> [] \<Longrightarrow> fits (length m + length d) \<Longrightarrow>
      \<exists>s'. Update s d = Ret (s', Inr ()) \<and> absorbed s' (m @ d)"
    and update_empty: "absorbed s m \<Longrightarrow> \<exists>s' r. Update s [] = Ret (s', r) \<and> absorbed s' m"
    and finalize: "absorbed s m \<Longrightarrow> \<exists>s'. Finalize s = Ret (s', digest m)"
    and fits_mono: "fits n \<Longrightarrow> k \<le> n \<Longrightarrow> fits k"
begin

lemma updates:
  assumes "absorbed s m" "list_all (\<lambda>d. d \<noteq> []) ds" "fits (length m + length (concat ds))"
  shows "\<exists>s'. Updates Update s ds = Ret (s', Inr ()) \<and> absorbed s' (m @ concat ds)"
  using assms
proof (induction ds arbitrary: s m)
  case (Cons d ds)
  then obtain s' where "Update s d = Ret (s', Inr ())" "absorbed s' (m @ d)"
    using update[of s m d] fits_mono[of "length m + length (concat (d # ds))" "length m + length d"]
    by auto
  then show ?case using Cons.IH[of s' "m @ d"] Cons.prems by (auto simp: add.assoc)
qed auto

lemma consume:
  assumes "in_good input" "\<not> in_broken input" "absorbed s m" "consumer_ok c (in_rest input)"
    "fits (length m + length (requested c (in_rest input)))"
  shows "\<exists>s' input'. Consume Update c input s = Ret (s', input', Inr ()) \<and>
    absorbed s' (m @ requested c (in_rest input)) \<and>
    in_rest input' = drop (length (requested c (in_rest input))) (in_rest input)"
  using assms
proof (induction "length (in_rest input)" arbitrary: input c s m rule: less_induct)
  case less
  let ?rest = "in_rest input"
  consider (enough) "HasReadEnough c"
    | (full) "\<not> HasReadEnough c" "nat (CalculateNumberBytesToRead c) \<le> length ?rest"
    | (short) "\<not> HasReadEnough c" "length ?rest < nat (CalculateNumberBytesToRead c)"
    by linarith
  then show ?case
  proof cases
    case enough
    then show ?thesis using less.prems
      by (auto simp: Consume.simps[of _ c] HasReadEnough_def requested_def)
  next
    case full
    obtain n c1 c2 where c1: "ReadBlock c input = (c1, input\<lparr>in_rest := drop n ?rest, in_gcount := n\<rparr>)"
      "sc_block_size c1 = int n" "0 < n" "n \<le> length ?rest" "ConvertToSpan c1 = take n ?rest"
      "sc_accumulate c1 = Ret c2" "consumer_ok c2 (drop n ?rest)"
      "requested c ?rest = take n ?rest @ requested c2 (drop n ?rest)"
      using ReadBlock_full[OF less.prems(1) full(1) less.prems(4) full(2)] by blast
    obtain s' where s': "Update s (take n ?rest) = Ret (s', Inr ())" "absorbed s' (m @ take n ?rest)"
      using update[OF less.prems(3), of "take n ?rest"] fits_mono[OF less.prems(5)] c1(3,4,8) by fastforce
    have "Consume Update c input s = Consume Update c2 (input\<lparr>in_rest := drop n ?rest, in_gcount := n\<rparr>) s'"
      using less.prems(1) full(1) c1 s'(1) by (simp add: Consume.simps[of _ c])
    then show ?thesis
      using less.hyps[of "input\<lparr>in_rest := drop n ?rest, in_gcount := n\<rparr>" s' "m @ take n ?rest" c2]
        less.prems c1 s'(2) by (auto simp: in_good_def add.assoc add.commute[of n])
  next
    case short
    note end_facts = ReadBlock_end[OF less.prems(1) short(1) less.prems(4) short(2)]
    let ?final = "input\<lparr>in_rest := [], in_eof := True, in_fail := True, in_gcount := length ?rest\<rparr>"
    obtain c1 c2 where c1: "ReadBlock c input = (c1, ?final)" "sc_block_size c1 = int (length ?rest)"
      "ConvertToSpan c1 = ?rest" "sc_accumulate c1 = Ret c2"
      using end_facts(2)[OF less.prems(2)] by blast
    have stop: "Consume Update c2 ?final s' = Ret (s', ?final, Inr ())" for s'
      using less.prems(1) by (simp add: Consume.simps[of _ c2] in_good_def)
    show ?thesis
    proof (cases "?rest = []")
      case True
      then show ?thesis using less.prems c1 short(1) end_facts(1)
        by (simp add: Consume.simps[of _ c] )
    next
      case False
      then obtain s' where "Update s ?rest = Ret (s', Inr ())" "absorbed s' (m @ ?rest)"
        using update[OF less.prems(3) False] less.prems(5) end_facts(1) by auto
      then show ?thesis using less.prems c1 short(1) end_facts(1) stop False
        by (simp add: Consume.simps[of _ c])
    qed
  qed
qed

lemma consume_broken:
  assumes "in_good input" "in_broken input" "absorbed s m" "consumer_ok c (in_rest input)"
    "fits (length m + length (requested c (in_rest input)))" "runs_dry c (in_rest input)"
  shows "\<exists>s' input' e. Consume Update c input s = Ret (s', input', Inl e)"
  using assms
proof (induction "length (in_rest input)" arbitrary: input c s m rule: less_induct)
  case less
  let ?rest = "in_rest input"
  have more: "\<not> HasReadEnough c"
    using less.prems(6) by (auto simp: runs_dry_def HasReadEnough_def)
  show ?case
  proof (cases "nat (CalculateNumberBytesToRead c) \<le> length ?rest")
    case True
    obtain n c1 c2 where c1: "ReadBlock c input = (c1, input\<lparr>in_rest := drop n ?rest, in_gcount := n\<rparr>)"
      "sc_block_size c1 = int n" "0 < n" "n \<le> length ?rest" "ConvertToSpan c1 = take n ?rest"
      "sc_accumulate c1 = Ret c2" "consumer_ok c2 (drop n ?rest)"
      "requested c ?rest = take n ?rest @ requested c2 (drop n ?rest)"
      "runs_dry c2 (drop n ?rest) = runs_dry c ?rest"
      using ReadBlock_full[OF less.prems(1) more less.prems(4) True] by blast
    obtain s' where s': "Update s (take n ?rest) = Ret (s', Inr ())" "absorbed s' (m @ take n ?rest)"
      using update[OF less.prems(3), of "take n ?rest"] fits_mono[OF less.prems(5)] c1(3,4,8) by fastforce
    have "Consume Update c input s = Consume Update c2 (input\<lparr>in_rest := drop n ?rest, in_gcount := n\<rparr>) s'"
      using less.prems(1) more c1 s'(1) by (simp add: Consume.simps[of _ c])
    then show ?thesis
      using less.hyps[of "input\<lparr>in_rest := drop n ?rest, in_gcount := n\<rparr>" s' "m @ take n ?rest" c2]
        less.prems c1 s'(2) by (auto simp: in_good_def add.assoc)
  next
    case False
    let ?final = "input\<lparr>in_rest := [], in_bad := True, in_gcount := 0\<rparr>"
    obtain c1 c2 where c1: "ReadBlock c input = (c1, ?final)" "ConvertToSpan c1 = []"
      "sc_accumulate c1 = Ret c2"
      using ReadBlock_end(3)[OF less.prems(1) more less.prems(4)] False less.prems(2) by auto
    obtain s' r where "Update s [] = Ret (s', r)" using update_empty[OF less.prems(3)] by blast
    then show ?thesis using less.prems(1) more c1
      by (cases r) (auto simp: Consume.simps[of _ c] Consume.simps[of _ c2] in_good_def)
  qed
qed

lemma stream:
  assumes "in_good input" "\<not> in_broken input" "absorbed s m"
    "d = (if k = kReadEndlessFromStream then in_rest input else take (nat k) (in_rest input))"
    "length d < 2 ^ 63" "fits (length m + length d)"
  shows "\<exists>s' input'. UpdateFromStream_max Update s input k = Ret (s', input', Inr ()) \<and>
    absorbed s' (m @ d) \<and> in_rest input' = drop (length d) (in_rest input)"
proof -
  let ?c = "StreamConsumer_ctor k"
  have "requested ?c (in_rest input) = d" using assms(4) by (simp add: requested_def StreamConsumer_ctor_def)
  moreover from this have "consumer_ok ?c (in_rest input)"
    using assms(5) by (simp add: consumer_ok_def StreamConsumer_ctor_def)
  ultimately show ?thesis
    using consume[OF assms(1,2,3), of ?c] assms(1,6) by (simp add: UpdateFromStream_max_def)
qed

lemma stream_broken:
  assumes "in_good input" "in_broken input" "absorbed s m"
    "k = kReadEndlessFromStream \<or> int (length (in_rest input)) < k"
    "length (in_rest input) < 2 ^ 63" "fits (length m + length (in_rest input))"
  shows "\<exists>s' input' e. UpdateFromStream_max Update s input k = Ret (s', input', Inl e)"
proof -
  let ?c = "StreamConsumer_ctor k"
  have "requested ?c (in_rest input) = in_rest input" "runs_dry ?c (in_rest input)"
    using assms(4) by (auto simp: requested_def runs_dry_def StreamConsumer_ctor_def)
  moreover from this have "consumer_ok ?c (in_rest input)"
    using assms(5) by (simp add: consumer_ok_def StreamConsumer_ctor_def)
  ultimately show ?thesis
    using consume_broken[OF assms(1,2,3), of ?c] assms(1,6) by (simp add: UpdateFromStream_max_def)
qed

end

end
