(* ===== verification/Sha256.thy ===== *)
theory Sha256
  imports Hash_Calculator
begin

unbundle bit_operations_syntax

text \<open>
  The software implementation of SHA-256, src/score/hash/code/sha256digest: the byte buffer
  \<open>detail::MessageBuffer\<close> with its eight-bit size, the logical functions, and the operations
  \<open>Update\<close>, \<open>UpdateHash\<close> and \<open>Finalize\<close> of \<open>Sha256Digest\<close>. The second half states the hash
  function the way FIPS 180-4 does (padding, message schedule, compression of the blocks) and shows
  that the implementation computes it, for every way of cutting the message into updates.
\<close>

section \<open>MessageBuffer\<close>

definition kBufferSize :: nat where "kBufferSize = 64"

record message_buffer =
  mb_bytes :: "byte list"
  mb_size :: byte

definition mb_empty :: message_buffer where
  "mb_empty = \<lparr>mb_bytes = replicate kBufferSize 0, mb_size = 0\<rparr>"

definition mb_clear :: "message_buffer \<Rightarrow> message_buffer" where
  "mb_clear b = b\<lparr>mb_size := 0\<rparr>"

definition mb_push_back :: "message_buffer \<Rightarrow> byte \<Rightarrow> message_buffer result" where
  "mb_push_back b val = (let size_casted = unat (mb_size b) in
     if size_casted < kBufferSize
     then Ret (b\<lparr>mb_bytes := (mb_bytes b)[size_casted := val], mb_size := mb_size b + 1\<rparr>)
     else Abort)"

definition mb_at :: "message_buffer \<Rightarrow> nat \<Rightarrow> byte result" where
  "mb_at b pos = (if pos < kBufferSize then Ret (mb_bytes b ! pos) else Abort)"

text \<open>\<open>std::copy_n\<close> into the array from index \<open>i\<close> on.\<close>

definition copy_into :: "byte list \<Rightarrow> nat \<Rightarrow> byte list \<Rightarrow> byte list" where
  "copy_into buf i xs = take i buf @ xs @ drop (i + length xs) buf"

text \<open>\<open>fill_from\<close> returns the number of bytes it took, as an eight-bit integer.\<close>

definition mb_fill_from :: "message_buffer \<Rightarrow> byte list \<Rightarrow> (message_buffer \<times> byte) result" where
  "mb_fill_from b data = (
     let data_size = min 255 (length data);
         size_casted = unat (mb_size b) in
     if \<not> size_casted < kBufferSize then Abort
     else let remaining = kBufferSize - size_casted;
              count = min remaining data_size;
              bytes = copy_into (mb_bytes b) size_casted (take count data) in
          if \<not> size_casted + count \<le> 255 then Abort
          else Ret (b\<lparr>mb_bytes := bytes, mb_size := mb_size b + word_of_nat count\<rparr>, word_of_nat count))"

section \<open>Logical functions and constants\<close>

definition kSha256Constants :: "u32 list" where
  "kSha256Constants = [
     0x428A2F98, 0x71374491, 0xB5C0FBCF, 0xE9B5DBA5, 0x3956C25B, 0x59F111F1, 0x923F82A4, 0xAB1C5ED5,
     0xD807AA98, 0x12835B01, 0x243185BE, 0x550C7DC3, 0x72BE5D74, 0x80DEB1FE, 0x9BDC06A7, 0xC19BF174,
     0xE49B69C1, 0xEFBE4786, 0x0FC19DC6, 0x240CA1CC, 0x2DE92C6F, 0x4A7484AA, 0x5CB0A9DC, 0x76F988DA,
     0x983E5152, 0xA831C66D, 0xB00327C8, 0xBF597FC7, 0xC6E00BF3, 0xD5A79147, 0x06CA6351, 0x14292967,
     0x27B70A85, 0x2E1B2138, 0x4D2C6DFC, 0x53380D13, 0x650A7354, 0x766A0ABB, 0x81C2C92E, 0x92722C85,
     0xA2BFE8A1, 0xA81A664B, 0xC24B8B70, 0xC76C51A3, 0xD192E819, 0xD6990624, 0xF40E3585, 0x106AA070,
     0x19A4C116, 0x1E376C08, 0x2748774C, 0x34B0BCB5, 0x391C0CB3, 0x4ED8AA4A, 0x5B9CCA4F, 0x682E6FF3,
     0x748F82EE, 0x78A5636F, 0x84C87814, 0x8CC70208, 0x90BEFFFA, 0xA4506CEB, 0xBEF9A3F7, 0xC67178F2]"

definition kSha256StartingValues :: "u32 list" where
  "kSha256StartingValues = [
     0x6A09E667, 0xBB67AE85, 0x3C6EF372, 0xA54FF53A, 0x510E527F, 0x9B05688C, 0x1F83D9AB, 0x5BE0CD19]"

text \<open>
  The precondition admits the amount 0, for which the left shift by 32 bits is undefined.
\<close>

definition RotateRight32 :: "u32 \<Rightarrow> nat \<Rightarrow> u32 result" where
  "RotateRight32 val amount = (
     if \<not> amount < 32 then Abort
     else if 32 - amount \<ge> 32 then Undefined
     else Ret (drop_bit amount val OR push_bit (32 - amount) val))"

definition Ch :: "u32 \<Rightarrow> u32 \<Rightarrow> u32 \<Rightarrow> u32" where
  "Ch x y z = (x AND y) XOR (NOT x AND z)"

definition Maj :: "u32 \<Rightarrow> u32 \<Rightarrow> u32 \<Rightarrow> u32" where
  "Maj x y z = (x AND y) XOR (x AND z) XOR (y AND z)"

definition Bsig0 :: "u32 \<Rightarrow> u32 result" where
  "Bsig0 x = bind_outcome (RotateRight32 x 2) (\<lambda>r. bind_outcome (RotateRight32 x 13) (\<lambda>s.
             bind_outcome (RotateRight32 x 22) (\<lambda>t. Ret (r XOR s XOR t))))"

definition Bsig1 :: "u32 \<Rightarrow> u32 result" where
  "Bsig1 x = bind_outcome (RotateRight32 x 6) (\<lambda>r. bind_outcome (RotateRight32 x 11) (\<lambda>s.
             bind_outcome (RotateRight32 x 25) (\<lambda>t. Ret (r XOR s XOR t))))"

definition Ssig0 :: "u32 \<Rightarrow> u32 result" where
  "Ssig0 x = bind_outcome (RotateRight32 x 7) (\<lambda>r. bind_outcome (RotateRight32 x 18) (\<lambda>s.
             Ret (r XOR s XOR drop_bit 3 x)))"

definition Ssig1 :: "u32 \<Rightarrow> u32 result" where
  "Ssig1 x = bind_outcome (RotateRight32 x 17) (\<lambda>r. bind_outcome (RotateRight32 x 19) (\<lambda>s.
             Ret (r XOR s XOR drop_bit 10 x)))"

section \<open>UpdateHash\<close>

record sha256 =
  sha_buffer :: message_buffer
  sha_hash :: "u32 list"
  sha_message_len :: u64

definition sha256_init :: sha256 where
  "sha256_init = \<lparr>sha_buffer = mb_empty, sha_hash = kSha256StartingValues, sha_message_len = 0\<rparr>"

text \<open>The first loop: after \<open>n\<close> rounds the first \<open>n\<close> message words are assembled.\<close>

primrec load_words :: "nat \<Rightarrow> message_buffer \<Rightarrow> u32 list \<Rightarrow> u32 list result" where
  "load_words 0 b message = Ret message"
| "load_words (Suc t) b message =
     bind_outcome (load_words t b message) (\<lambda>m.
     bind_outcome (mb_at b (t * 4)) (\<lambda>b0.
     bind_outcome (mb_at b (t * 4 + 1)) (\<lambda>b1.
     bind_outcome (mb_at b (t * 4 + 2)) (\<lambda>b2.
     bind_outcome (mb_at b (t * 4 + 3)) (\<lambda>b3.
     Ret (m[t := push_bit 24 (ucast b0) OR push_bit 16 (ucast b1) OR push_bit 8 (ucast b2) OR ucast b3]))))))"

text \<open>The second loop, over \<open>t\<close> from 16 on: after \<open>n\<close> rounds the words below \<open>16 + n\<close> are set.\<close>

primrec expand_words :: "nat \<Rightarrow> u32 list \<Rightarrow> u32 list result" where
  "expand_words 0 message = Ret message"
| "expand_words (Suc n) message =
     bind_outcome (expand_words n message) (\<lambda>m. let t = 16 + n in
     bind_outcome (Ssig1 (m ! (t - 2))) (\<lambda>s1.
     bind_outcome (Ssig0 (m ! (t - 15))) (\<lambda>s0.
     Ret (m[t := s1 + m ! (t - 7) + s0 + m ! (t - 16)]))))"

type_synonym working = "u32 \<times> u32 \<times> u32 \<times> u32 \<times> u32 \<times> u32 \<times> u32 \<times> u32"

primrec hash_rounds :: "nat \<Rightarrow> u32 list \<Rightarrow> working \<Rightarrow> working result" where
  "hash_rounds 0 message v = Ret v"
| "hash_rounds (Suc round) message v =
     bind_outcome (hash_rounds round message v) (\<lambda>(a, b, c, d, e, f, g, h).
     bind_outcome (Bsig1 e) (\<lambda>s1.
     bind_outcome (Bsig0 a) (\<lambda>s0.
     let t1 = h + s1 + Ch e f g + kSha256Constants ! round + message ! round;
         t2 = s0 + Maj a b c in
     Ret (t1 + t2, a, b, c, d + t1, e, f, g))))"

definition UpdateHash :: "sha256 \<Rightarrow> sha256 result" where
  "UpdateHash s = (let H = sha_hash s in
     if unat (mb_size (sha_buffer s)) \<noteq> kBufferSize then Abort
     else bind_outcome (load_words 16 (sha_buffer s) (replicate kBufferSize 0)) (\<lambda>m.
          bind_outcome (expand_words 48 m) (\<lambda>message.
          bind_outcome (hash_rounds 64 message (H!0, H!1, H!2, H!3, H!4, H!5, H!6, H!7))
            (\<lambda>(a, b, c, d, e, f, g, h).
          Ret (s\<lparr>sha_hash := [H!0 + a, H!1 + b, H!2 + c, H!3 + d, H!4 + e, H!5 + f, H!6 + g, H!7 + h]\<rparr>)))))"

section \<open>Update and Finalize\<close>

text \<open>\<open>UpdateHash\<close> followed by \<open>buffer_.clear()\<close>.\<close>

definition flush :: "sha256 \<Rightarrow> sha256 result" where
  "flush s = bind_outcome (UpdateHash s) (\<lambda>s'. Ret (s'\<lparr>sha_buffer := mb_clear (sha_buffer s')\<rparr>))"

text \<open>One round of the loop of \<open>Update\<close>: the new state and the number of bytes taken.\<close>

definition update_round :: "sha256 \<Rightarrow> byte list \<Rightarrow> (sha256 \<times> nat) result" where
  "update_round s chunk =
     bind_outcome (mb_fill_from (sha_buffer s) chunk) (\<lambda>(b, count).
     if unat (mb_size b) = kBufferSize
     then bind_outcome (flush (s\<lparr>sha_buffer := b\<rparr>)) (\<lambda>s'. Ret (s', unat count))
     else Ret (s\<lparr>sha_buffer := b\<rparr>, unat count))"

lemma mb_fill_from_eq:
  "mb_fill_from b data = (if unat (mb_size b) < kBufferSize
     then let count = min (kBufferSize - unat (mb_size b)) (length data) in
       Ret (b\<lparr>mb_bytes := copy_into (mb_bytes b) (unat (mb_size b)) (take count data),
              mb_size := mb_size b + word_of_nat count\<rparr>, word_of_nat count)
     else Abort)"
proof -
  have "min (kBufferSize - unat (mb_size b)) (min 255 (length data))
      = min (kBufferSize - unat (mb_size b)) (length data)"
    by (auto simp: kBufferSize_def)
  then show ?thesis by (auto simp: mb_fill_from_def Let_def kBufferSize_def)
qed

lemma unat_count: "unat (word_of_nat (min (kBufferSize - k) n) :: byte) = min (kBufferSize - k) n"
  by (simp add: unat_of_nat kBufferSize_def min_def)

lemma update_round_progress:
  "update_round s chunk = Ret (s', n) \<Longrightarrow> chunk \<noteq> [] \<Longrightarrow> 0 < n"
  by (auto simp: update_round_def mb_fill_from_eq Let_def unat_count split: if_splits)

function Update_loop :: "sha256 \<Rightarrow> byte list \<Rightarrow> nat \<Rightarrow> sha256 result" where
  "Update_loop s data start_index = (
     if start_index < length data
     then bind_outcome (update_round s (drop start_index data)) (\<lambda>(s', count).
            Update_loop s' data (start_index + count))
     else Ret s)"
  by pat_completeness auto

termination
  by (relation "measure (\<lambda>(s, data, start_index). length data - start_index)")
    (auto dest: update_round_progress)
definition sha256_Update :: "sha256 \<Rightarrow> byte list \<Rightarrow> (sha256 \<times> (hash_error + unit)) result" where
  "sha256_Update s data = (
     if data = [] then Ret (s, Inl kInvalidParameters)
     else bind_outcome (Update_loop s data 0) (\<lambda>s'.
          if \<not> length data < (2 ^ 64 - 1) div 8 then Abort
          else let count = word_of_nat (length data * 8) in
               if \<not> sha_message_len s' < 0xFFFFFFFFFFFFFFFF - count then Abort
               else Ret (s'\<lparr>sha_message_len := sha_message_len s' + count\<rparr>, Inr ())))"

text \<open>The two \<open>while\<close> loops of \<open>Finalize\<close> that append zero bytes up to a limit.\<close>

function pad_zeros :: "nat \<Rightarrow> message_buffer \<Rightarrow> message_buffer result" where
  "pad_zeros limit b = (
     if unat (mb_size b) < limit then bind_outcome (mb_push_back b 0) (pad_zeros limit) else Ret b)"
  by pat_completeness auto

termination
  by (relation "measure (\<lambda>(limit, b). limit - unat (mb_size b))")
    (auto simp: mb_push_back_def Let_def kBufferSize_def unat_word_ariths split: if_splits)

declare pad_zeros.simps [simp del] Update_loop.simps [simp del]

text \<open>The loop over \<open>shift = 64, 56, \<dots>, 8\<close>, counted in bytes.\<close>

primrec append_length :: "nat \<Rightarrow> u64 \<Rightarrow> message_buffer \<Rightarrow> message_buffer result" where
  "append_length 0 message_len b = Ret b"
| "append_length (Suc k) message_len b = (
     let final_byte = drop_bit (8 * k) message_len AND 0xFF in
     if final_byte \<le> 255
     then bind_outcome (mb_push_back b (ucast final_byte)) (append_length k message_len)
     else Abort)"

definition swap_word :: "u32 \<Rightarrow> u32" where
  "swap_word w = drop_bit 24 w OR (drop_bit 8 w AND 0xFF00) OR (push_bit 8 w AND 0xFF0000)
     OR (push_bit 24 w AND 0xFF000000)"

text \<open>The bytes of a word in the memory of a little-endian machine.\<close>

definition memory_bytes :: "u32 \<Rightarrow> byte list" where
  "memory_bytes w = [ucast w, ucast (drop_bit 8 w), ucast (drop_bit 16 w), ucast (drop_bit 24 w)]"

text \<open>
  \<open>Finalize\<close> in three parts: the end marker, with a block of its own when the length no longer fits
  behind it; the block that ends in the message length; and the digest in memory order.
\<close>

definition end_marker :: "sha256 \<Rightarrow> sha256 result" where
  "end_marker s = bind_outcome (mb_push_back (sha_buffer s) 128) (\<lambda>b.
     if 56 < unat (mb_size b)
     then bind_outcome (pad_zeros 64 b) (\<lambda>b'. flush (s\<lparr>sha_buffer := b'\<rparr>))
     else Ret (s\<lparr>sha_buffer := b\<rparr>))"

definition length_block :: "sha256 \<Rightarrow> sha256 result" where
  "length_block s = bind_outcome (pad_zeros 56 (sha_buffer s)) (\<lambda>b.
     if unat (mb_size b) \<noteq> 56 then Abort
     else bind_outcome (append_length 8 (sha_message_len s) b) (\<lambda>b'.
          if unat (mb_size b') \<noteq> 64 then Abort
          else flush (s\<lparr>sha_buffer := b'\<rparr>)))"

definition sha256_Finalize :: "sha256 \<Rightarrow> (sha256 \<times> Hash) result" where
  "sha256_Finalize s =
     bind_outcome (end_marker s) (\<lambda>s1.
     bind_outcome (length_block s1) (\<lambda>s2.
     let hash = map swap_word (sha_hash s2) in
     Ret (s2\<lparr>sha_hash := hash\<rparr>,
          \<lparr>hash_algorithm = kSha256, hash_bytes = concat (map memory_bytes hash)\<rparr>)))"

section \<open>FIPS 180-4\<close>

text \<open>The hash function as the standard states it: section 4.1.2, 4.2.2, 5 and 6.2.\<close>

definition fips_Sigma0 :: "u32 \<Rightarrow> u32" where
  "fips_Sigma0 x = word_rotr 2 x XOR word_rotr 13 x XOR word_rotr 22 x"
definition fips_Sigma1 :: "u32 \<Rightarrow> u32" where
  "fips_Sigma1 x = word_rotr 6 x XOR word_rotr 11 x XOR word_rotr 25 x"
definition fips_sigma0 :: "u32 \<Rightarrow> u32" where
  "fips_sigma0 x = word_rotr 7 x XOR word_rotr 18 x XOR drop_bit 3 x"
definition fips_sigma1 :: "u32 \<Rightarrow> u32" where
  "fips_sigma1 x = word_rotr 17 x XOR word_rotr 19 x XOR drop_bit 10 x"

definition fips_Ch :: "u32 \<Rightarrow> u32 \<Rightarrow> u32 \<Rightarrow> u32" where
  "fips_Ch x y z = (x AND y) XOR (NOT x AND z)"
definition fips_Maj :: "u32 \<Rightarrow> u32 \<Rightarrow> u32 \<Rightarrow> u32" where
  "fips_Maj x y z = (x AND y) XOR (x AND z) XOR (y AND z)"

text \<open>Words are big-endian.\<close>

definition be_word :: "byte list \<Rightarrow> u32" where
  "be_word bs = foldl (\<lambda>w b. w * 256 + ucast b) 0 bs"

definition be_bytes :: "nat \<Rightarrow> nat \<Rightarrow> byte list" where
  "be_bytes n x = map (\<lambda>i. word_of_nat (x div 256 ^ i)) (rev [0..<n])"

fun fips_W :: "byte list \<Rightarrow> nat \<Rightarrow> u32" where
  "fips_W block t = (
     if t < 16 then be_word (take 4 (drop (4 * t) block))
     else fips_sigma1 (fips_W block (t - 2)) + fips_W block (t - 7)
        + fips_sigma0 (fips_W block (t - 15)) + fips_W block (t - 16))"

declare fips_W.simps [simp del]

fun fips_step :: "u32 \<Rightarrow> u32 \<Rightarrow> working \<Rightarrow> working" where
  "fips_step k w (a, b, c, d, e, f, g, h) = (
     let T1 = h + fips_Sigma1 e + fips_Ch e f g + k + w;
         T2 = fips_Sigma0 a + fips_Maj a b c in
     (T1 + T2, a, b, c, d + T1, e, f, g))"

primrec fips_rounds :: "nat \<Rightarrow> byte list \<Rightarrow> working \<Rightarrow> working" where
  "fips_rounds 0 block v = v"
| "fips_rounds (Suc t) block v = fips_step (kSha256Constants ! t) (fips_W block t) (fips_rounds t block v)"

fun working_list :: "working \<Rightarrow> u32 list" where
  "working_list (a, b, c, d, e, f, g, h) = [a, b, c, d, e, f, g, h]"

definition list_working :: "u32 list \<Rightarrow> working" where
  "list_working H = (H!0, H!1, H!2, H!3, H!4, H!5, H!6, H!7)"

definition fips_compress :: "u32 list \<Rightarrow> byte list \<Rightarrow> u32 list" where
  "fips_compress H block = map2 (+) H (working_list (fips_rounds 64 block (list_working H)))"

definition fips_pad :: "byte list \<Rightarrow> byte list" where
  "fips_pad m = m @ [0x80] @ replicate ((119 - length m mod 64) mod 64) 0 @ be_bytes 8 (8 * length m)"

fun fips_blocks :: "byte list \<Rightarrow> byte list list" where
  "fips_blocks m = (if length m < 64 then [] else take 64 m # fips_blocks (drop 64 m))"

declare fips_blocks.simps [simp del]

definition fips_sha256 :: "byte list \<Rightarrow> byte list" where
  "fips_sha256 m = concat (map (\<lambda>w. be_bytes 4 (unat w))
     (foldl fips_compress kSha256StartingValues (fips_blocks (fips_pad m))))"

text \<open>
  Section 4.2.2 and 5.3.3: the round constants are the first 32 bits of the fractional parts of the
  cube roots of the first 64 primes, the initial hash values those of the square roots of the first 8.
\<close>

definition first_primes :: "nat list" where
  "first_primes = [2, 3, 5, 7, 11, 13, 17, 19, 23, 29, 31, 37, 41, 43, 47, 53, 59, 61, 67, 71, 73, 79,
     83, 89, 97, 101, 103, 107, 109, 113, 127, 131, 137, 139, 149, 151, 157, 163, 167, 173, 179, 181,
     191, 193, 197, 199, 211, 223, 227, 229, 233, 239, 241, 251, 257, 263, 269, 271, 277, 281, 283,
     293, 307, 311]"

definition root_bounds :: "nat \<Rightarrow> nat \<Rightarrow> nat \<Rightarrow> u32 \<Rightarrow> bool" where
  "root_bounds k n p w \<longleftrightarrow> (n * 2 ^ 32 + unat w) ^ k \<le> p * 2 ^ (32 * k) \<and>
     p * 2 ^ (32 * k) < (n * 2 ^ 32 + unat w + 1) ^ k"

definition fraction_of_root :: "nat \<Rightarrow> nat \<Rightarrow> u32 \<Rightarrow> bool" where
  "fraction_of_root k p w \<longleftrightarrow> (\<exists>n. root_bounds k n p w)"

section \<open>The compression function\<close>

lemma RotateRight32_eq: "0 < n \<Longrightarrow> n < 32 \<Longrightarrow> RotateRight32 x n = Ret (word_rotr n x)"
proof -
  assume n: "0 < n" "n < 32"
  have "drop_bit n x OR push_bit (32 - n) x = word_rotr n x"
  proof (rule bit_word_eqI)
    fix i assume i: "i < LENGTH(32)"
    have "bit x (n + i) \<longleftrightarrow> n + i < 32 \<and> bit x (n + i)"
      using bit_imp_le_length[of x "n + i"] by auto
    moreover have "(i + n) mod 32 = (if n + i < 32 then n + i else i - (32 - n))"
      using i n by (auto simp: mod_if)
    ultimately show "bit (drop_bit n x OR push_bit (32 - n) x) i \<longleftrightarrow> bit (word_rotr n x) i"
      using i n by (auto simp: bit_simps)
  qed
  then show ?thesis using n by (simp add: RotateRight32_def)
qed

lemma sigma_eq:
  "Bsig0 x = Ret (fips_Sigma0 x)" "Bsig1 x = Ret (fips_Sigma1 x)"
  "Ssig0 x = Ret (fips_sigma0 x)" "Ssig1 x = Ret (fips_sigma1 x)"
  by (simp_all add: Bsig0_def Bsig1_def Ssig0_def Ssig1_def fips_Sigma0_def fips_Sigma1_def
      fips_sigma0_def fips_sigma1_def RotateRight32_eq)

lemma append_byte: "w * 256 + ucast (b :: byte) = push_bit 8 (w :: u32) OR ucast b"
proof -
  have "push_bit 8 w AND ucast b = 0"
    using bit_imp_le_length[of b] by (intro bit_word_eqI) (fastforce simp: bit_simps)
  then show ?thesis
    by (simp add: push_bit_eq_mult mult.commute flip: disjunctive_add_eq_or)
qed

lemma be_word_four:
  "push_bit 24 (ucast b0) OR push_bit 16 (ucast b1) OR push_bit 8 (ucast b2) OR ucast b3
     = be_word [b0, b1, b2, b3]"
  by (simp add: be_word_def append_byte push_bit_or or.assoc)

lemma load_words_eq:
  assumes "length (mb_bytes b) = 64" "n \<le> 16" "length m = 64"
  shows "\<exists>m'. load_words n b m = Ret m' \<and> length m' = 64 \<and> (\<forall>t<n. m' ! t = fips_W (mb_bytes b) t)"
  using assms(2)
proof (induction n)
  case 0
  then show ?case using assms by simp
next
  case (Suc n)
  then obtain m' where m': "load_words n b m = Ret m'" "length m' = 64"
    "\<forall>t<n. m' ! t = fips_W (mb_bytes b) t" by auto
  have "take 4 (drop (4 * n) (mb_bytes b)) =
    [mb_bytes b ! (n * 4), mb_bytes b ! (n * 4 + 1), mb_bytes b ! (n * 4 + 2), mb_bytes b ! (n * 4 + 3)]"
    using Suc assms by (simp add: numeral_eq_Suc take_Suc_conv_app_nth nth_append)
  then show ?case
    using Suc m' by (auto simp: mb_at_def kBufferSize_def be_word_four nth_list_update less_Suc_eq fips_W.simps[of _ n])
qed

lemma expand_words_eq:
  assumes "length m = 64" "\<forall>t<16. m ! t = fips_W block t" "n \<le> 48"
  shows "\<exists>m'. expand_words n m = Ret m' \<and> length m' = 64 \<and> (\<forall>t<16 + n. m' ! t = fips_W block t)"
  using assms(3)
proof (induction n)
  case 0
  then show ?case using assms by simp
next
  case (Suc n)
  then obtain m' where m': "expand_words n m = Ret m'" "length m' = 64"
    "\<forall>t<16 + n. m' ! t = fips_W block t" by auto
  then show ?case
    using Suc by (auto simp: Let_def sigma_eq nth_list_update less_Suc_eq fips_W.simps[of _ "16 + n"])
qed

lemma hash_rounds_eq:
  assumes "\<forall>t<n. m ! t = fips_W block t"
  shows "hash_rounds n m v = Ret (fips_rounds n block v)"
  using assms
proof (induction n)
  case (Suc n)
  obtain a b c d e f g h where "fips_rounds n block v = (a, b, c, d, e, f, g, h)"
    by (cases "fips_rounds n block v") auto
  then show ?case using Suc
    by (simp add: sigma_eq Let_def Ch_def fips_Ch_def Maj_def fips_Maj_def)
qed simp

text \<open>What the buffer holds: the bytes below its size.\<close>

definition mb_holds :: "message_buffer \<Rightarrow> byte list \<Rightarrow> bool" where
  "mb_holds b r \<longleftrightarrow> length (mb_bytes b) = kBufferSize \<and> length r \<le> kBufferSize \<and>
     unat (mb_size b) = length r \<and> take (length r) (mb_bytes b) = r"

lemma UpdateHash_eq:
  assumes "mb_holds (sha_buffer s) r" "length r = 64" "length (sha_hash s) = 8"
  shows "UpdateHash s = Ret (s\<lparr>sha_hash := fips_compress (sha_hash s) r\<rparr>)"
proof -
  have r: "mb_bytes (sha_buffer s) = r" "unat (mb_size (sha_buffer s)) = 64"
    using assms by (auto simp: mb_holds_def kBufferSize_def)
  obtain m where m: "load_words 16 (sha_buffer s) (replicate kBufferSize 0) = Ret m"
    "length m = 64" "\<forall>t<16. m ! t = fips_W r t"
    using load_words_eq[of "sha_buffer s" 16 "replicate kBufferSize 0"] r assms
    by (auto simp: kBufferSize_def)
  obtain m' where m': "expand_words 48 m = Ret m'" "length m' = 64" "\<forall>t<64. m' ! t = fips_W r t"
    using expand_words_eq[of m r 48] m by auto
  obtain H0 H1 H2 H3 H4 H5 H6 H7 where H: "sha_hash s = [H0, H1, H2, H3, H4, H5, H6, H7]"
    using assms(3) by (auto simp: length_Suc_conv numeral_eq_Suc)
  obtain a b c d e f g h where v:
    "fips_rounds 64 r (H0, H1, H2, H3, H4, H5, H6, H7) = (a, b, c, d, e, f, g, h)"
    by (cases "fips_rounds 64 r (H0, H1, H2, H3, H4, H5, H6, H7)") auto
  then show ?thesis
    using r m m' hash_rounds_eq[OF m'(3)] H
    by (simp add: UpdateHash_def fips_compress_def list_working_def kBufferSize_def)
qed
section \<open>The buffer\<close>

lemma mb_holds_empty: "mb_holds mb_empty []"
  by (simp add: mb_holds_def mb_empty_def kBufferSize_def)

lemma mb_holds_clear: "mb_holds b r \<Longrightarrow> mb_holds (mb_clear b) []"
  by (simp add: mb_holds_def mb_clear_def)

lemma mb_holds_push_back:
  assumes "mb_holds b r" "length r < kBufferSize"
  shows "\<exists>b'. mb_push_back b x = Ret b' \<and> mb_holds b' (r @ [x])"
proof -
  have "unat (mb_size b + 1) = length r + 1"
    using assms by (simp add: mb_holds_def kBufferSize_def unat_word_ariths)
  then show ?thesis
    using assms by (auto simp: mb_push_back_def mb_holds_def Let_def take_Suc_conv_app_nth)
qed

lemma mb_holds_fill_from:
  fixes data :: "byte list"
  assumes "mb_holds b r" "length r < kBufferSize"
  defines "n \<equiv> min (kBufferSize - length r) (length data)"
  shows "\<exists>b'. mb_fill_from b data = Ret (b', word_of_nat n) \<and> mb_holds b' (r @ take n data)"
proof -
  have "unat (mb_size b + word_of_nat n) = length r + n"
    using assms by (auto simp: mb_holds_def kBufferSize_def unat_word_ariths unat_of_nat)
  moreover have "length (take n data) = n" by (simp add: n_def)
  ultimately show ?thesis
    using assms by (auto simp: mb_fill_from_eq mb_holds_def Let_def copy_into_def)
qed

lemma mb_holds_pad_zeros:
  assumes "mb_holds b r" "limit \<le> kBufferSize"
  shows "\<exists>b'. pad_zeros limit b = Ret b' \<and> mb_holds b' (r @ replicate (limit - length r) 0)"
  using assms
proof (induction "limit - length r" arbitrary: b r)
  case 0
  then show ?case by (simp add: mb_holds_def pad_zeros.simps[of limit b])
next
  case (Suc k)
  then have r: "length r < kBufferSize" "unat (mb_size b) < limit" by (simp_all add: mb_holds_def)
  obtain b' where b': "mb_push_back b 0 = Ret b'" "mb_holds b' (r @ [0])"
    using mb_holds_push_back[OF Suc.prems(1) r(1)] by blast
  have "limit - length r = Suc (limit - length (r @ [0]))" using Suc by simp
  then show ?case using Suc.hyps(1)[OF _ b'(2)] Suc b' r
    by (auto simp: pad_zeros.simps[of _ b])
qed

lemma be_bytes_Suc: "be_bytes (Suc k) x = word_of_nat (x div 256 ^ k) # be_bytes k x"
  by (simp add: be_bytes_def)

lemma length_be_bytes [simp]: "length (be_bytes k x) = k"
  by (simp add: be_bytes_def)

lemma length_byte:
  "(drop_bit (8 * k) len AND 0xFF :: u64) \<le> 255"
  "ucast (drop_bit (8 * k) len AND 0xFF :: u64) = (word_of_nat (unat len div 256 ^ k) :: byte)"
proof -
  have mask: "(0xFF :: u64) = mask 8" by (simp add: mask_eq_exp_minus_1)
  show "(drop_bit (8 * k) len AND 0xFF :: u64) \<le> 255"
    by (metis and.commute word_and_le1)
  show "ucast (drop_bit (8 * k) len AND 0xFF :: u64) = (word_of_nat (unat len div 256 ^ k) :: byte)"
    unfolding mask byte_of_nat by (rule bit_word_eqI) (auto simp: bit_simps)
qed

lemma mb_holds_append_length:
  assumes "mb_holds b r" "length r + k \<le> kBufferSize"
  shows "\<exists>b'. append_length k len b = Ret b' \<and> mb_holds b' (r @ be_bytes k (unat len))"
  using assms
proof (induction k arbitrary: b r)
  case 0
  then show ?case by (simp add: be_bytes_def)
next
  case (Suc k)
  define x :: byte where "x = word_of_nat (unat len div 256 ^ k)"
  obtain b' where b': "mb_push_back b x = Ret b'" "mb_holds b' (r @ [x])"
    using mb_holds_push_back[OF Suc.prems(1), of x] Suc.prems(2) by auto
  show ?case using Suc.IH[OF b'(2)] Suc.prems b'(1)
    by (simp add: length_byte Let_def be_bytes_Suc flip: x_def)
qed

section \<open>Absorbing the message\<close>

fun absorb :: "u32 list \<Rightarrow> byte list \<Rightarrow> u32 list \<times> byte list" where
  "absorb H m = (if length m < 64 then (H, m) else absorb (fips_compress H (take 64 m)) (drop 64 m))"

lemma absorb_simps [simp]:
  "length m < 64 \<Longrightarrow> absorb H m = (H, m)"
  "64 \<le> length m \<Longrightarrow> absorb H m = absorb (fips_compress H (take 64 m)) (drop 64 m)"
  by simp_all

lemma blocks_simps [simp]:
  "length m < 64 \<Longrightarrow> fips_blocks m = []"
  "64 \<le> length m \<Longrightarrow> fips_blocks m = take 64 m # fips_blocks (drop 64 m)"
  by (simp_all add: fips_blocks.simps[of m])

declare absorb.simps [simp del]

lemma absorb_append: "absorb H (m @ d) = (case absorb H m of (H', r) \<Rightarrow> absorb H' (r @ d))"
proof (induction H m rule: absorb.induct)
  case (1 H m)
  then show ?case by (cases "length m < 64") simp_all
qed

lemma absorb_blocks: "absorb H m = (H', r) \<Longrightarrow> foldl fips_compress H (fips_blocks m) = H'"
proof (induction H m rule: absorb.induct)
  case (1 H m)
  then show ?case by (cases "length m < 64") simp_all
qed

lemma absorb_rest: "absorb H m = (H', r) \<Longrightarrow> length r = length m mod 64"
proof (induction H m rule: absorb.induct)
  case (1 H m)
  then show ?case by (cases "length m < 64") (auto simp: le_mod_geq)
qed

lemma length_fips_compress: "length H = 8 \<Longrightarrow> length (fips_compress H m) = 8"
  by (cases "fips_rounds 64 m (list_working H)" rule: working_list.cases) (simp add: fips_compress_def)

lemma absorb_length: "absorb H m = (H', r) \<Longrightarrow> length H = 8 \<Longrightarrow> length H' = 8"
proof (induction H m rule: absorb.induct)
  case (1 H m)
  then show ?case by (cases "length m < 64") (auto simp: length_fips_compress)
qed

text \<open>The state after hashing, with what is left in the buffer.\<close>

definition sha_holds :: "sha256 \<Rightarrow> u32 list \<Rightarrow> byte list \<Rightarrow> bool" where
  "sha_holds s H r \<longleftrightarrow> mb_holds (sha_buffer s) r \<and> length r < kBufferSize \<and>
     sha_hash s = H \<and> length H = 8"

lemma flush_eq:
  assumes "mb_holds b r" "length r = kBufferSize" "length (sha_hash s) = 8"
  shows "\<exists>s'. flush (s\<lparr>sha_buffer := b\<rparr>) = Ret s' \<and>
    sha_holds s' (fips_compress (sha_hash s) r) [] \<and> sha_message_len s' = sha_message_len s"
proof -
  have "UpdateHash (s\<lparr>sha_buffer := b\<rparr>) = Ret (s\<lparr>sha_buffer := b, sha_hash := fips_compress (sha_hash s) r\<rparr>)"
    using UpdateHash_eq[of "s\<lparr>sha_buffer := b\<rparr>" r] assms by (simp add: kBufferSize_def)
  then show ?thesis
    using assms by (simp add: flush_def sha_holds_def mb_holds_clear length_fips_compress kBufferSize_def)
qed

lemma update_round_eq:
  assumes "sha_holds s H r" "chunk \<noteq> []"
  shows "\<exists>s' n H' r'. update_round s chunk = Ret (s', n) \<and> 0 < n \<and> n \<le> length chunk \<and>
    sha_holds s' H' r' \<and> sha_message_len s' = sha_message_len s \<and>
    absorb H (r @ take n chunk) = (H', r')"
proof -
  define n where "n = min (kBufferSize - length r) (length chunk)"
  have r: "mb_holds (sha_buffer s) r" "length r < kBufferSize" "sha_hash s = H" "length H = 8"
    using assms by (simp_all add: sha_holds_def)
  obtain b where b: "mb_fill_from (sha_buffer s) chunk = Ret (b, word_of_nat n)"
    "mb_holds b (r @ take n chunk)"
    using mb_holds_fill_from[OF r(1,2), of chunk] unfolding n_def by blast
  have n: "0 < n" "n \<le> length chunk" "unat (word_of_nat n :: byte) = n"
    "unat (mb_size b) = length r + n" "length r + n \<le> kBufferSize"
    using assms(2) r(2) b(2) by (auto simp: n_def unat_count mb_holds_def)
  show ?thesis
  proof (cases "length r + n = kBufferSize")
    case True
    then obtain s' where "flush (s\<lparr>sha_buffer := b\<rparr>) = Ret s'"
      "sha_holds s' (fips_compress H (r @ take n chunk)) []" "sha_message_len s' = sha_message_len s"
      using flush_eq[OF b(2), of s] r n by auto
    moreover from True have "kBufferSize - length r = n" by simp
    ultimately show ?thesis using b n True
      by (auto simp: update_round_def kBufferSize_def)
  next
    case False
    then show ?thesis using b n r
      by (auto simp: update_round_def sha_holds_def kBufferSize_def)
  qed
qed

lemma Update_loop_eq:
  assumes "sha_holds s H r"
  shows "\<exists>s' H' r'. Update_loop s data i = Ret s' \<and> sha_holds s' H' r' \<and>
    sha_message_len s' = sha_message_len s \<and> absorb H (r @ drop i data) = (H', r')"
  using assms
proof (induction s data i arbitrary: H r rule: Update_loop.induct)
  case (1 s data i)
  show ?case
  proof (cases "i < length data")
    case True
    obtain s' n H' r' where s': "update_round s (drop i data) = Ret (s', n)" "0 < n"
      "sha_holds s' H' r'" "sha_message_len s' = sha_message_len s"
      "absorb H (r @ take n (drop i data)) = (H', r')"
      using update_round_eq[OF 1(2), of "drop i data"] True by auto
    have "drop i data = take n (drop i data) @ drop (i + n) data"
      by (metis append_take_drop_id drop_drop add.commute)
    then have "absorb H (r @ drop i data) = absorb H' (r' @ drop (i + n) data)"
      using absorb_append[of H "r @ take n (drop i data)" "drop (i + n) data"] s'(5) by simp
    then show ?thesis
      using 1(1)[OF True s'(1) refl s'(3)] s'(1,4) True by (simp add: Update_loop.simps[of s])
  next
    case False
    then show ?thesis using 1(2)
      by (auto simp: Update_loop.simps[of s] sha_holds_def kBufferSize_def)
  qed
qed

section \<open>Finalize\<close>

lemma swap_masks:
  "(0xFF00 :: u32) = push_bit 8 (mask 8)" "(0xFF0000 :: u32) = push_bit 16 (mask 8)"
  "(0xFF000000 :: u32) = push_bit 24 (mask 8)"
  by (simp_all add: mask_eq_exp_minus_1 push_bit_eq_mult)

lemma swap_word_bytes:
  "ucast (swap_word w) = (ucast (drop_bit 24 w) :: byte)"
  "ucast (drop_bit 8 (swap_word w)) = (ucast (drop_bit 16 w) :: byte)"
  "ucast (drop_bit 16 (swap_word w)) = (ucast (drop_bit 8 w) :: byte)"
  "ucast (drop_bit 24 (swap_word w)) = (ucast w :: byte)"
  unfolding swap_word_def swap_masks
  using bit_imp_le_length[of w] by - (rule bit_word_eqI; fastforce simp: bit_simps)+

lemma memory_bytes_swap: "memory_bytes (swap_word w) = be_bytes 4 (unat w)"
proof -
  have "rev [0..<4] = [3, 2, 1, 0 :: nat]" by (simp add: upt_rec)
  then show ?thesis
    using byte_of_nat[of w 0] unfolding memory_bytes_def be_bytes_def swap_word_bytes
    by (simp add: byte_of_nat del: power_Suc) 
qed

lemma length_block_eq:
  assumes "mb_holds (sha_buffer s) r" "length r \<le> 56" "length (sha_hash s) = 8"
  shows "\<exists>s'. length_block s = Ret s' \<and>
    sha_hash s' = fips_compress (sha_hash s) (r @ replicate (56 - length r) 0 @ be_bytes 8 (unat (sha_message_len s)))"
proof -
  obtain b where b: "pad_zeros 56 (sha_buffer s) = Ret b" "mb_holds b (r @ replicate (56 - length r) 0)"
    using mb_holds_pad_zeros[OF assms(1), of 56] by (auto simp: kBufferSize_def)
  obtain b' where b': "append_length 8 (sha_message_len s) b = Ret b'"
    "mb_holds b' ((r @ replicate (56 - length r) 0) @ be_bytes 8 (unat (sha_message_len s)))"
    using mb_holds_append_length[OF b(2), of 8] assms(2) by (auto simp: kBufferSize_def)
  have sizes: "unat (mb_size b) = 56" "unat (mb_size b') = 64"
    using b(2) b'(2) assms(2) by (simp_all add: mb_holds_def)
  show ?thesis
    using flush_eq[OF b'(2) _ assms(3)] assms(2) sizes b(1) b'(1)
    by (auto simp: length_block_def sha_holds_def kBufferSize_def)
qed

lemma end_marker_eq:
  assumes "sha_holds s H r"
  shows "\<exists>s' H' r'. end_marker s = Ret s' \<and> sha_message_len s' = sha_message_len s \<and>
    sha_hash s' = H' \<and> length H' = 8 \<and> mb_holds (sha_buffer s') r' \<and> length r' \<le> 56 \<and>
    absorb H (r @ [0x80] @ replicate ((119 - length r) mod 64) 0 @ d)
      = absorb H' (r' @ replicate (56 - length r') 0 @ d)"
proof -
  have r: "mb_holds (sha_buffer s) r" "length r < 64" "sha_hash s = H" "length H = 8"
    using assms by (simp_all add: sha_holds_def kBufferSize_def)
  obtain b where b: "mb_push_back (sha_buffer s) 128 = Ret b" "mb_holds b (r @ [128])"
    using mb_holds_push_back[OF r(1), of 128] r(2) by (auto simp: kBufferSize_def)
  have size: "unat (mb_size b) = length r + 1" using b(2) by (simp add: mb_holds_def)
  show ?thesis
  proof (cases "length r < 56")
    case True
    then have "(119 - length r) mod 64 = 55 - length r" by (simp add: mod_if)
    then show ?thesis using True b r size
      by (auto simp: end_marker_def)
  next
    case False
    define r1 where "r1 = (r @ [128]) @ replicate (63 - length r) (0 :: byte)"
    have len: "length r1 = 64" using r(2) by (simp add: r1_def)
    obtain b' where b': "pad_zeros 64 b = Ret b'" "mb_holds b' r1"
      using mb_holds_pad_zeros[OF b(2), of 64] by (auto simp: kBufferSize_def r1_def)
    obtain s' where s': "flush (s\<lparr>sha_buffer := b'\<rparr>) = Ret s'" "sha_holds s' (fips_compress H r1) []"
      "sha_message_len s' = sha_message_len s"
      using flush_eq[OF b'(2), of s] len r by (auto simp: kBufferSize_def)
    have "(119 - length r) mod 64 = (63 - length r) + 56" using False r(2) by (simp add: mod_if)
    then have "replicate ((119 - length r) mod 64) (0 :: byte) = replicate (63 - length r) 0 @ replicate 56 0"
      by (simp only: replicate_add)
    then have "r @ [0x80] @ replicate ((119 - length r) mod 64) 0 @ d = r1 @ replicate 56 0 @ d"
      by (simp add: r1_def)
    then have "absorb H (r @ [0x80] @ replicate ((119 - length r) mod 64) 0 @ d)
        = absorb H (r1 @ replicate 56 0 @ d)"
      by (simp only:)
    then have "absorb H (r @ [0x80] @ replicate ((119 - length r) mod 64) 0 @ d)
        = absorb (fips_compress H r1) ([] @ replicate (56 - length []) 0 @ d)"
      using len by simp
    moreover have "end_marker s = Ret s'"
      using False s'(1) b(1) b'(1) size by (simp add: end_marker_def)
    ultimately show ?thesis using s'(2,3) unfolding sha_holds_def
      by (intro exI[of _ s'] exI[of _ "fips_compress H r1"] exI[of _ "[]"]) simp
  qed
qed

lemma Finalize_eq:
  assumes "sha_holds s H r"
  shows "\<exists>s'. sha256_Finalize s = Ret (s', \<lparr>hash_algorithm = kSha256,
    hash_bytes = concat (map (\<lambda>w. be_bytes 4 (unat w)) (foldl fips_compress H (fips_blocks
      (r @ [0x80] @ replicate ((119 - length r) mod 64) 0 @ be_bytes 8 (unat (sha_message_len s))))))\<rparr>)"
proof -
  let ?d = "be_bytes 8 (unat (sha_message_len s))"
  obtain s1 H1 r1 where s1: "end_marker s = Ret s1" "sha_message_len s1 = sha_message_len s"
    "sha_hash s1 = H1" "length H1 = 8" "mb_holds (sha_buffer s1) r1" "length r1 \<le> 56"
    "absorb H (r @ [0x80] @ replicate ((119 - length r) mod 64) 0 @ ?d)
      = absorb H1 (r1 @ replicate (56 - length r1) 0 @ ?d)"
    using end_marker_eq[OF assms, of ?d] by blast
  let ?last = "r1 @ replicate (56 - length r1) 0 @ ?d"
  obtain s2 where s2: "length_block s1 = Ret s2" "sha_hash s2 = fips_compress H1 ?last"
    using length_block_eq[OF s1(5,6)] s1(2-4) by auto
  have "absorb H1 ?last = (fips_compress H1 ?last, [])"
    using s1(6) by simp
  then have "foldl fips_compress H (fips_blocks (r @ [0x80] @ replicate ((119 - length r) mod 64) 0 @ ?d))
      = sha_hash s2"
    using absorb_blocks s1(7) s2(2) by metis
  then show ?thesis
    using s1(1) s2(1) by (simp add: sha256_Finalize_def Let_def memory_bytes_swap comp_def)
qed

section \<open>The digest of a message\<close>

definition sha_absorbed :: "sha256 \<Rightarrow> byte list \<Rightarrow> bool" where
  "sha_absorbed s m \<longleftrightarrow> (case absorb kSha256StartingValues m of (H, r) \<Rightarrow> sha_holds s H r) \<and>
     8 * length m < 2 ^ 64 - 1 \<and> unat (sha_message_len s) = 8 * length m"

lemma sha_absorbed_init: "sha_absorbed sha256_init []"
  by (simp add: sha_absorbed_def sha_holds_def sha256_init_def mb_holds_empty kSha256StartingValues_def
      kBufferSize_def)

lemma sha_absorbed_update:
  assumes "sha_absorbed s m" "d \<noteq> []" "length m + length d < 2 ^ 61 - 1"
  shows "\<exists>s'. sha256_Update s d = Ret (s', Inr ()) \<and> sha_absorbed s' (m @ d)"
proof -
  obtain H r where H: "absorb kSha256StartingValues m = (H, r)" "sha_holds s H r"
    using assms(1) by (auto simp: sha_absorbed_def split: prod.splits)
  obtain s' H' r' where s': "Update_loop s d 0 = Ret s'" "sha_holds s' H' r'"
    "sha_message_len s' = sha_message_len s" "absorb H (r @ d) = (H', r')"
    using Update_loop_eq[OF H(2), of d 0] by auto
  define count :: u64 where "count = word_of_nat (length d) * 8"
  have "count = word_of_nat (length d * 8)" by (simp add: count_def)
  then have count: "unat count = 8 * length d"
    using assms(3) by (simp only: unat_of_nat) simp
  have len: "unat (sha_message_len s) = 8 * length m" using assms(1) by (simp add: sha_absorbed_def)
  have "unat (0xFFFFFFFFFFFFFFFF - count) = 0xFFFFFFFFFFFFFFFF - unat count"
    using assms(3) count by (subst unat_sub) (simp_all add: word_le_nat_alt)
  then have "sha_message_len s < 0xFFFFFFFFFFFFFFFF - count"
    using assms(3) len count by (simp add: word_less_nat_alt)
  moreover have "unat (sha_message_len s + count) = 8 * length (m @ d)"
    using assms(3) len count by (simp add: unat_word_ariths)
  ultimately show ?thesis
    using s' H assms(2,3) absorb_append[of kSha256StartingValues m d]
    by (simp add: sha256_Update_def sha_absorbed_def sha_holds_def Let_def flip: count_def)
qed

lemma sha_absorbed_finalize:
  assumes "sha_absorbed s m"
  shows "\<exists>s'. sha256_Finalize s = Ret (s', \<lparr>hash_algorithm = kSha256, hash_bytes = fips_sha256 m\<rparr>)"
proof -
  obtain H r where H: "absorb kSha256StartingValues m = (H, r)" "sha_holds s H r"
    "unat (sha_message_len s) = 8 * length m"
    using assms by (auto simp: sha_absorbed_def split: prod.splits)
  let ?p = "[0x80] @ replicate ((119 - length r) mod 64) 0 @ be_bytes 8 (8 * length m)"
  have pad: "fips_pad m = m @ ?p"
    using absorb_rest[OF H(1)] by (simp add: fips_pad_def)
  obtain H' r' where H': "absorb H (r @ ?p) = (H', r')" by fastforce
  moreover have "absorb kSha256StartingValues (fips_pad m) = absorb H (r @ ?p)"
    using absorb_append[of kSha256StartingValues m ?p] H(1) by (simp only: pad prod.case)
  ultimately have "foldl fips_compress H (fips_blocks (r @ ?p))
      = foldl fips_compress kSha256StartingValues (fips_blocks (fips_pad m))"
    using absorb_blocks[of H "r @ ?p"] absorb_blocks[of kSha256StartingValues "fips_pad m"] by simp
  then show ?thesis
    using Finalize_eq[OF H(2)] H(3) by (simp add: fips_sha256_def)
qed

interpretation sha: hash_calculator sha256_Update sha256_Finalize sha_absorbed "\<lambda>n. n < 2 ^ 61 - 1"
  "\<lambda>m. \<lparr>hash_algorithm = kSha256, hash_bytes = fips_sha256 m\<rparr>"
  by unfold_locales (use sha_absorbed_update in blast, simp add: sha256_Update_def,
      use sha_absorbed_finalize in blast, simp)

lemma length_fips_sha256: "length (fips_sha256 m) = 32"
proof -
  have "length (foldl fips_compress H bs) = 8" if "length H = 8" for H bs
    using that by (induction bs arbitrary: H) (simp_all add: length_fips_compress)
  then have "length (foldl fips_compress kSha256StartingValues (fips_blocks (fips_pad m))) = 8"
    by (simp add: kSha256StartingValues_def)
  then show ?thesis
    by (simp add: fips_sha256_def length_concat comp_def sum_list_triv)
qed

text \<open>
  C19: SHA-256 is computed correctly and incrementally. Cut a message of less than 2 to the 61 minus 1
  bytes into non-empty pieces in any way: every \<open>Update\<close> succeeds, no precondition fails and no array
  is accessed out of bounds, and \<open>Finalize\<close> returns the 32 bytes of the FIPS 180-4 digest of the whole
  message, with the algorithm \<open>kSha256\<close>.
\<close>

theorem sha256_correct:
  assumes "list_all (\<lambda>d. d \<noteq> []) pieces" "length (concat pieces) < 2 ^ 61 - 1"
  shows "\<exists>s s'. Updates sha256_Update sha256_init pieces = Ret (s, Inr ()) \<and>
    sha256_Finalize s = Ret (s', \<lparr>hash_algorithm = kSha256, hash_bytes = fips_sha256 (concat pieces)\<rparr>) \<and>
    length (fips_sha256 (concat pieces)) = 32"
proof -
  obtain s where s: "Updates sha256_Update sha256_init pieces = Ret (s, Inr ())"
    "sha_absorbed s (concat pieces)"
    using sha.updates[OF sha_absorbed_init assms(1)] assms(2) by auto
  then show ?thesis using sha_absorbed_finalize[OF s(2)] length_fips_sha256 by blast
qed

theorem sha256_correct_witness:
  "list_all (\<lambda>d. d \<noteq> []) [[97], [98, 99 :: byte]] \<and> length (concat [[97], [98, 99 :: byte]]) < 2 ^ 61 - 1 \<and>
   (\<exists>s s'. Updates sha256_Update sha256_init [[97], [98, 99]] = Ret (s, Inr ()) \<and>
      sha256_Finalize s = Ret (s', \<lparr>hash_algorithm = kSha256, hash_bytes = fips_sha256 [97, 98, 99]\<rparr>))"
proof -
  have hyps: "list_all (\<lambda>d. d \<noteq> []) [[97], [98, 99 :: byte]]"
    "length (concat [[97], [98, 99 :: byte]]) < 2 ^ 61 - 1"
    by simp_all
  have pieces: "concat [[97], [98, 99 :: byte]] = [97, 98, 99]" by simp
  show ?thesis using sha256_correct[OF hyps] hyps unfolding pieces by blast
qed

lemma fraction_of_root_list:
  "list_all2 (\<lambda>(n, p) w. root_bounds k n p w) (zip ns ps) ws \<Longrightarrow> length ns = length ps \<Longrightarrow>
   list_all2 (fraction_of_root k) ps ws"
  by (auto simp: list_all2_conv_all_nth fraction_of_root_def)

lemma round_constants:
  "list_all2 (fraction_of_root 3) first_primes kSha256Constants"
proof (rule fraction_of_root_list)
  let ?ns = "replicate 4 1 @ replicate 5 2 @ replicate 9 3 @ replicate 12 4 @ replicate 17 5 @ replicate 17 6"
  have ns: "?ns = [1,1,1,1,2,2,2,2,2,3,3,3,3,3,3,3,3,3,4,4,4,4,4,4,4,4,4,4,4,4,
    5,5,5,5,5,5,5,5,5,5,5,5,5,5,5,5,5,6,6,6,6,6,6,6,6,6,6,6,6,6,6,6,6,6::nat]"
    by (simp add: numeral_eq_Suc)
  show "length ?ns = length first_primes" by (simp add: first_primes_def)
  show "list_all2 (\<lambda>(n, p) w. root_bounds 3 n p w) (zip ?ns first_primes) kSha256Constants"
    unfolding ns first_primes_def kSha256Constants_def by (simp add: root_bounds_def)
qed

lemma starting_values:
  "list_all2 (fraction_of_root 2) (take 8 first_primes) kSha256StartingValues"
proof (rule fraction_of_root_list)
  have ps: "take 8 first_primes = [2, 3, 5, 7, 11, 13, 17, 19]" by (simp add: first_primes_def)
  let ?ns = "[1, 1, 2, 2, 3, 3, 4, 4]"
  show "length ?ns = length (take 8 first_primes)" by (simp add: ps)
  show "list_all2 (\<lambda>(n, p) w. root_bounds 2 n p w) (zip ?ns (take 8 first_primes)) kSha256StartingValues"
    unfolding ps kSha256StartingValues_def by (simp add: root_bounds_def)
qed

text \<open>
  The constants of the implementation are those of the standard: the 64 round constants are the
  first 32 bits of the fractional parts of the cube roots of the first 64 primes, the starting values
  those of the square roots of the first eight primes.
\<close>

theorem sha256_constants_correct:
  "list_all2 (fraction_of_root 3) first_primes kSha256Constants \<and>
   list_all2 (fraction_of_root 2) (take 8 first_primes) kSha256StartingValues"
  using round_constants starting_values by blast

end
