(* ===== verification/Crc32.thy ===== *)
theory Crc32
  imports Hash_Calculator
begin

unbundle bit_operations_syntax

text \<open>
  The CRC32 calculator (src/score/hash/code/crc): the compile-time table \<open>internal::LookupTable\<close> and
  \<open>Crc32IeeeHashCalculator\<close>. The code works on \<open>std::uint_fast32_t\<close>, which has 32 bits on some of the
  supported platforms and 64 on others; the model is parametric in that width. The result is compared
  with the bit-serial definition of the checksum of IEEE 802.3.
\<close>

section \<open>The lookup table\<close>

definition table_round :: "'w::len word \<Rightarrow> 'w word \<Rightarrow> 'w word" where
  "table_round ReversePolynomial checksum = (
     if checksum AND 0x1 \<noteq> 0 then drop_bit 1 checksum XOR ReversePolynomial
     else drop_bit 1 checksum XOR 0)"

definition LookupTable :: "'w::len word \<Rightarrow> 'w word list" where
  "LookupTable ReversePolynomial =
     map (\<lambda>table_index. (table_round ReversePolynomial ^^ 8) (word_of_nat table_index)) [0..<256]"

section \<open>The calculator\<close>

definition kAllOnes :: "'w::len word" where "kAllOnes = 0xFFFFFFFF"

definition kIeeeCrc32LookupTable :: "'w::len word list" where
  "kIeeeCrc32LookupTable = LookupTable 0xEDB88320"

definition CalculateIeeeCrc32 :: "'w::len word \<Rightarrow> byte list \<Rightarrow> 'w word" where
  "CalculateIeeeCrc32 start data = 0xFFFFFFFF AND
     foldl (\<lambda>checksum value.
              kIeeeCrc32LookupTable ! unat ((checksum XOR ucast value) AND 0xFF) XOR drop_bit 8 checksum)
       (start AND kAllOnes) data"

record 'checksum crc32 =
  crc_checksum :: 'checksum

definition crc32_init :: "'w::len word crc32" where
  "crc32_init = \<lparr>crc_checksum = kAllOnes\<rparr>"

definition GetChecksum :: "'w::len word crc32 \<Rightarrow> 'w word" where
  "GetChecksum c = NOT (crc_checksum c) AND kAllOnes"

definition crc32_Update :: "'w::len word crc32 \<Rightarrow> byte list \<Rightarrow> ('w word crc32 \<times> (hash_error + unit)) result" where
  "crc32_Update c data = Ret (c\<lparr>crc_checksum := CalculateIeeeCrc32 (crc_checksum c) data\<rparr>, Inr ())"

definition crc32_Finalize :: "'w::len word crc32 \<Rightarrow> ('w word crc32 \<times> Hash) result" where
  "crc32_Finalize c = (let checksum = NOT (crc_checksum c) in
     Ret (c, \<lparr>hash_algorithm = kCrc32, hash_bytes =
       [ucast (checksum AND 0xFF), ucast (drop_bit 8 checksum AND 0xFF),
        ucast (drop_bit 16 checksum AND 0xFF), ucast (drop_bit 24 checksum AND 0xFF)]\<rparr>))"

section \<open>The checksum of IEEE 802.3\<close>

text \<open>
  A shift register of 32 bits with the generator polynomial 0x04C11DB7, preset to ones. The bits of
  the message enter with the least significant bit of each byte first. The checksum is the complement
  of the register, whose bits are read in reverse.
\<close>

definition crc_shift :: "u32 \<Rightarrow> bool \<Rightarrow> u32" where
  "crc_shift reg b = (if bit reg 31 \<noteq> b then push_bit 1 reg XOR 0x04C11DB7 else push_bit 1 reg)"

definition message_bits :: "byte list \<Rightarrow> bool list" where
  "message_bits m = concat (map (\<lambda>b. map (bit b) [0..<8]) m)"

definition ieee_crc32 :: "byte list \<Rightarrow> u32" where
  "ieee_crc32 m = NOT (word_reverse (foldl crc_shift 0xFFFFFFFF (message_bits m)))"

section \<open>The table computes eight shifts at once\<close>

definition crc_bit :: "u32 \<Rightarrow> u32" where "crc_bit c = table_round 0xEDB88320 c"

lemma and_1_neq_0: "(c :: 'a::len word) AND 1 \<noteq> 0 \<longleftrightarrow> odd c"
  by (simp add: and_one_eq odd_iff_mod_2_eq_one)

lemma crc_bit_eq: "crc_bit c = (if odd c then drop_bit 1 c XOR 0xEDB88320 else drop_bit 1 c)"
  by (simp add: crc_bit_def table_round_def and_1_neq_0)

lemma crc_bit_xor: "crc_bit (c XOR d) = crc_bit c XOR crc_bit d"
  by (auto simp: crc_bit_eq drop_bit_xor even_xor_iff ac_simps)

lemma crc_bits_xor: "(crc_bit ^^ n) (c XOR d) = (crc_bit ^^ n) c XOR (crc_bit ^^ n) d"
  by (induction n) (simp_all add: crc_bit_xor)

lemma crc_bits_zeros: "(\<forall>i<n. \<not> bit c i) \<Longrightarrow> (crc_bit ^^ n) c = drop_bit n c"
proof (induction n)
  case (Suc n)
  then have "\<not> odd (drop_bit n c)" by (simp add: bit_simps flip: bit_0)
  then show ?case using Suc by (simp add: crc_bit_eq)
qed simp

lemma crc_byte_table: "(crc_bit ^^ 8) c = (crc_bit ^^ 8) (c AND 0xFF) XOR drop_bit 8 c"
proof -
  have mask: "(0xFF :: u32) = mask 8" by (simp add: mask_eq_exp_minus_1)
  have "c = (c AND 0xFF) XOR (c AND NOT 0xFF)"
    by (rule bit_word_eqI) (auto simp: bit_simps)
  then have "(crc_bit ^^ 8) c = (crc_bit ^^ 8) (c AND 0xFF) XOR (crc_bit ^^ 8) (c AND NOT 0xFF)"
    by (metis crc_bits_xor)
  also have "(crc_bit ^^ 8) (c AND NOT 0xFF) = drop_bit 8 (c AND NOT 0xFF)"
    unfolding mask by (rule crc_bits_zeros) (simp add: bit_simps)
  also have "drop_bit 8 (c AND NOT 0xFF) = drop_bit 8 c"
    unfolding mask by (rule bit_word_eqI) (auto simp: bit_simps dest: bit_imp_le_length)
  finally show ?thesis .
qed

text \<open>The reflected register: shifting right with the reversed polynomial.\<close>

lemma word_reverse_xor: "word_reverse (x XOR y) = word_reverse x XOR word_reverse (y :: u32)"
  by (rule bit_word_eqI) (auto simp: bit_simps bit_word_reverse_iff)

lemma word_reverse_push: "word_reverse (push_bit n x) = drop_bit n (word_reverse (x :: u32))"
proof (rule bit_word_eqI)
  fix i assume "i < LENGTH(32)"
  then show "bit (word_reverse (push_bit n x)) i = bit (drop_bit n (word_reverse x)) i"
    by (auto simp: bit_simps bit_word_reverse_iff add.commute[of n i])
qed

lemma word_reverse_poly: "word_reverse (0x04C11DB7 :: u32) = 0xEDB88320"
  by code_simp

lemma word_reverse_crc_shift:
  "word_reverse (crc_shift reg b) = crc_bit (word_reverse reg XOR of_bool b)"
proof -
  have "odd (word_reverse reg XOR of_bool b) \<longleftrightarrow> bit reg 31 \<noteq> b"
    by (simp add: bit_word_reverse_iff flip: bit_0) (auto simp: bit_simps bit_word_reverse_iff simp flip: bit_0)
  moreover have "drop_bit 1 (word_reverse reg XOR of_bool b) = drop_bit 1 (word_reverse reg)"
    by (cases b) (auto simp: drop_bit_xor)
  ultimately show ?thesis
    using word_reverse_push[of 1 reg]
    by (simp add: crc_shift_def crc_bit_eq word_reverse_xor word_reverse_poly)
qed

lemma take_bit_Suc_xor:
  "ucast (take_bit (Suc k) (b :: byte)) = (ucast (take_bit k b) XOR push_bit k (of_bool (bit b k)) :: u32)"
  by (rule bit_word_eqI) (auto simp: bit_simps less_Suc_eq)

lemma crc_byte_serial:
  assumes "k \<le> 8"
  shows "foldl (\<lambda>r x. crc_bit (r XOR of_bool x)) r (map (bit b) [0..<k])
     = (crc_bit ^^ k) (r XOR ucast (take_bit k (b :: byte)))"
  using assms
proof (induction k)
  case (Suc k)
  have "(crc_bit ^^ k) (push_bit k (of_bool (bit b k))) = drop_bit k (push_bit k (of_bool (bit b k)))"
    by (rule crc_bits_zeros) (simp add: bit_simps)
  also have "\<dots> = of_bool (bit b k)"
    using Suc.prems by (intro bit_word_eqI) (auto simp: bit_simps)
  finally show ?case using Suc
    by (simp add: take_bit_Suc_xor crc_bits_xor flip: xor.assoc)
qed simp

lemma crc_serial:
  "word_reverse (foldl crc_shift reg (message_bits m))
     = foldl (\<lambda>r b. (crc_bit ^^ 8) (r XOR ucast b)) (word_reverse reg) m"
proof -
  have rev: "word_reverse (foldl crc_shift reg bs)
      = foldl (\<lambda>r x. crc_bit (r XOR of_bool x)) (word_reverse reg) bs" for reg bs
    by (induction bs arbitrary: reg) (simp_all add: word_reverse_crc_shift)
  have "foldl (\<lambda>r x. crc_bit (r XOR of_bool x)) r (message_bits m)
      = foldl (\<lambda>r b. (crc_bit ^^ 8) (r XOR ucast b)) r m" for r
  proof (induction m arbitrary: r)
    case (Cons b m)
    have "take_bit 8 b = b" by (rule bit_word_eqI) (simp add: bit_simps)
    then show ?case using Cons crc_byte_serial[of 8 r b] by (simp add: message_bits_def)
  qed (simp add: message_bits_def)
  then show ?thesis by (simp add: rev)
qed

section \<open>Independence of the width\<close>

lemma wide_drop_bit:
  "32 \<le> LENGTH('w::len) \<Longrightarrow> (ucast (drop_bit n x :: u32) :: 'w word) = drop_bit n (ucast x)"
  by (rule bit_word_eqI) (auto simp: bit_simps dest: bit_imp_le_length)

lemma wide_odd: "odd (ucast (x :: u32) :: 'w::len word) = odd x"
  by (simp add: bit_simps flip: bit_0)

lemma wide_unat: "32 \<le> LENGTH('w::len) \<Longrightarrow> unat (ucast (x :: u32) :: 'w word) = unat x"
  using unsigned_less[of x, where 'a = nat] power_increasing[of 32 "LENGTH('w)" "2 :: nat"]
  by (simp add: unsigned_ucast_eq take_bit_nat_eq_self_iff)

lemma wide_table_round:
  assumes "32 \<le> LENGTH('w::len)"
  shows "(table_round 0xEDB88320 ^^ n) (ucast x :: 'w word) = ucast ((crc_bit ^^ n) x)"
proof -
  have "table_round 0xEDB88320 (ucast y :: 'w word) = ucast (crc_bit y)" for y
    using wide_drop_bit[OF assms, of 1 y]
    by (simp add: table_round_def and_1_neq_0 crc_bit_eq unsigned_xor_eq wide_odd)
  then show ?thesis by (induction n) simp_all
qed

lemma wide_table:
  assumes "32 \<le> LENGTH('w::len)"
  shows "kIeeeCrc32LookupTable ! unat (ucast (x AND 0xFF :: u32) :: 'w word)
     = (ucast ((crc_bit ^^ 8) (x AND 0xFF)) :: 'w word)"
proof -
  have "x AND 0xFF \<le> (0xFF :: u32)" by (simp add: word_and_le1)
  then have n: "unat (x AND 0xFF) < 256" by (simp add: word_le_nat_alt)
  have "(word_of_nat (unat (x AND 0xFF)) :: 'w word) = ucast (x AND 0xFF)"
    by simp
  then show ?thesis
    using n wide_table_round[OF assms, of 8 "x AND 0xFF"]
    unfolding kIeeeCrc32LookupTable_def LookupTable_def wide_unat[OF assms]
    by (simp del: funpow.simps)
qed

lemma wide_step:
  assumes "32 \<le> LENGTH('w::len)"
  shows "kIeeeCrc32LookupTable ! unat ((ucast (c :: u32) XOR ucast (v :: byte)) AND 0xFF :: 'w word)
      XOR drop_bit 8 (ucast c) = (ucast ((crc_bit ^^ 8) (c XOR ucast v)) :: 'w word)"
proof -
  let ?x = "c XOR ucast v"
  have "(ucast v :: 'w word) = ucast (ucast v :: u32)" 
    by (rule bit_word_eqI) (auto simp: bit_simps dest: bit_imp_le_length)
  then have index: "((ucast c XOR ucast v) AND 0xFF :: 'w word) = ucast (?x AND 0xFF)"
    by (simp add: unsigned_and_eq unsigned_xor_eq)
  have "drop_bit 8 ?x = drop_bit 8 c"
    by (rule bit_word_eqI) (auto simp: bit_simps dest: bit_imp_le_length)
  then show ?thesis
    using crc_byte_table[of ?x] wide_table[OF assms, of ?x] wide_drop_bit[OF assms, of 8 c]
    unfolding index by (simp add: unsigned_xor_eq del: funpow.simps)
qed

lemma CalculateIeeeCrc32_eq:
  assumes "32 \<le> LENGTH('w::len)"
  shows "CalculateIeeeCrc32 (ucast (c :: u32) :: 'w word) data
     = ucast (foldl (\<lambda>r b. (crc_bit ^^ 8) (r XOR ucast b)) c data)"
proof -
  have ones: "(0xFFFFFFFF :: 'w word) AND ucast (x :: u32) = ucast x" for x
    by (rule bit_word_eqI) (auto simp: bit_simps dest: bit_imp_le_length)
  have "foldl (\<lambda>checksum value.
          kIeeeCrc32LookupTable ! unat ((checksum XOR ucast value) AND 0xFF) XOR drop_bit 8 checksum)
        (ucast c :: 'w word) data = ucast (foldl (\<lambda>r b. (crc_bit ^^ 8) (r XOR ucast b)) c data)"
    by (induction data arbitrary: c) (simp_all add: wide_step[OF assms] del: funpow.simps)
  then show ?thesis using ones[of c] ones
    by (simp add: CalculateIeeeCrc32_def kAllOnes_def and.commute del: funpow.simps)
qed


section \<open>The digest\<close>

definition crc_absorbed :: "'w::len word crc32 \<Rightarrow> byte list \<Rightarrow> bool" where
  "crc_absorbed c m \<longleftrightarrow> 32 \<le> LENGTH('w) \<and>
     crc_checksum c = ucast (foldl (\<lambda>r b. (crc_bit ^^ 8) (r XOR ucast b)) 0xFFFFFFFF m)"

definition crc_digest :: "byte list \<Rightarrow> Hash" where
  "crc_digest m = \<lparr>hash_algorithm = kCrc32, hash_bytes =
     map (\<lambda>i. word_of_nat (unat (ieee_crc32 m) div 256 ^ i)) [0..<4]\<rparr>"

lemma ieee_crc32_eq:
  "ieee_crc32 m = NOT (foldl (\<lambda>r b. (crc_bit ^^ 8) (r XOR ucast b)) 0xFFFFFFFF m)"
proof -
  have "word_reverse (0xFFFFFFFF :: u32) = 0xFFFFFFFF" by code_simp
  then show ?thesis by (simp add: ieee_crc32_def crc_serial del: funpow.simps)
qed

lemma crc_absorbed_init: "32 \<le> LENGTH('w::len) \<Longrightarrow> crc_absorbed (crc32_init :: 'w word crc32) []"
  by (simp add: crc_absorbed_def crc32_init_def kAllOnes_def)

lemma crc_absorbed_update:
  "crc_absorbed c m \<Longrightarrow> \<exists>c'. crc32_Update c d = Ret (c', Inr ()) \<and> crc_absorbed c' (m @ d)"
  by (simp add: crc_absorbed_def crc32_Update_def CalculateIeeeCrc32_eq del: funpow.simps)

lemma crc_checksum_bytes:
  assumes "crc_absorbed (c :: 'w::len word crc32) m" "i < 4"
  shows "ucast (drop_bit (8 * i) (NOT (crc_checksum c)) AND 0xFF) = (ucast (drop_bit (8 * i) (ieee_crc32 m)) :: byte)"
proof (rule bit_word_eqI)
  fix n assume "n < LENGTH(8)"
  then have n: "n < 8" by simp
  have mask: "(0xFF :: 'w word) = mask 8" by (simp add: mask_eq_exp_minus_1)
  show "bit (ucast (drop_bit (8 * i) (NOT (crc_checksum c)) AND 0xFF) :: byte) n
      = bit (ucast (drop_bit (8 * i) (ieee_crc32 m)) :: byte) n"
    using assms n unfolding mask by (simp add: crc_absorbed_def ieee_crc32_eq bit_simps del: funpow.simps)
qed

lemma crc_absorbed_finalize:
  assumes "crc_absorbed (c :: 'w::len word crc32) m"
  shows "crc32_Finalize c = Ret (c, crc_digest m)" "GetChecksum c = ucast (ieee_crc32 m)"
proof -
  have "[0..<4] = [0, 1, 2, 3 :: nat]" by (simp add: upt_rec)
  then show "crc32_Finalize c = Ret (c, crc_digest m)"
    using crc_checksum_bytes[OF assms, of 0] crc_checksum_bytes[OF assms, of 1]
      crc_checksum_bytes[OF assms, of 2] crc_checksum_bytes[OF assms, of 3]
      byte_of_nat[of "ieee_crc32 m" 0] byte_of_nat[of "ieee_crc32 m" 1]
      byte_of_nat[of "ieee_crc32 m" 2] byte_of_nat[of "ieee_crc32 m" 3]
    by (simp add: crc32_Finalize_def crc_digest_def Let_def)
  show "GetChecksum c = ucast (ieee_crc32 m)"
    using assms unfolding GetChecksum_def kAllOnes_def crc_absorbed_def ieee_crc32_eq
    by (intro bit_word_eqI) (auto simp: bit_simps simp del: funpow.simps)
qed

interpretation crc: hash_calculator "crc32_Update :: 'w::len word crc32 updater" crc32_Finalize crc_absorbed
  "\<lambda>_. True" crc_digest
  by unfold_locales (use crc_absorbed_update in blast, use crc_absorbed_update[where d = "[]"] in fastforce,
      use crc_absorbed_finalize(1) in blast, simp)

text \<open>
  C20: Whatever way a message is cut into updates (empty ones included) and whether
  \<open>std::uint_fast32_t\<close> has 32 bits or more, the table-driven calculator computes the bit-serial
  CRC-32 of IEEE 802.3 with the polynomial 0x04C11DB7: \<open>GetChecksum\<close> returns it, \<open>Finalize\<close> returns
  its four bytes, least significant first. \<open>Finalize\<close> leaves the calculator as it was, so the message
  can be continued.
\<close>

theorem crc32_correct:
  assumes "32 \<le> LENGTH('w::len)"
  shows "\<exists>c :: 'w word crc32. Updates crc32_Update crc32_init pieces = Ret (c, Inr ()) \<and>
    GetChecksum c = ucast (ieee_crc32 (concat pieces)) \<and>
    crc32_Finalize c = Ret (c, \<lparr>hash_algorithm = kCrc32, hash_bytes =
      map (\<lambda>i. word_of_nat (unat (ieee_crc32 (concat pieces)) div 256 ^ i)) [0..<4]\<rparr>)"
proof -
  have "\<exists>c' :: 'w word crc32. Updates crc32_Update c pieces = Ret (c', Inr ()) \<and> crc_absorbed c' (m @ concat pieces)"
    if "crc_absorbed c m" for c m
    using that
  proof (induction pieces arbitrary: c m)
    case (Cons d ds)
    then obtain c' where "crc32_Update c d = Ret (c', Inr ())" "crc_absorbed c' (m @ d)"
      using crc_absorbed_update by blast
    then show ?case using Cons.IH[of c' "m @ d"] by auto
  qed auto
  from this[OF crc_absorbed_init[OF assms]] show ?thesis
    using crc_absorbed_finalize unfolding crc_digest_def by fastforce
qed

theorem crc32_correct_witness:
  "32 \<le> LENGTH(64) \<and> (\<exists>c :: 64 word crc32.
     Updates crc32_Update crc32_init [[49, 50, 51, 52], [53, 54, 55, 56, 57]] = Ret (c, Inr ()) \<and>
     GetChecksum c = 0xCBF43926)"
proof -
  obtain c :: "64 word crc32" where c:
    "Updates crc32_Update crc32_init [[49, 50, 51, 52], [53, 54, 55, 56, 57]] = Ret (c, Inr ())"
    "GetChecksum c = ucast (ieee_crc32 [49, 50, 51, 52, 53, 54, 55, 56, 57])"
    using crc32_correct[where 'w = 64, of "[[49, 50, 51, 52], [53, 54, 55, 56, 57]]"] by auto
  have "ieee_crc32 [49, 50, 51, 52, 53, 54, 55, 56, 57] = 0xCBF43926" by code_simp
  then show ?thesis using c by auto
qed

end
