(* ===== verification/Hash_Factory.thy ===== *)
theory Hash_Factory
  imports Sha256 Crc32
begin

text \<open>
  Creating calculators and hashing in one call: \<open>OpensslHashCalculator\<close> (src/score/hash/code/openssl),
  the two factories and \<open>IHashCalculatorFactory::CalculateHash\<close> (core/factory). The OpenSSL library is
  a parameter: a record of its functions over a state \<open>'w\<close> of the library. The object behind a
  \<open>unique_ptr<IHashCalculator>\<close> is a datatype with one constructor per class; virtual calls dispatch
  on it.
\<close>

section \<open>OpenSSL\<close>

text \<open>
  \<open>IOpensslLib\<close>. Pointers are natural numbers and \<open>None\<close> is the null pointer; the functions that
  return 0 on failure return \<open>False\<close>. A finished digest is the list of its bytes.
\<close>

record 'w openssl =
  DigestAlgoSha256 :: "nat option"
  DigestAlgoSha384 :: "nat option"
  DigestAlgoSha512 :: "nat option"
  CreateDigestCtx :: "'w \<Rightarrow> nat option \<times> 'w"
  InitDigestCtx :: "nat \<Rightarrow> nat \<Rightarrow> 'w \<Rightarrow> bool \<times> 'w"
  UpdateDigestCtx :: "nat \<Rightarrow> byte list \<Rightarrow> 'w \<Rightarrow> bool \<times> 'w"
  FinalizeDigestValue :: "nat \<Rightarrow> 'w \<Rightarrow> byte list option \<times> 'w"
  ResetDigestCtx :: "nat \<Rightarrow> 'w \<Rightarrow> 'w"

record openssl_calculator =
  oc_context :: nat
  oc_algorithm :: HashAlgorithm

definition openssl_digest_type :: "'w openssl \<Rightarrow> HashAlgorithm \<Rightarrow> nat option" where
  "openssl_digest_type lib algorithm = (case algorithm of
     kSha256 \<Rightarrow> DigestAlgoSha256 lib
   | kSha384 \<Rightarrow> DigestAlgoSha384 lib
   | kSha512 \<Rightarrow> DigestAlgoSha512 lib
   | _ \<Rightarrow> None)"

definition openssl_Create ::
  "'w openssl \<Rightarrow> HashAlgorithm \<Rightarrow> 'w \<Rightarrow> (hash_error + openssl_calculator) \<times> 'w" where
  "openssl_Create lib algorithm w = (case openssl_digest_type lib algorithm of
     None \<Rightarrow> (Inl kCouldNotCreateDigest, w)
   | Some message_digest_type \<Rightarrow>
       (case CreateDigestCtx lib w of
          (None, w1) \<Rightarrow> (Inl kCouldNotCreateDigest, w1)
        | (Some ctx, w1) \<Rightarrow>
            (case InitDigestCtx lib ctx message_digest_type w1 of
               (False, w2) \<Rightarrow> (Inl kCouldNotCreateDigest, w2)
             | (True, w2) \<Rightarrow> (Inr \<lparr>oc_context = ctx, oc_algorithm = algorithm\<rparr>, w2))))"

text \<open>
  A span is a possibly absent list: the null data pointer, or the bytes. The deleter of the
  calculator frees the context.
\<close>

definition openssl_Update :: "'w openssl \<Rightarrow> openssl_calculator \<Rightarrow> byte list option \<Rightarrow> 'w
    \<Rightarrow> (hash_error + unit) \<times> 'w" where
  "openssl_Update lib c data w = (case data of
     None \<Rightarrow> (Inl kInvalidParameters, w)
   | Some bytes \<Rightarrow>
       (case UpdateDigestCtx lib (oc_context c) bytes w of
          (False, w1) \<Rightarrow> (Inl kCouldNotUpdateDigest, w1)
        | (True, w1) \<Rightarrow> (Inr (), w1)))"

text \<open>
  The library writes the digest into a buffer of \<open>kMaxDigestSize\<close> bytes; a longer one overruns it.
  A failed finalisation yields the empty hash with the algorithm \<open>kNone\<close>.
\<close>

definition openssl_Finalize :: "'w openssl \<Rightarrow> openssl_calculator \<Rightarrow> 'w \<Rightarrow> (Hash \<times> 'w) result" where
  "openssl_Finalize lib c w = (case FinalizeDigestValue lib (oc_context c) w of
     (None, w1) \<Rightarrow> Ret (\<lparr>hash_algorithm = kNone, hash_bytes = []\<rparr>, w1)
   | (Some digest, w1) \<Rightarrow>
       if length digest \<le> kMaxDigestSize
       then Ret (\<lparr>hash_algorithm = oc_algorithm c, hash_bytes = digest\<rparr>, w1)
       else Undefined)"

definition openssl_destroy :: "'w openssl \<Rightarrow> openssl_calculator \<Rightarrow> 'w \<Rightarrow> 'w" where
  "openssl_destroy lib c w = ResetDigestCtx lib (oc_context c) w"

section \<open>Calculators\<close>

datatype calculator =
    Crc32Calculator "64 word crc32"
  | Sha256Calculator sha256
  | OpensslCalculator openssl_calculator

text \<open>
  A calculator together with the state of the library, and the virtual calls on it. A span without data
  has no bytes; only the calculator on OpenSSL looks at the pointer.
\<close>

definition span_bytes :: "byte list option \<Rightarrow> byte list" where
  "span_bytes data = (case data of None \<Rightarrow> [] | Some bytes \<Rightarrow> bytes)"

definition calculator_Update ::
  "'w openssl \<Rightarrow> calculator \<times> 'w \<Rightarrow> byte list option \<Rightarrow> ((calculator \<times> 'w) \<times> (hash_error + unit)) result" where
  "calculator_Update lib cw data = (case cw of (c, w) \<Rightarrow> (case c of
     Crc32Calculator crc \<Rightarrow>
       bind_outcome (crc32_Update crc (span_bytes data)) (\<lambda>(crc', r). Ret ((Crc32Calculator crc', w), r))
   | Sha256Calculator sha \<Rightarrow>
       bind_outcome (sha256_Update sha (span_bytes data)) (\<lambda>(sha', r). Ret ((Sha256Calculator sha', w), r))
   | OpensslCalculator oc \<Rightarrow>
       (case openssl_Update lib oc data w of (r, w') \<Rightarrow> Ret ((c, w'), r))))"

text \<open>The update with the bytes of a buffer, as the reading of a stream calls it.\<close>

definition calculator_Update_bytes :: "'w openssl \<Rightarrow> (calculator \<times> 'w) updater" where
  "calculator_Update_bytes lib cw bytes = calculator_Update lib cw (Some bytes)"

definition calculator_Finalize ::
  "'w openssl \<Rightarrow> calculator \<times> 'w \<Rightarrow> ((calculator \<times> 'w) \<times> Hash) result" where
  "calculator_Finalize lib cw = (case cw of (c, w) \<Rightarrow> (case c of
     Crc32Calculator crc \<Rightarrow>
       bind_outcome (crc32_Finalize crc) (\<lambda>(crc', h). Ret ((Crc32Calculator crc', w), h))
   | Sha256Calculator sha \<Rightarrow>
       bind_outcome (sha256_Finalize sha) (\<lambda>(sha', h). Ret ((Sha256Calculator sha', w), h))
   | OpensslCalculator oc \<Rightarrow>
       bind_outcome (openssl_Finalize lib oc w) (\<lambda>(h, w'). Ret ((c, w'), h))))"

definition calculator_destroy :: "'w openssl \<Rightarrow> calculator \<times> 'w \<Rightarrow> 'w" where
  "calculator_destroy lib cw = (case cw of (c, w) \<Rightarrow> (case c of
     OpensslCalculator oc \<Rightarrow> openssl_destroy lib oc w
   | _ \<Rightarrow> w))"

section \<open>Factories\<close>

type_synonym 'w creator = "HashAlgorithm \<Rightarrow> 'w \<Rightarrow> (hash_error + calculator) \<times> 'w"

definition HashCalculatorFactory_Create :: "'w openssl \<Rightarrow> 'w creator" where
  "HashCalculatorFactory_Create lib algorithm w = (case algorithm of
     kCrc32 \<Rightarrow> (Inr (Crc32Calculator crc32_init), w)
   | kSha256 \<Rightarrow> (Inr (Sha256Calculator sha256_init), w)
   | kSha384 \<Rightarrow> (case openssl_Create lib algorithm w of
       (Inl e, w') \<Rightarrow> (Inl e, w') | (Inr digest, w') \<Rightarrow> (Inr (OpensslCalculator digest), w'))
   | kSha512 \<Rightarrow> (case openssl_Create lib algorithm w of
       (Inl e, w') \<Rightarrow> (Inl e, w') | (Inr digest, w') \<Rightarrow> (Inr (OpensslCalculator digest), w'))
   | _ \<Rightarrow> (Inl kCouldNotCreateDigest, w))"

definition SafeHashCalculatorFactory_Create :: "'w creator" where
  "SafeHashCalculatorFactory_Create algorithm w = (case algorithm of
     kCrc32 \<Rightarrow> (Inr (Crc32Calculator crc32_init), w)
   | kSha256 \<Rightarrow> (Inr (Sha256Calculator sha256_init), w)
   | _ \<Rightarrow> (Inl kCouldNotCreateDigest, w))"

text \<open>The calculator is destroyed when \<open>CalculateHash\<close> returns.\<close>

definition finish_hash ::
  "'w openssl \<Rightarrow> calculator \<times> 'w \<Rightarrow> hash_error + unit \<Rightarrow> ((hash_error + Hash) \<times> 'w) result" where
  "finish_hash lib cw update_result = (case update_result of
     Inl e \<Rightarrow> Ret (Inl e, calculator_destroy lib cw)
   | Inr _ \<Rightarrow> bind_outcome (calculator_Finalize lib cw) (\<lambda>(cw', h). Ret (Inr h, calculator_destroy lib cw')))"

definition CalculateHash ::
  "'w openssl \<Rightarrow> 'w creator \<Rightarrow> HashAlgorithm \<Rightarrow> byte list option \<Rightarrow> 'w \<Rightarrow> ((hash_error + Hash) \<times> 'w) result" where
  "CalculateHash lib CreateHashCalculator algorithm data w =
     (case CreateHashCalculator algorithm w of
        (Inl e, w') \<Rightarrow> Ret (Inl e, w')
      | (Inr c, w') \<Rightarrow>
          bind_outcome (calculator_Update lib (c, w') data) (\<lambda>(cw, r). finish_hash lib cw r))"

definition CalculateHash_stream ::
  "'w openssl \<Rightarrow> 'w creator \<Rightarrow> HashAlgorithm \<Rightarrow> istream \<Rightarrow> int \<Rightarrow> 'w
     \<Rightarrow> ((hash_error + Hash) \<times> 'w) result" where
  "CalculateHash_stream lib CreateHashCalculator algorithm input max_read w =
     (case CreateHashCalculator algorithm w of
        (Inl e, w') \<Rightarrow> Ret (Inl e, w')
      | (Inr c, w') \<Rightarrow>
          bind_outcome (UpdateFromStream_max (calculator_Update_bytes lib) (c, w') input max_read)
            (\<lambda>(cw, _, r). finish_hash lib cw r))"

definition CalculateHash_stream_all ::
  "'w openssl \<Rightarrow> 'w creator \<Rightarrow> HashAlgorithm \<Rightarrow> istream \<Rightarrow> 'w \<Rightarrow> ((hash_error + Hash) \<times> 'w) result" where
  "CalculateHash_stream_all lib CreateHashCalculator algorithm input w =
     CalculateHash_stream lib CreateHashCalculator algorithm input (- 1) w"

section \<open>Every calculator keeps the contract of the interface\<close>

text \<open>
  What the code relies on of OpenSSL (EVP\_DigestInit\_ex, EVP\_DigestUpdate, EVP\_DigestFinal\_ex): a context
  initialised with EVP\_sha256, EVP\_sha384 or EVP\_sha512 has absorbed nothing; a context for the algorithm
  \<open>a\<close> that has absorbed \<open>m\<close> (\<open>holds w ctx a m\<close>) absorbs more data or reports a failure, and it
  delivers the digest \<open>H a m\<close>, of at most \<open>kMaxDigestSize\<close> bytes, or reports a failure.
\<close>

definition evp_contract ::
  "'w openssl \<Rightarrow> ('w \<Rightarrow> nat \<Rightarrow> HashAlgorithm \<Rightarrow> byte list \<Rightarrow> bool) \<Rightarrow> (HashAlgorithm \<Rightarrow> byte list \<Rightarrow> byte list) \<Rightarrow> bool"
  where "evp_contract lib holds H \<longleftrightarrow>
    (\<forall>md ctx w w'. InitDigestCtx lib ctx md w = (True, w') \<longrightarrow>
       (DigestAlgoSha256 lib = Some md \<longrightarrow> holds w' ctx kSha256 []) \<and>
       (DigestAlgoSha384 lib = Some md \<longrightarrow> holds w' ctx kSha384 []) \<and>
       (DigestAlgoSha512 lib = Some md \<longrightarrow> holds w' ctx kSha512 [])) \<and>
    (\<forall>w ctx a m d w'. holds w ctx a m \<longrightarrow> UpdateDigestCtx lib ctx d w = (True, w') \<longrightarrow> holds w' ctx a (m @ d)) \<and>
    (\<forall>w ctx a m digest w'. holds w ctx a m \<longrightarrow> FinalizeDigestValue lib ctx w = (Some digest, w') \<longrightarrow>
       digest = H a m \<and> length digest \<le> kMaxDigestSize)"

text \<open>The runs in which no call on an initialised context fails.\<close>

definition evp_succeeds :: "'w openssl \<Rightarrow> ('w \<Rightarrow> nat \<Rightarrow> HashAlgorithm \<Rightarrow> byte list \<Rightarrow> bool) \<Rightarrow> bool" where
  "evp_succeeds lib holds \<longleftrightarrow> (\<forall>w ctx a m. holds w ctx a m \<longrightarrow>
     (\<forall>d. fst (UpdateDigestCtx lib ctx d w)) \<and> fst (FinalizeDigestValue lib ctx w) \<noteq> None)"

lemma evp_update:
  assumes "evp_contract lib holds H" "evp_succeeds lib holds" "holds w ctx a m"
  shows "\<exists>w'. UpdateDigestCtx lib ctx d w = (True, w') \<and> holds w' ctx a (m @ d)"
proof -
  have "fst (UpdateDigestCtx lib ctx d w)" using assms(2,3) unfolding evp_succeeds_def by blast
  then obtain w' where "UpdateDigestCtx lib ctx d w = (True, w')" by (cases "UpdateDigestCtx lib ctx d w") auto
  then show ?thesis using assms(1,3) unfolding evp_contract_def by blast
qed

lemma evp_final:
  assumes "evp_contract lib holds H" "evp_succeeds lib holds" "holds w ctx a m"
  shows "(\<exists>w'. FinalizeDigestValue lib ctx w = (Some (H a m), w')) \<and> length (H a m) \<le> kMaxDigestSize"
proof -
  have "fst (FinalizeDigestValue lib ctx w) \<noteq> None" using assms(2,3) unfolding evp_succeeds_def by blast
  then obtain digest w' where "FinalizeDigestValue lib ctx w = (Some digest, w')"
    by (cases "FinalizeDigestValue lib ctx w") auto
  then show ?thesis using assms(1,3) unfolding evp_contract_def by blast
qed

lemma evp_init:
  "evp_contract lib holds H \<Longrightarrow> openssl_digest_type lib a = Some md \<Longrightarrow>
     InitDigestCtx lib ctx md w = (True, w') \<Longrightarrow> holds w' ctx a []"
  unfolding evp_contract_def openssl_digest_type_def by (cases a) auto

definition calculator_absorbed ::
  "'w openssl \<Rightarrow> ('w \<Rightarrow> nat \<Rightarrow> HashAlgorithm \<Rightarrow> byte list \<Rightarrow> bool) \<Rightarrow> (HashAlgorithm \<Rightarrow> byte list \<Rightarrow> byte list)
     \<Rightarrow> HashAlgorithm \<Rightarrow> calculator \<times> 'w \<Rightarrow> byte list \<Rightarrow> bool" where
  "calculator_absorbed lib holds H a cw m \<longleftrightarrow>
     (case cw of (c, w) \<Rightarrow> (case c of
        Crc32Calculator crc \<Rightarrow> a = kCrc32 \<and> crc_absorbed crc m
      | Sha256Calculator sha \<Rightarrow> a = kSha256 \<and> sha_absorbed sha m
      | OpensslCalculator oc \<Rightarrow> evp_contract lib holds H \<and> evp_succeeds lib holds \<and>
          a = oc_algorithm oc \<and> a \<in> {kSha384, kSha512} \<and> holds w (oc_context oc) a m))"

definition digest_of :: "(HashAlgorithm \<Rightarrow> byte list \<Rightarrow> byte list) \<Rightarrow> HashAlgorithm \<Rightarrow> byte list \<Rightarrow> Hash" where
  "digest_of H a m = \<lparr>hash_algorithm = a, hash_bytes = (case a of
     kCrc32 \<Rightarrow> hash_bytes (crc_digest m)
   | kSha256 \<Rightarrow> fips_sha256 m
   | _ \<Rightarrow> H a m)\<rparr>"

lemma calculator_absorbed_openssl:
  "calculator_absorbed lib holds H a (OpensslCalculator oc, w) m \<longleftrightarrow> evp_contract lib holds H \<and> evp_succeeds lib holds \<and>
     a = oc_algorithm oc \<and> a \<in> {kSha384, kSha512} \<and> holds w (oc_context oc) a m"
  by (simp add: calculator_absorbed_def)

lemma calculator_absorbed_update:
  assumes "calculator_absorbed lib holds H a cw m" "d \<noteq> []" "length m + length d < 2 ^ 61 - 1"
  shows "\<exists>cw'. calculator_Update_bytes lib cw d = Ret (cw', Inr ()) \<and> calculator_absorbed lib holds H a cw' (m @ d)"
proof -
  obtain c w where cw: "cw = (c, w)" by fastforce
  show ?thesis
  proof (cases c)
    case (Crc32Calculator crc)
    then show ?thesis using crc_absorbed_update[of crc m d] assms(1)
      by (auto simp: cw calculator_absorbed_def calculator_Update_bytes_def calculator_Update_def span_bytes_def)
  next
    case (Sha256Calculator sha)
    then show ?thesis using sha_absorbed_update[of sha m d] assms
      by (auto simp: cw calculator_absorbed_def calculator_Update_bytes_def calculator_Update_def span_bytes_def)
  next
    case (OpensslCalculator oc)
    then obtain w' where "UpdateDigestCtx lib (oc_context oc) d w = (True, w')" "holds w' (oc_context oc) a (m @ d)"
      using assms(1) evp_update[of lib holds H w "oc_context oc" a m d]
      unfolding cw OpensslCalculator calculator_absorbed_openssl by blast
    then show ?thesis using assms(1)
      unfolding cw OpensslCalculator calculator_absorbed_openssl
      by (intro exI[of _ "(OpensslCalculator oc, w')"])
        (auto simp: calculator_absorbed_openssl calculator_Update_bytes_def calculator_Update_def span_bytes_def openssl_Update_def)
  qed
qed

lemma calculator_absorbed_empty:
  assumes "calculator_absorbed lib holds H a cw m"
  shows "\<exists>cw' r. calculator_Update_bytes lib cw [] = Ret (cw', r) \<and> calculator_absorbed lib holds H a cw' m"
proof -
  obtain c w where cw: "cw = (c, w)" by fastforce
  show ?thesis
  proof (cases c)
    case (Crc32Calculator crc)
    then show ?thesis using crc_absorbed_update[of crc m "[]"] assms
      by (auto simp: cw calculator_absorbed_def calculator_Update_bytes_def calculator_Update_def span_bytes_def)
  next
    case (Sha256Calculator sha)
    then show ?thesis using assms
      by (auto simp: cw calculator_absorbed_def calculator_Update_bytes_def calculator_Update_def span_bytes_def sha256_Update_def)
  next
    case (OpensslCalculator oc)
    then obtain w' where "UpdateDigestCtx lib (oc_context oc) [] w = (True, w')" "holds w' (oc_context oc) a (m @ [])"
      using assms evp_update[of lib holds H w "oc_context oc" a m "[]"]
      unfolding cw OpensslCalculator calculator_absorbed_openssl by blast
    then show ?thesis using assms
      unfolding cw OpensslCalculator calculator_absorbed_openssl
      by (intro exI[of _ "(OpensslCalculator oc, w')"] exI[of _ "Inr ()"])
        (auto simp: calculator_absorbed_openssl calculator_Update_bytes_def calculator_Update_def span_bytes_def openssl_Update_def)
  qed
qed

lemma calculator_absorbed_finalize:
  assumes "calculator_absorbed lib holds H a cw m"
  shows "\<exists>cw'. calculator_Finalize lib cw = Ret (cw', digest_of H a m)"
proof -
  obtain c w where cw: "cw = (c, w)" by fastforce
  show ?thesis
  proof (cases c)
    case (Crc32Calculator crc)
    then show ?thesis using crc_absorbed_finalize(1)[of crc m] assms
      by (auto simp: cw calculator_absorbed_def calculator_Finalize_def digest_of_def crc_digest_def)
  next
    case (Sha256Calculator sha)
    then show ?thesis using sha_absorbed_finalize[of sha m] assms
      by (auto simp: cw calculator_absorbed_def calculator_Finalize_def digest_of_def)
  next
    case (OpensslCalculator oc)
    then obtain w' where "FinalizeDigestValue lib (oc_context oc) w = (Some (H a m), w')"
      "length (H a m) \<le> kMaxDigestSize"
      using assms evp_final[of lib holds H w "oc_context oc" a m]
      unfolding cw OpensslCalculator calculator_absorbed_openssl by blast
    then show ?thesis using assms unfolding cw OpensslCalculator calculator_absorbed_openssl
      by (auto simp: calculator_Finalize_def openssl_Finalize_def digest_of_def)
  qed
qed

interpretation calculator: hash_calculator "calculator_Update_bytes lib" "calculator_Finalize lib"
  "calculator_absorbed lib holds H a" "\<lambda>n. n < 2 ^ 61 - 1" "digest_of H a" for lib holds H a
  by unfold_locales (use calculator_absorbed_update in blast, use calculator_absorbed_empty in blast,
      use calculator_absorbed_finalize in blast, simp)

text \<open>A calculator fresh from the factory has absorbed nothing.\<close>

lemma created_absorbed:
  assumes "evp_contract lib holds H" "evp_succeeds lib holds" "HashCalculatorFactory_Create lib a w = (Inr c, w')"
  shows "calculator_absorbed lib holds H a (c, w') []"
proof -
  have openssl: "holds w' (oc_context oc) a [] \<and> oc_algorithm oc = a"
    if "openssl_Create lib a w = (Inr oc, w')" for oc
    using that evp_init[OF assms(1)] unfolding openssl_Create_def
    by (auto split: option.splits prod.splits bool.splits)
  show ?thesis using assms sha_absorbed_init crc_absorbed_init[where 'w = 64] openssl
    by (cases a) (auto simp: HashCalculatorFactory_Create_def calculator_absorbed_def
        split: prod.splits sum.splits)
qed

lemma safe_factory:
  "SafeHashCalculatorFactory_Create a w = (Inr c, w') \<Longrightarrow> HashCalculatorFactory_Create lib a w = (Inr c, w')"
  by (auto simp: SafeHashCalculatorFactory_Create_def HashCalculatorFactory_Create_def split: HashAlgorithm.splits)

section \<open>A library that keeps the contract\<close>

text \<open>
  A library whose contexts keep the type of the digest and the whole message, and whose digest is that type with the
  length of the message, to show that the contracts can be kept together.
\<close>

type_synonym memory_contexts = "(nat \<times> nat \<times> byte list) list"

definition set_context :: "nat \<Rightarrow> (nat \<times> byte list \<Rightarrow> nat \<times> byte list) \<Rightarrow> memory_contexts \<Rightarrow> memory_contexts" where
  "set_context ctx f w = map (\<lambda>(i, x). (i, if i = ctx then f x else x)) w"

definition memory_openssl :: "memory_contexts openssl" where
  "memory_openssl = \<lparr>
     DigestAlgoSha256 = Some 0, DigestAlgoSha384 = Some 1, DigestAlgoSha512 = Some 2,
     CreateDigestCtx = (\<lambda>w. let ctx = Suc (sum_list (map fst w)) in (Some ctx, (ctx, 0, []) # w)),
     InitDigestCtx = (\<lambda>ctx md w. (map_of w ctx \<noteq> None, set_context ctx (\<lambda>_. (md, [])) w)),
     UpdateDigestCtx = (\<lambda>ctx d w. (map_of w ctx \<noteq> None, set_context ctx (\<lambda>(md, m). (md, m @ d)) w)),
     FinalizeDigestValue = (\<lambda>ctx w. (map_option (\<lambda>(md, m). [word_of_nat md, word_of_nat (length m)]) (map_of w ctx), w)),
     ResetDigestCtx = (\<lambda>ctx w. filter (\<lambda>(i, _). i \<noteq> ctx) w)\<rparr>"

definition memory_type :: "HashAlgorithm \<Rightarrow> nat" where
  "memory_type a = (case a of kSha384 \<Rightarrow> 1 | kSha512 \<Rightarrow> 2 | _ \<Rightarrow> 0)"

definition memory_holds :: "memory_contexts \<Rightarrow> nat \<Rightarrow> HashAlgorithm \<Rightarrow> byte list \<Rightarrow> bool" where
  "memory_holds w ctx a m \<longleftrightarrow> map_of w ctx = Some (memory_type a, m)"

definition memory_digest :: "HashAlgorithm \<Rightarrow> byte list \<Rightarrow> byte list" where
  "memory_digest a m = [word_of_nat (memory_type a), word_of_nat (length m)]"

lemma map_of_set_context: "map_of (set_context ctx f w) i = (if i = ctx then map_option f (map_of w i) else map_of w i)"
  by (induction w) (auto simp: set_context_def)

lemma memory_openssl_contract: "evp_contract memory_openssl memory_holds memory_digest" "evp_succeeds memory_openssl memory_holds"
  by (auto simp: evp_contract_def evp_succeeds_def memory_openssl_def memory_holds_def memory_digest_def memory_type_def
      map_of_set_context kMaxDigestSize_def)

section \<open>Hashing in one call\<close>

lemma finish_hash_absorbed:
  "calculator_absorbed lib holds H a cw m \<Longrightarrow>
     \<exists>w'. finish_hash lib cw (Inr ()) = Ret (Inr (digest_of H a m), w')"
  using calculator.finalize[of lib holds H a cw m] by (auto simp: finish_hash_def)

text \<open>A context that OpenSSL has created and initialised for SHA-384 or SHA-512, if it can.\<close>

definition evp_started :: "'w openssl \<Rightarrow> nat option \<Rightarrow> 'w \<Rightarrow> (nat \<times> 'w) option" where
  "evp_started lib digest_type w = (case digest_type of
     None \<Rightarrow> None
   | Some md \<Rightarrow> (case CreateDigestCtx lib w of
       (None, _) \<Rightarrow> None
     | (Some ctx, w1) \<Rightarrow> (case InitDigestCtx lib ctx md w1 of (ok, w2) \<Rightarrow> if ok then Some (ctx, w2) else None)))"

text \<open>The result for an algorithm of OpenSSL with the given digest type.\<close>

definition openssl_result ::
  "'w openssl \<Rightarrow> nat option \<Rightarrow> Hash \<Rightarrow> byte list option \<Rightarrow> 'w \<Rightarrow> hash_error + Hash" where
  "openssl_result lib digest_type digest data w = (case evp_started lib digest_type w of
     None \<Rightarrow> Inl kCouldNotCreateDigest
   | Some (ctx, w1) \<Rightarrow> (case data of
       None \<Rightarrow> Inl kInvalidParameters
     | Some bytes \<Rightarrow> (case UpdateDigestCtx lib ctx bytes w1 of (ok, w2) \<Rightarrow>
         if \<not> ok then Inl kCouldNotUpdateDigest
         else if fst (FinalizeDigestValue lib ctx w2) = None then Inr \<lparr>hash_algorithm = kNone, hash_bytes = []\<rparr>
         else Inr digest)))"

lemma openssl_Create_started:
  assumes "digest_type = openssl_digest_type lib a"
  shows "case evp_started lib digest_type w of
      None \<Rightarrow> \<exists>w'. openssl_Create lib a w = (Inl kCouldNotCreateDigest, w')
    | Some (ctx, w') \<Rightarrow> openssl_Create lib a w = (Inr \<lparr>oc_context = ctx, oc_algorithm = a\<rparr>, w')"
  using assms by (auto simp: evp_started_def openssl_Create_def split: option.splits prod.splits bool.splits)

lemma openssl_hash:
  assumes "evp_contract lib holds H" "(a, digest_type) \<in> {(kSha384, DigestAlgoSha384 lib), (kSha512, DigestAlgoSha512 lib)}"
  shows "\<exists>w'. CalculateHash lib (HashCalculatorFactory_Create lib) a data w =
    Ret (openssl_result lib digest_type (digest_of H a (span_bytes data)) data w, w')"
proof (cases "evp_started lib digest_type w")
  case None
  have "digest_type = openssl_digest_type lib a" using assms(2) by (auto simp: openssl_digest_type_def)
  from openssl_Create_started[OF this, of w] show ?thesis using None assms(2)
    by (auto simp: CalculateHash_def HashCalculatorFactory_Create_def openssl_result_def)
next
  case (Some x)
  obtain ctx w1 where x: "x = (ctx, w1)" by fastforce
  let ?oc = "\<lparr>oc_context = ctx, oc_algorithm = a\<rparr>"
  have type: "digest_type = openssl_digest_type lib a" using assms(2) by (auto simp: openssl_digest_type_def)
  have "openssl_Create lib a w = (Inr ?oc, w1)" using openssl_Create_started[OF type, of w] Some x by simp
  then have create: "HashCalculatorFactory_Create lib a w = (Inr (OpensslCalculator ?oc), w1)"
    using assms(2) by (auto simp: HashCalculatorFactory_Create_def)
  have holds: "holds w1 ctx a []"
    using Some x evp_init[OF assms(1), of a] type unfolding evp_started_def by (auto split: option.splits prod.splits if_splits)
  show ?thesis
  proof (cases data)
    case None
    then show ?thesis using create Some x
      by (simp add: CalculateHash_def calculator_Update_def openssl_Update_def finish_hash_def openssl_result_def)
  next
    case (Some bytes)
    obtain ok w2 where up: "UpdateDigestCtx lib ctx bytes w1 = (ok, w2)" by fastforce
    obtain digest w3 where fin: "FinalizeDigestValue lib ctx w2 = (digest, w3)" by fastforce
    have "h = H a bytes \<and> length h \<le> kMaxDigestSize" if "ok" "digest = Some h" for h
      using assms(1) holds up fin that unfolding evp_contract_def by fastforce
    then show ?thesis using create Some x up fin \<open>evp_started lib digest_type w = Some x\<close> assms(2)
      by (cases ok; cases digest)
        (auto simp: CalculateHash_def calculator_Update_def openssl_Update_def finish_hash_def openssl_result_def
          calculator_Finalize_def openssl_Finalize_def digest_of_def span_bytes_def)
  qed
qed

lemma own_hash:
  assumes "a \<in> {kCrc32, kSha256}" "length (span_bytes data) < 2 ^ 61 - 1"
  shows "CalculateHash lib (HashCalculatorFactory_Create lib) a data w =
    Ret (if a = kSha256 \<and> span_bytes data = [] then Inl kInvalidParameters else Inr (digest_of H a (span_bytes data)), w)"
proof (cases "a = kCrc32")
  case True
  obtain crc where "crc32_Update (crc32_init :: 64 word crc32) (span_bytes data) = Ret (crc, Inr ())" "crc_absorbed crc (span_bytes data)"
    using crc_absorbed_update[OF crc_absorbed_init[where 'w = 64], of "span_bytes data"] by auto
  then show ?thesis using True crc_absorbed_finalize(1)[of crc "span_bytes data"]
    by (auto simp: CalculateHash_def HashCalculatorFactory_Create_def calculator_Update_def finish_hash_def calculator_Finalize_def
        calculator_destroy_def digest_of_def crc_digest_def)
next
  case False
  then have a: "a = kSha256" using assms(1) by simp
  show ?thesis
  proof (cases "span_bytes data = []")
    case True
    then show ?thesis using a by (simp add: CalculateHash_def HashCalculatorFactory_Create_def calculator_Update_def sha256_Update_def
        finish_hash_def calculator_destroy_def)
  next
    case False
    then obtain sha where "sha256_Update sha256_init (span_bytes data) = Ret (sha, Inr ())" "sha_absorbed sha (span_bytes data)"
      using sha_absorbed_update[OF sha_absorbed_init, of "span_bytes data"] assms(2) by auto
    then show ?thesis using a False sha_absorbed_finalize[of sha "span_bytes data"]
      by (auto simp: CalculateHash_def HashCalculatorFactory_Create_def calculator_Update_def finish_hash_def calculator_Finalize_def
          calculator_destroy_def digest_of_def)
  qed
qed

text \<open>
  C21: Hashing a buffer in one call, for every algorithm and every buffer, with or without data.
  CRC-32 and SHA-256 give the IEEE checksum and the FIPS 180-4 digest; SHA-256 refuses an empty buffer. SHA-384 and
  SHA-512 give the digest that OpenSSL defines for EVP\_sha384 and EVP\_sha512: a context that cannot be set up, a
  buffer without data and a failed update are reported, but after a failed finalisation the call succeeds with
  the empty hash of the algorithm \<open>kNone\<close>. Every other algorithm is reported as \<open>kCouldNotCreateDigest\<close>.
  The factory restricted to safe algorithms gives the same for CRC-32 and SHA-256 and reports all others.
\<close>

theorem CalculateHash_correct:
  assumes "evp_contract lib holds H" "length (span_bytes data) < 2 ^ 61 - 1"
  shows "\<exists>r w'. CalculateHash lib (HashCalculatorFactory_Create lib) a data w = Ret (r, w') \<and>
    r = (case a of
       kCrc32 \<Rightarrow> Inr (digest_of H kCrc32 (span_bytes data))
     | kSha256 \<Rightarrow> if span_bytes data = [] then Inl kInvalidParameters else Inr (digest_of H kSha256 (span_bytes data))
     | kSha384 \<Rightarrow> openssl_result lib (DigestAlgoSha384 lib) (digest_of H kSha384 (span_bytes data)) data w
     | kSha512 \<Rightarrow> openssl_result lib (DigestAlgoSha512 lib) (digest_of H kSha512 (span_bytes data)) data w
     | _ \<Rightarrow> Inl kCouldNotCreateDigest) \<and>
    CalculateHash lib SafeHashCalculatorFactory_Create a data w =
      (if a \<in> {kCrc32, kSha256} then Ret (r, w') else Ret (Inl kCouldNotCreateDigest, w))"
proof -
  have safe: "CalculateHash lib SafeHashCalculatorFactory_Create a data w =
      (if a \<in> {kCrc32, kSha256} then CalculateHash lib (HashCalculatorFactory_Create lib) a data w
       else Ret (Inl kCouldNotCreateDigest, w))"
    by (cases a) (simp_all add: CalculateHash_def SafeHashCalculatorFactory_Create_def HashCalculatorFactory_Create_def)
  have "\<exists>r w'. CalculateHash lib (HashCalculatorFactory_Create lib) a data w = Ret (r, w')" and "a \<notin> {kSha384, kSha512, kCrc32, kSha256} \<Longrightarrow>
      CalculateHash lib (HashCalculatorFactory_Create lib) a data w = Ret (Inl kCouldNotCreateDigest, w)"
    using own_hash[OF _ assms(2), of a lib w H] openssl_hash[OF assms(1), of a _ data w]
    by (cases a; fastforce simp: CalculateHash_def HashCalculatorFactory_Create_def)+
  then show ?thesis
    using own_hash[OF _ assms(2), of a lib w H] openssl_hash[OF assms(1), of a _ data w] safe
    by (cases a) fastforce+
qed

theorem CalculateHash_correct_witness:
  "(\<exists>w'. CalculateHash memory_openssl (HashCalculatorFactory_Create memory_openssl) kSha512 (Some [1, 2, 3]) [] =
      Ret (Inr \<lparr>hash_algorithm = kSha512, hash_bytes = [2, 3]\<rparr>, w')) \<and>
   (\<exists>w'. CalculateHash memory_openssl (HashCalculatorFactory_Create memory_openssl) kSha384 None [] = Ret (Inl kInvalidParameters, w')) \<and>
   (\<exists>w'. CalculateHash memory_openssl (HashCalculatorFactory_Create memory_openssl) kSha256 (Some []) [] = Ret (Inl kInvalidParameters, w')) \<and>
   (\<exists>w'. CalculateHash (memory_openssl\<lparr>FinalizeDigestValue := \<lambda>ctx w. (None, w)\<rparr>)
      (HashCalculatorFactory_Create (memory_openssl\<lparr>FinalizeDigestValue := \<lambda>ctx w. (None, w)\<rparr>)) kSha384 (Some [1]) [] =
      Ret (Inr \<lparr>hash_algorithm = kNone, hash_bytes = []\<rparr>, w'))"
proof -
  let ?failing = "memory_openssl\<lparr>FinalizeDigestValue := \<lambda>ctx w. (None, w)\<rparr>"
  have failing: "evp_contract ?failing memory_holds memory_digest"
    using memory_openssl_contract(1) by (simp add: evp_contract_def)
  have "openssl_result memory_openssl (DigestAlgoSha512 memory_openssl) (digest_of memory_digest kSha512 [1, 2, 3]) (Some [1, 2, 3]) [] =
      Inr \<lparr>hash_algorithm = kSha512, hash_bytes = [2, 3]\<rparr>"
    "openssl_result memory_openssl (DigestAlgoSha384 memory_openssl) h None [] = Inl kInvalidParameters"
    "openssl_result ?failing (DigestAlgoSha384 ?failing) h (Some [1]) [] = Inr \<lparr>hash_algorithm = kNone, hash_bytes = []\<rparr>" for h
    by (simp_all add: openssl_result_def evp_started_def memory_openssl_def set_context_def digest_of_def memory_digest_def memory_type_def)
  then show ?thesis
    using CalculateHash_correct[OF memory_openssl_contract(1), of "Some [1, 2, 3]" kSha512 "[]"]
      CalculateHash_correct[OF memory_openssl_contract(1), of None kSha384 "[]"]
      CalculateHash_correct[OF memory_openssl_contract(1), of "Some []" kSha256 "[]"]
      CalculateHash_correct[OF failing, of "Some [1]" kSha384 "[]"]
    by (auto simp: span_bytes_def)
qed

text \<open>
  C22: Hashing a stream. A stream in a good state whose device does not fail is hashed completely, or up
  to \<open>max_read\<close> bytes, whatever the block boundaries; if the device fails before the requested end the
  call reports an error and never a digest of the part that was read; a stream that is not good is
  refused.
\<close>

theorem CalculateHash_stream_correct:
  assumes "evp_contract lib holds H" "evp_succeeds lib holds" "HashCalculatorFactory_Create lib a w = (Inr c, w1)"
    and "d = (if k = kReadEndlessFromStream then in_rest input else take (nat k) (in_rest input))"
    and "length (in_rest input) < 2 ^ 61 - 1"
  shows "if \<not> in_good input
    then \<exists>w'. CalculateHash_stream lib (HashCalculatorFactory_Create lib) a input k w = Ret (Inl kStreamError, w')
    else if \<not> in_broken input
    then \<exists>w'. CalculateHash_stream lib (HashCalculatorFactory_Create lib) a input k w = Ret (Inr (digest_of H a d), w')
    else k = kReadEndlessFromStream \<or> int (length (in_rest input)) < k \<longrightarrow>
      (\<exists>e w'. CalculateHash_stream lib (HashCalculatorFactory_Create lib) a input k w = Ret (Inl e, w'))"
proof -
  have abs: "calculator_absorbed lib holds H a (c, w1) []" by (rule created_absorbed[OF assms(1-3)])
  have len: "length d < 2 ^ 61 - 1" using assms(4,5) by auto
  have create: "CalculateHash_stream lib (HashCalculatorFactory_Create lib) a input k w =
      bind_outcome (UpdateFromStream_max (calculator_Update_bytes lib) (c, w1) input k) (\<lambda>(cw, _, r). finish_hash lib cw r)"
    using assms(3) by (simp add: CalculateHash_stream_def)
  consider "\<not> in_good input" | "in_good input" "\<not> in_broken input" | "in_good input" "in_broken input" by blast
  then show ?thesis
  proof cases
    case 1
    then show ?thesis by (simp add: create UpdateFromStream_max_def finish_hash_def)
  next
    case 2
    then obtain cw input' where "UpdateFromStream_max (calculator_Update_bytes lib) (c, w1) input k = Ret (cw, input', Inr ())"
      "calculator_absorbed lib holds H a cw d"
      using calculator.stream[OF 2 abs assms(4)] len by auto
    moreover from this(2) obtain w' where "finish_hash lib cw (Inr ()) = Ret (Inr (digest_of H a d), w')"
      using finish_hash_absorbed by blast
    ultimately show ?thesis using 2 by (simp add: create)
  next
    case 3
    then show ?thesis using calculator.stream_broken[OF 3 abs, of k] assms(5)
      by (auto simp: create finish_hash_def)
  qed
qed

theorem CalculateHash_stream_correct_witness:
  "\<exists>w'. CalculateHash_stream memory_openssl (HashCalculatorFactory_Create memory_openssl) kCrc32
     \<lparr>in_rest = [1, 2, 3], in_broken = False, in_eof = False, in_fail = False, in_bad = False, in_gcount = 0\<rparr> 2 [] =
     Ret (Inr (digest_of memory_digest kCrc32 [1, 2]), w')"
  using CalculateHash_stream_correct[OF memory_openssl_contract, of kCrc32 "[]" "Crc32Calculator crc32_init" "[]"
      "[1, 2]" 2 "\<lparr>in_rest = [1, 2, 3], in_broken = False, in_eof = False, in_fail = False, in_bad = False, in_gcount = 0\<rparr>"]
  by (simp add: HashCalculatorFactory_Create_def kReadEndlessFromStream_def in_good_def)

section \<open>Lifetime of the digest contexts\<close>

text \<open>
  The set of contexts that OpenSSL has handed out and not got back: \<open>EVP_MD_CTX_new\<close> adds one,
  \<open>EVP_MD_CTX_free\<close> removes one, the other functions do not change it.
\<close>

definition evp_lifetime :: "'w openssl \<Rightarrow> ('w \<Rightarrow> nat set) \<Rightarrow> bool" where
  "evp_lifetime lib live \<longleftrightarrow>
     (\<forall>w ctx w'. CreateDigestCtx lib w = (Some ctx, w') \<longrightarrow> ctx \<notin> live w \<and> live w' = insert ctx (live w)) \<and>
     (\<forall>w w'. CreateDigestCtx lib w = (None, w') \<longrightarrow> live w' = live w) \<and>
     (\<forall>ctx md w. live (snd (InitDigestCtx lib ctx md w)) = live w) \<and>
     (\<forall>ctx d w. live (snd (UpdateDigestCtx lib ctx d w)) = live w) \<and>
     (\<forall>ctx w. live (snd (FinalizeDigestValue lib ctx w)) = live w) \<and>
     (\<forall>ctx w. live (ResetDigestCtx lib ctx w) = live w - {ctx})"

text \<open>The context that creating a calculator leaves behind when \<open>EVP_DigestInit_ex\<close> fails.\<close>

definition leaked_context :: "'w openssl \<Rightarrow> HashAlgorithm \<Rightarrow> 'w \<Rightarrow> nat set" where
  "leaked_context lib a w = (if a \<in> {kSha384, kSha512} then
     (case openssl_digest_type lib a of
        None \<Rightarrow> {}
      | Some md \<Rightarrow> (case CreateDigestCtx lib w of
            (None, _) \<Rightarrow> {}
          | (Some ctx, w1) \<Rightarrow> if fst (InitDigestCtx lib ctx md w1) then {} else {ctx}))
     else {})"

definition owned_contexts :: "calculator \<Rightarrow> nat set" where
  "owned_contexts c = (case c of OpensslCalculator oc \<Rightarrow> {oc_context oc} | _ \<Rightarrow> {})"

lemma evp_lifetimeD:
  assumes "evp_lifetime lib live"
  shows "CreateDigestCtx lib w = (Some ctx, w') \<Longrightarrow> ctx \<notin> live w \<and> live w' = insert ctx (live w)"
    and "CreateDigestCtx lib w = (None, w') \<Longrightarrow> live w' = live w"
    and "InitDigestCtx lib ctx md w = (b, w') \<Longrightarrow> live w' = live w"
    and "UpdateDigestCtx lib ctx d w = (b, w') \<Longrightarrow> live w' = live w"
    and "FinalizeDigestValue lib ctx w = (h, w') \<Longrightarrow> live w' = live w"
    and "live (ResetDigestCtx lib ctx w) = live w - {ctx}"
  using assms unfolding evp_lifetime_def by (simp_all add: split_paired_All, (metis snd_conv)+)

lemma openssl_create_lifetime:
  assumes "evp_lifetime lib live" "openssl_Create lib a w = (r, w1)" "a \<in> {kSha384, kSha512}"
  shows "case r of
      Inl _ \<Rightarrow> live w1 = live w \<union> leaked_context lib a w
    | Inr oc \<Rightarrow> live w1 = insert (oc_context oc) (live w) \<and> oc_context oc \<notin> live w \<and>
        leaked_context lib a w = {}"
proof (cases "openssl_digest_type lib a")
  case None
  then show ?thesis using assms(2) by (auto simp: openssl_Create_def leaked_context_def)
next
  case (Some md)
  obtain x w2 where x: "CreateDigestCtx lib w = (x, w2)" by fastforce
  show ?thesis
  proof (cases x)
    case None
    then show ?thesis using evp_lifetimeD(2)[OF assms(1)] assms(2) Some x
      by (auto simp: openssl_Create_def leaked_context_def)
  next
    case (Some ctx)
    obtain b w3 where b: "InitDigestCtx lib ctx md w2 = (b, w3)" by fastforce
    have "ctx \<notin> live w" "live w3 = insert ctx (live w)"
      using evp_lifetimeD(1,3)[OF assms(1)] x b Some by blast+
    then show ?thesis using assms(2,3) \<open>openssl_digest_type lib a = Some md\<close> x b Some
      by (cases b) (auto simp: openssl_Create_def leaked_context_def)
  qed
qed

lemma create_lifetime:
  assumes "evp_lifetime lib live" "HashCalculatorFactory_Create lib a w = (r, w1)"
  shows "case r of
      Inl _ \<Rightarrow> live w1 = live w \<union> leaked_context lib a w
    | Inr c \<Rightarrow> live w1 = live w \<union> owned_contexts c \<and> owned_contexts c \<inter> live w = {} \<and>
        leaked_context lib a w = {}"
proof (cases "a \<in> {kSha384, kSha512}")
  case True
  obtain r' where "openssl_Create lib a w = (r', w1)" "r = map_sum id OpensslCalculator r'"
    using True assms(2) by (auto simp: HashCalculatorFactory_Create_def split: prod.splits sum.splits)
  then show ?thesis using openssl_create_lifetime[OF assms(1) _ True, of w r' w1]
    by (cases r') (simp_all add: owned_contexts_def)
next
  case False
  then show ?thesis using assms(2)
    by (cases a) (auto simp: HashCalculatorFactory_Create_def leaked_context_def owned_contexts_def)
qed

text \<open>Updates, from a buffer or a stream, keep the calculator's contexts and the set of live ones.\<close>

definition contexts_ok :: "('w \<Rightarrow> nat set) \<Rightarrow> nat set \<Rightarrow> nat set \<Rightarrow> calculator \<times> 'w \<Rightarrow> bool" where
  "contexts_ok live L own cw \<longleftrightarrow> live (snd cw) = L \<and> owned_contexts (fst cw) = own"

lemma update_lifetime:
  assumes "evp_lifetime lib live" "contexts_ok live L own cw" "calculator_Update lib cw d = Ret (cw', r)"
  shows "contexts_ok live L own cw'"
proof -
  obtain c w where cw: "cw = (c, w)" by fastforce
  show ?thesis
  proof (cases c)
    case (OpensslCalculator oc)
    then show ?thesis using evp_lifetimeD(4)[OF assms(1)] assms(2,3)
      by (cases d) (auto simp: cw contexts_ok_def owned_contexts_def calculator_Update_def openssl_Update_def
          split: prod.splits bool.splits)
  qed (use assms(2,3) in \<open>auto simp: cw contexts_ok_def owned_contexts_def calculator_Update_def\<close>)
qed

lemma stream_lifetime:
  assumes "evp_lifetime lib live" "contexts_ok live L own cw"
    "UpdateFromStream_max (calculator_Update_bytes lib) cw input k = Ret (cw', i, r)"
  shows "contexts_ok live L own cw'"
proof (cases "in_good input")
  case True
  then have "Consume (calculator_Update_bytes lib) (StreamConsumer_ctor k) input cw = Ret (cw', i, r)"
    using assms(3) by (simp add: UpdateFromStream_max_def)
  then show ?thesis
    using Consume_preserves[of "contexts_ok live L own" "calculator_Update_bytes lib"]
      update_lifetime[OF assms(1)] assms(2) unfolding calculator_Update_bytes_def by metis
qed (use assms(2,3) in \<open>simp add: UpdateFromStream_max_def\<close>)

lemma finish_lifetime:
  assumes "evp_lifetime lib live" "contexts_ok live L own cw" "finish_hash lib cw r = Ret (h, w')"
  shows "live w' = L - own"
proof -
  obtain c w where cw: "cw = (c, w)" by fastforce
  have destroy: "live (calculator_destroy lib (c', w'')) = live w'' - owned_contexts c'" for c' w''
    using evp_lifetimeD(6)[OF assms(1)]
    by (cases c') (simp_all add: calculator_destroy_def openssl_destroy_def owned_contexts_def)
  have final: "contexts_ok live L own cw'" if "calculator_Finalize lib (c, w) = Ret (cw', h')" for cw' h'
  proof (cases c)
    case (OpensslCalculator oc)
    then show ?thesis using evp_lifetimeD(5)[OF assms(1)] assms(2) that
      by (auto simp: cw contexts_ok_def owned_contexts_def calculator_Finalize_def openssl_Finalize_def
          split: prod.splits option.splits if_splits)
  qed (use assms(2) that in \<open>auto simp: cw contexts_ok_def owned_contexts_def calculator_Finalize_def\<close>)
  show ?thesis
  proof (cases r)
    case (Inl e)
    then show ?thesis using assms(2,3) destroy by (auto simp: cw finish_hash_def contexts_ok_def)
  next
    case (Inr u)
    then obtain cw' h' where "calculator_Finalize lib (c, w) = Ret (cw', h')" "w' = calculator_destroy lib cw'"
      using assms(3) by (auto simp: cw finish_hash_def)
    then show ?thesis using final destroy[of "fst cw'" "snd cw'"] by (simp add: contexts_ok_def)
  qed
qed

text \<open>
  C23: No digest context outlives a call, with one exception. Every path through \<open>CalculateHash\<close>, of a
  buffer or a stream, successful or failing, returns all contexts to OpenSSL, except that the context
  is lost when \<open>EVP_DigestInit_ex\<close> fails: \<open>OpensslHashCalculator::Create\<close> returns an error without
  freeing it.
\<close>

theorem CalculateHash_contexts:
  assumes "evp_lifetime lib live"
    and "CalculateHash lib (HashCalculatorFactory_Create lib) a data w = Ret (r, w') \<or>
         CalculateHash_stream lib (HashCalculatorFactory_Create lib) a input k w = Ret (r, w')"
  shows "live w' = live w \<union> leaked_context lib a w"
proof -
  obtain r1 w1 where create: "HashCalculatorFactory_Create lib a w = (r1, w1)" by fastforce
  show ?thesis
  proof (cases r1)
    case (Inl e)
    then have "w' = w1" using assms(2) create by (auto simp: CalculateHash_def CalculateHash_stream_def)
    then show ?thesis using create_lifetime[OF assms(1) create] Inl by simp
  next
    case (Inr c)
    let ?own = "owned_contexts c"
    have new: "live w1 = live w \<union> ?own" "?own \<inter> live w = {}" "leaked_context lib a w = {}"
      using create_lifetime[OF assms(1) create] Inr by simp_all
    have start: "contexts_ok live (live w1) ?own (c, w1)" by (simp add: contexts_ok_def)
    have "\<exists>cw r2. contexts_ok live (live w1) ?own cw \<and> finish_hash lib cw r2 = Ret (r, w')"
      using assms(2)
    proof
      assume "CalculateHash lib (HashCalculatorFactory_Create lib) a data w = Ret (r, w')"
      then obtain cw r2 where "calculator_Update lib (c, w1) data = Ret (cw, r2)" "finish_hash lib cw r2 = Ret (r, w')"
        using create Inr by (auto simp: CalculateHash_def)
      then show ?thesis using update_lifetime[OF assms(1) start] by blast
    next
      assume "CalculateHash_stream lib (HashCalculatorFactory_Create lib) a input k w = Ret (r, w')"
      then obtain cw i r2 where run: "UpdateFromStream_max (calculator_Update_bytes lib) (c, w1) input k = Ret (cw, i, r2)"
        and fin: "finish_hash lib cw r2 = Ret (r, w')"
        using create Inr by (auto simp: CalculateHash_stream_def)
      have "contexts_ok live (live w1) ?own cw"
        by (rule stream_lifetime[OF assms(1) start run])
      then show ?thesis using fin by blast
    qed
    then obtain cw r2 where "contexts_ok live (live w1) ?own cw" "finish_hash lib cw r2 = Ret (r, w')"
      by blast
    then have "live w' = live w1 - ?own" by (rule finish_lifetime[OF assms(1)])
    then show ?thesis using new by auto
  qed
qed

lemma memory_openssl_lifetime: "evp_lifetime memory_openssl (\<lambda>w. set (map fst w))"
proof -
  have "Suc (sum_list (map fst w)) \<notin> fst ` set w" for w :: memory_contexts
    using member_le_sum_list[of "Suc (sum_list (map fst w))" "map fst w"] by auto
  moreover have "fst ` set (set_context ctx f w) = fst ` set w" for ctx f w
    by (force simp: set_context_def)
  moreover have "fst ` set (filter (\<lambda>(i, _). i \<noteq> ctx) w) = fst ` set w - {ctx}" for ctx and w :: memory_contexts
    by force
  ultimately show ?thesis
    by (simp add: evp_lifetime_def memory_openssl_def Let_def)
qed

theorem CalculateHash_contexts_witness:
  "\<exists>r w'. CalculateHash memory_openssl (HashCalculatorFactory_Create memory_openssl) kSha384 (Some [7]) [] = Ret (r, w') \<and>
     set (map fst w') = leaked_context memory_openssl kSha384 [] \<and> leaked_context memory_openssl kSha384 [] = {}"
proof -
  have run: "CalculateHash memory_openssl (HashCalculatorFactory_Create memory_openssl) kSha384 (Some [7]) [] =
      Ret (Inr \<lparr>hash_algorithm = kSha384, hash_bytes = [1, 1]\<rparr>, [])"
    by (simp add: CalculateHash_def HashCalculatorFactory_Create_def openssl_Create_def openssl_digest_type_def
        memory_openssl_def set_context_def calculator_Update_def openssl_Update_def finish_hash_def
        calculator_Finalize_def openssl_Finalize_def calculator_destroy_def openssl_destroy_def kMaxDigestSize_def)
  have "leaked_context memory_openssl kSha384 [] = {}"
    by (simp add: leaked_context_def memory_openssl_def openssl_digest_type_def set_context_def)
  then show ?thesis
    using CalculateHash_contexts[OF memory_openssl_lifetime, of kSha384 "Some [7]" "[]"] run by auto
qed

end
