(* ===== verification/Intrusive_List.thy ===== *)
theory Intrusive_List
  imports Prelude
begin

text \<open>
  The doubly linked list that threads its links through the elements, src/score/containers/intrusive_list.h.
  The memory is an explicit store from addresses to living nodes; a pointer is an optional address, and
  following a null or dangling pointer is undefined. The list object is its root node, which closes
  the ring. Loops whose end depends on the links run with fuel; the lemmas show how much is enough.
\<close>

section \<open>Store\<close>

type_synonym addr = nat
type_synonym ptr = "addr option"

record 'a node =
  n_next :: ptr
  n_prev :: ptr
  n_value :: 'a

type_synonym 'a store = "addr \<rightharpoonup> 'a node"

definition load :: "'a store \<Rightarrow> ptr \<Rightarrow> 'a node result" where
  "load st p = (case p of None \<Rightarrow> Undefined | Some a \<Rightarrow> (case st a of None \<Rightarrow> Undefined | Some n \<Rightarrow> Ret n))"

definition set_next :: "ptr \<Rightarrow> ptr \<Rightarrow> 'a store \<Rightarrow> 'a store result" where
  "set_next p v st = bind_outcome (load st p) (\<lambda>n. Ret (st(the p \<mapsto> n\<lparr>n_next := v\<rparr>)))"

definition set_prev :: "ptr \<Rightarrow> ptr \<Rightarrow> 'a store \<Rightarrow> 'a store result" where
  "set_prev p v st = bind_outcome (load st p) (\<lambda>n. Ret (st(the p \<mapsto> n\<lparr>n_prev := v\<rparr>)))"

section \<open>Elements\<close>

definition is_linked :: "'a node \<Rightarrow> bool" where
  "is_linked n \<longleftrightarrow> n_next n \<noteq> None"

definition unlink :: "addr \<Rightarrow> 'a store \<Rightarrow> 'a store result" where
  "unlink a st = bind_outcome (load st (Some a)) (\<lambda>n.
     if \<not> is_linked n then Abort
     else bind_outcome (set_next (Some a) None st) (set_prev (Some a) None))"

definition make_empty_root :: "addr \<Rightarrow> 'a store \<Rightarrow> 'a store result" where
  "make_empty_root a st = bind_outcome (set_next (Some a) (Some a) st) (set_prev (Some a) (Some a))"

text \<open>The move constructor of an element: the object at \<open>this\<close> comes to life with the value of \<open>from\<close>.\<close>

definition element_move :: "addr \<Rightarrow> addr \<Rightarrow> 'a store \<Rightarrow> 'a store result" where
  "element_move this from st =
     bind_outcome (load st (Some from)) (\<lambda>f.
     let st1 = st(this \<mapsto> \<lparr>n_next = None, n_prev = None, n_value = n_value f\<rparr>) in
     if \<not> is_linked f then Ret st1
     else bind_outcome (set_next (Some this) (n_next f) st1) (\<lambda>st2.
          bind_outcome (set_prev (n_next f) (Some this) st2) (\<lambda>st3.
          bind_outcome (load st3 (Some from)) (\<lambda>f3.
          bind_outcome (set_prev (Some this) (n_prev f3) st3) (\<lambda>st4.
          bind_outcome (set_next (n_prev f3) (Some this) st4) (\<lambda>st5.
          unlink from st5))))))"

text \<open>The copy constructor links nothing.\<close>

definition element_copy :: "addr \<Rightarrow> addr \<Rightarrow> 'a store \<Rightarrow> 'a store result" where
  "element_copy this from st =
     bind_outcome (load st (Some from)) (\<lambda>f.
     Ret (st(this \<mapsto> \<lparr>n_next = None, n_prev = None, n_value = n_value f\<rparr>)))"

definition element_destroy :: "addr \<Rightarrow> 'a store \<Rightarrow> 'a store result" where
  "element_destroy a st = bind_outcome (load st (Some a)) (\<lambda>n.
     if is_linked n then Abort else Ret (st(a := None)))"

section \<open>Iterators\<close>

definition it_next :: "'a store \<Rightarrow> ptr \<Rightarrow> ptr result" where
  "it_next st it = (if it = None then Abort else bind_outcome (load st it) (\<lambda>n. Ret (n_next n)))"

definition it_prev :: "'a store \<Rightarrow> ptr \<Rightarrow> ptr result" where
  "it_prev st it = (if it = None then Abort else bind_outcome (load st it) (\<lambda>n. Ret (n_prev n)))"

definition it_deref :: "'a store \<Rightarrow> ptr \<Rightarrow> 'a result" where
  "it_deref st it = (if it = None then Abort else bind_outcome (load st it) (\<lambda>n. Ret (n_value n)))"

section \<open>Lists\<close>

definition list_begin :: "'a store \<Rightarrow> addr \<Rightarrow> ptr result" where
  "list_begin st root = bind_outcome (load st (Some root)) (\<lambda>r. Ret (n_next r))"

definition list_end :: "addr \<Rightarrow> ptr" where
  "list_end root = Some root"

definition list_empty :: "'a store \<Rightarrow> addr \<Rightarrow> bool result" where
  "list_empty st root = bind_outcome (load st (Some root)) (\<lambda>r. Ret (n_next r = Some root))"

definition list_ctor :: "addr \<Rightarrow> 'a \<Rightarrow> 'a store \<Rightarrow> 'a store result" where
  "list_ctor root v st = make_empty_root root (st(root \<mapsto> \<lparr>n_next = None, n_prev = None, n_value = v\<rparr>))"

definition list_destroy :: "addr \<Rightarrow> 'a store \<Rightarrow> 'a store result" where
  "list_destroy root st = bind_outcome (list_empty st root) (\<lambda>e.
     if \<not> e then Abort else bind_outcome (unlink root st) (element_destroy root))"

definition list_front :: "'a store \<Rightarrow> addr \<Rightarrow> ptr result" where
  "list_front st root = bind_outcome (list_empty st root) (\<lambda>e.
     if e then Abort else bind_outcome (load st (Some root)) (\<lambda>r. Ret (n_next r)))"

definition list_back :: "'a store \<Rightarrow> addr \<Rightarrow> ptr result" where
  "list_back st root = bind_outcome (list_empty st root) (\<lambda>e.
     if e then Abort else bind_outcome (load st (Some root)) (\<lambda>r. Ret (n_prev r)))"

definition insert_node_before :: "addr \<Rightarrow> ptr \<Rightarrow> 'a store \<Rightarrow> 'a store result" where
  "insert_node_before x target st =
     bind_outcome (set_next (Some x) target st) (\<lambda>st1.
     bind_outcome (load st1 target) (\<lambda>t.
     bind_outcome (set_prev (Some x) (n_prev t) st1) (\<lambda>st2.
     bind_outcome (load st2 target) (\<lambda>t2.
     bind_outcome (set_next (n_prev t2) (Some x) st2) (\<lambda>st3.
     set_prev target (Some x) st3)))))"

definition insert_before :: "addr \<Rightarrow> ptr \<Rightarrow> 'a store \<Rightarrow> 'a store result" where
  "insert_before x target st = bind_outcome (load st (Some x)) (\<lambda>n.
     if is_linked n then Abort else insert_node_before x target st)"

definition list_push_front :: "addr \<Rightarrow> addr \<Rightarrow> 'a store \<Rightarrow> 'a store result" where
  "list_push_front root x st = bind_outcome (load st (Some root)) (\<lambda>r. insert_before x (n_next r) st)"

definition list_push_back :: "addr \<Rightarrow> addr \<Rightarrow> 'a store \<Rightarrow> 'a store result" where
  "list_push_back root x st = insert_before x (Some root) st"

definition insert_at :: "ptr \<Rightarrow> addr \<Rightarrow> 'a store \<Rightarrow> ('a store \<times> ptr) result" where
  "insert_at position x st = bind_outcome (load st (Some x)) (\<lambda>n.
     if is_linked n then Abort
     else bind_outcome (insert_node_before x position st) (\<lambda>st'. Ret (st', Some x)))"

primrec insert_each :: "ptr \<Rightarrow> addr list \<Rightarrow> 'a store \<Rightarrow> 'a store result" where
  "insert_each position [] st = Ret st"
| "insert_each position (x # xs) st =
     bind_outcome (insert_at position x st) (\<lambda>(st', _). insert_each position xs st')"

text \<open>The elements of the range \<open>[first, last)\<close> are given as the list of their addresses.\<close>

definition insert_range :: "ptr \<Rightarrow> addr list \<Rightarrow> 'a store \<Rightarrow> ('a store \<times> ptr) result" where
  "insert_range position elems st = (case elems of
     [] \<Rightarrow> Ret (st, position)
   | x # xs \<Rightarrow> bind_outcome (insert_at position x st) (\<lambda>(st', new_first).
       bind_outcome (insert_each position xs st') (\<lambda>st''. Ret (st'', new_first))))"

text \<open>A disposer gets the address of the element that was unlinked.\<close>

type_synonym 'a disposer = "addr \<Rightarrow> 'a store \<Rightarrow> 'a store result"

definition no_disposer :: "'a disposer" where
  "no_disposer a st = Ret st"

definition remove_and_dispose_node :: "'a disposer \<Rightarrow> ptr \<Rightarrow> 'a store \<Rightarrow> 'a store result" where
  "remove_and_dispose_node disposer node st =
     bind_outcome (load st node) (\<lambda>n.
     bind_outcome (set_next (n_prev n) (n_next n) st) (\<lambda>st1.
     bind_outcome (load st1 node) (\<lambda>n1.
     bind_outcome (set_prev (n_next n1) (n_prev n1) st1) (\<lambda>st2.
     bind_outcome (unlink (the node) st2) (disposer (the node))))))"

definition pop_front_and_dispose :: "'a disposer \<Rightarrow> addr \<Rightarrow> 'a store \<Rightarrow> 'a store result" where
  "pop_front_and_dispose disposer root st = bind_outcome (list_empty st root) (\<lambda>e.
     if e then Abort
     else bind_outcome (load st (Some root)) (\<lambda>r. remove_and_dispose_node disposer (n_next r) st))"

definition pop_back_and_dispose :: "'a disposer \<Rightarrow> addr \<Rightarrow> 'a store \<Rightarrow> 'a store result" where
  "pop_back_and_dispose disposer root st = bind_outcome (list_empty st root) (\<lambda>e.
     if e then Abort
     else bind_outcome (load st (Some root)) (\<lambda>r. remove_and_dispose_node disposer (n_prev r) st))"

definition list_pop_front :: "addr \<Rightarrow> 'a store \<Rightarrow> 'a store result" where
  "list_pop_front = pop_front_and_dispose no_disposer"

definition list_pop_back :: "addr \<Rightarrow> 'a store \<Rightarrow> 'a store result" where
  "list_pop_back = pop_back_and_dispose no_disposer"

definition erase_and_dispose :: "'a disposer \<Rightarrow> addr \<Rightarrow> ptr \<Rightarrow> 'a store \<Rightarrow> ('a store \<times> ptr) result" where
  "erase_and_dispose disposer root position st = bind_outcome (list_empty st root) (\<lambda>e.
     if e then Abort
     else bind_outcome (it_next st position) (\<lambda>new_position.
          bind_outcome (remove_and_dispose_node disposer position st) (\<lambda>st'. Ret (st', new_position))))"

definition list_erase :: "addr \<Rightarrow> ptr \<Rightarrow> 'a store \<Rightarrow> ('a store \<times> ptr) result" where
  "list_erase = erase_and_dispose no_disposer"

definition iterator_to :: "addr \<Rightarrow> 'a store \<Rightarrow> ptr result" where
  "iterator_to x st = bind_outcome (load st (Some x)) (\<lambda>n. if is_linked n then Ret (Some x) else Abort)"

section \<open>Loops\<close>

text \<open>\<open>std::distance\<close>, with the number of steps so far.\<close>

definition size_cond :: "'a store \<Rightarrow> addr \<Rightarrow> ptr \<times> nat \<Rightarrow> bool result" where
  "size_cond st root s = Ret (fst s \<noteq> Some root)"

definition size_body :: "'a store \<Rightarrow> ptr \<times> nat \<Rightarrow> (ptr \<times> nat) result" where
  "size_body st s = bind_outcome (it_next st (fst s)) (\<lambda>it. Ret (it, Suc (snd s)))"

definition list_size :: "nat \<Rightarrow> 'a store \<Rightarrow> addr \<Rightarrow> nat run" where
  "list_size fuel st root =
     bind_run (Some (list_begin st root)) (\<lambda>it.
     bind_run (while_run fuel (size_cond st root) (size_body st) (it, 0)) (\<lambda>s. Some (Ret (snd s))))"

definition clear_and_dispose :: "nat \<Rightarrow> 'a disposer \<Rightarrow> addr \<Rightarrow> 'a store \<Rightarrow> 'a store run" where
  "clear_and_dispose fuel disposer root st =
     while_run fuel (\<lambda>st. bind_outcome (list_empty st root) (\<lambda>e. Ret (\<not> e)))
       (pop_front_and_dispose disposer root) st"

definition list_clear :: "nat \<Rightarrow> addr \<Rightarrow> 'a store \<Rightarrow> 'a store run" where
  "list_clear fuel = clear_and_dispose fuel no_disposer"

primrec push_back_each :: "addr \<Rightarrow> addr list \<Rightarrow> 'a store \<Rightarrow> 'a store result" where
  "push_back_each root [] st = Ret st"
| "push_back_each root (x # xs) st = bind_outcome (list_push_back root x st) (push_back_each root xs)"

definition dispose_and_assign :: "nat \<Rightarrow> 'a disposer \<Rightarrow> addr \<Rightarrow> addr list \<Rightarrow> 'a store \<Rightarrow> 'a store run" where
  "dispose_and_assign fuel disposer root elems st =
     bind_run (clear_and_dispose fuel disposer root st) (\<lambda>st'. Some (push_back_each root elems st'))"

definition list_assign :: "nat \<Rightarrow> addr \<Rightarrow> addr list \<Rightarrow> 'a store \<Rightarrow> 'a store run" where
  "list_assign fuel = dispose_and_assign fuel no_disposer"

definition list_range_ctor :: "nat \<Rightarrow> addr \<Rightarrow> 'a \<Rightarrow> addr list \<Rightarrow> 'a store \<Rightarrow> 'a store run" where
  "list_range_ctor fuel root v elems st =
     bind_run (Some (list_ctor root v st)) (list_assign fuel root elems)"

definition erase_range_body :: "'a disposer \<Rightarrow> addr \<Rightarrow> 'a store \<times> ptr \<Rightarrow> ('a store \<times> ptr) result" where
  "erase_range_body disposer root s = (case s of (st, first) \<Rightarrow>
     bind_outcome (list_empty st root) (\<lambda>e.
     if e then Abort
     else bind_outcome (it_next st first) (\<lambda>next.
          bind_outcome (remove_and_dispose_node disposer first st) (\<lambda>st'. Ret (st', next)))))"

definition erase_range_and_dispose ::
  "nat \<Rightarrow> 'a disposer \<Rightarrow> addr \<Rightarrow> ptr \<Rightarrow> ptr \<Rightarrow> 'a store \<Rightarrow> ('a store \<times> ptr) run" where
  "erase_range_and_dispose fuel disposer root first past st =
     bind_run (while_run fuel (\<lambda>s. Ret (snd s \<noteq> past)) (erase_range_body disposer root) (st, first))
       (\<lambda>s. Some (Ret (fst s, past)))"

definition list_erase_range :: "nat \<Rightarrow> addr \<Rightarrow> ptr \<Rightarrow> ptr \<Rightarrow> 'a store \<Rightarrow> ('a store \<times> ptr) run" where
  "list_erase_range fuel = erase_range_and_dispose fuel no_disposer"

text \<open>The predicate looks at the current element through the store.\<close>

type_synonym 'a store_pred = "'a store \<Rightarrow> addr \<Rightarrow> bool result"

definition remove_body :: "'a store_pred \<Rightarrow> 'a disposer \<Rightarrow> 'a store \<times> ptr \<Rightarrow> ('a store \<times> ptr) result" where
  "remove_body pred disposer s = (case s of (st, first) \<Rightarrow>
     if first = None then Abort
     else bind_outcome (pred st (the first)) (\<lambda>hit.
          bind_outcome (it_next st first) (\<lambda>next.
          if hit then bind_outcome (remove_and_dispose_node disposer first st) (\<lambda>st'. Ret (st', next))
          else Ret (st, next))))"

definition remove_and_dispose_if ::
  "nat \<Rightarrow> 'a store_pred \<Rightarrow> 'a disposer \<Rightarrow> addr \<Rightarrow> 'a store \<Rightarrow> 'a store run" where
  "remove_and_dispose_if fuel pred disposer root st =
     bind_run (Some (list_begin st root)) (\<lambda>first.
     bind_run (while_run fuel (\<lambda>s. Ret (snd s \<noteq> Some root)) (remove_body pred disposer) (st, first))
       (\<lambda>s. Some (Ret (fst s))))"

definition remove_if :: "nat \<Rightarrow> 'a store_pred \<Rightarrow> addr \<Rightarrow> 'a store \<Rightarrow> 'a store run" where
  "remove_if fuel pred = remove_and_dispose_if fuel pred no_disposer"

text \<open>The value is passed by reference: it is read through its address at every comparison.\<close>

definition equals_value :: "addr \<Rightarrow> 'a store_pred" where
  "equals_value v st x = bind_outcome (load st (Some v)) (\<lambda>n.
     bind_outcome (load st (Some x)) (\<lambda>m. Ret (n_value n = n_value m)))"

definition remove_and_dispose :: "nat \<Rightarrow> addr \<Rightarrow> 'a disposer \<Rightarrow> addr \<Rightarrow> 'a store \<Rightarrow> 'a store run" where
  "remove_and_dispose fuel v = remove_and_dispose_if fuel (equals_value v)"

definition list_remove :: "nat \<Rightarrow> addr \<Rightarrow> addr \<Rightarrow> 'a store \<Rightarrow> 'a store run" where
  "list_remove fuel v = remove_and_dispose fuel v no_disposer"

section \<open>Move and swap\<close>

definition take_ring :: "addr \<Rightarrow> addr \<Rightarrow> 'a store \<Rightarrow> 'a store result" where
  "take_ring root from st =
     bind_outcome (list_empty st from) (\<lambda>e.
     if e then Ret st
     else bind_outcome (load st (Some from)) (\<lambda>f.
          bind_outcome (set_prev (Some root) (n_prev f) st) (\<lambda>st1.
          bind_outcome (set_next (n_prev f) (Some root) st1) (\<lambda>st2.
          bind_outcome (load st2 (Some from)) (\<lambda>f2.
          bind_outcome (set_next (Some root) (n_next f2) st2) (\<lambda>st3.
          bind_outcome (set_prev (n_next f2) (Some root) st3) (\<lambda>st4.
          make_empty_root from st4)))))))"

definition move_assign :: "nat \<Rightarrow> addr \<Rightarrow> addr \<Rightarrow> 'a store \<Rightarrow> 'a store run" where
  "move_assign fuel root from st = (
     if root = from then Some (Ret st)
     else bind_run (list_clear fuel root st) (\<lambda>st'. Some (take_ring root from st')))"

definition move_ctor :: "nat \<Rightarrow> addr \<Rightarrow> 'a \<Rightarrow> addr \<Rightarrow> 'a store \<Rightarrow> 'a store run" where
  "move_ctor fuel root v from st = bind_run (Some (list_ctor root v st)) (move_assign fuel root from)"

text \<open>The address \<open>tmp\<close> of the local list of \<open>swap\<close> is a parameter.\<close>

definition list_swap :: "nat \<Rightarrow> addr \<Rightarrow> 'a \<Rightarrow> addr \<Rightarrow> addr \<Rightarrow> 'a store \<Rightarrow> 'a store run" where
  "list_swap fuel tmp v root x st = (
     if root = x then Some (Ret st)
     else bind_run (move_ctor fuel tmp v x st) (\<lambda>st1.
          bind_run (move_assign fuel x root st1) (\<lambda>st2.
          bind_run (move_assign fuel root tmp st2) (\<lambda>st3.
          Some (list_destroy tmp st3)))))"


section \<open>Rings\<close>

definition alive :: "'a store \<Rightarrow> addr \<Rightarrow> bool" where "alive st a \<longleftrightarrow> st a \<noteq> None"
definition nxt :: "'a store \<Rightarrow> addr \<Rightarrow> ptr" where "nxt st a = n_next (the (st a))"
definition prv :: "'a store \<Rightarrow> addr \<Rightarrow> ptr" where "prv st a = n_prev (the (st a))"
definition val :: "'a store \<Rightarrow> addr \<Rightarrow> 'a" where "val st a = n_value (the (st a))"

text \<open>Pure counterparts of the assignments, for living nodes.\<close>

definition upd_next :: "addr \<Rightarrow> ptr \<Rightarrow> 'a store \<Rightarrow> 'a store" where
  "upd_next a v st = st(a \<mapsto> (the (st a))\<lparr>n_next := v\<rparr>)"
definition upd_prev :: "addr \<Rightarrow> ptr \<Rightarrow> 'a store \<Rightarrow> 'a store" where
  "upd_prev a v st = st(a \<mapsto> (the (st a))\<lparr>n_prev := v\<rparr>)"

lemma load_alive: "alive st a \<Longrightarrow> load st (Some a) = Ret (the (st a))"
  by (auto simp: load_def alive_def)

lemma store_ops [simp]:
  "alive st a \<Longrightarrow> set_next (Some a) v st = Ret (upd_next a v st)"
  "alive st a \<Longrightarrow> set_prev (Some a) v st = Ret (upd_prev a v st)"
  by (simp_all add: set_next_def set_prev_def load_alive upd_next_def upd_prev_def)

lemma upd_fields [simp]:
  "nxt (upd_next a v st) b = (if b = a then v else nxt st b)" "prv (upd_next a v st) b = prv st b"
  "prv (upd_prev a v st) b = (if b = a then v else prv st b)" "nxt (upd_prev a v st) b = nxt st b"
  "val (upd_next a v st) b = val st b" "val (upd_prev a v st) b = val st b"
  "alive st a \<Longrightarrow> alive (upd_next a v st) b = alive st b"
  "alive st a \<Longrightarrow> alive (upd_prev a v st) b = alive st b"
  "b \<noteq> a \<Longrightarrow> upd_next a v st b = st b" "b \<noteq> a \<Longrightarrow> upd_prev a v st b = st b"
  by (auto simp: nxt_def prv_def val_def upd_next_def upd_prev_def alive_def)

lemma node_fields [simp]:
  "n_next (the (st a)) = nxt st a" "n_prev (the (st a)) = prv st a" "n_value (the (st a)) = val st a"
  "is_linked (the (st a)) \<longleftrightarrow> nxt st a \<noteq> None"
  by (simp_all add: nxt_def prv_def val_def is_linked_def)

lemma unlink_linked:
  "alive st a \<Longrightarrow> nxt st a \<noteq> None \<Longrightarrow> unlink a st = Ret (upd_prev a None (upd_next a None st))"
  by (simp add: unlink_def load_alive)

lemma make_empty_root_eq:
  "alive st a \<Longrightarrow> make_empty_root a st = Ret (upd_prev a (Some a) (upd_next a (Some a) st))"
  by (simp add: make_empty_root_def)

definition link :: "'a store \<Rightarrow> addr \<Rightarrow> addr \<Rightarrow> bool" where
  "link st a b \<longleftrightarrow> alive st a \<and> alive st b \<and> nxt st a = Some b \<and> prv st b = Some a"

fun chain :: "'a store \<Rightarrow> addr list \<Rightarrow> bool" where
  "chain st (a # b # rest) \<longleftrightarrow> link st a b \<and> chain st (b # rest)"
| "chain st _ \<longleftrightarrow> True"

text \<open>The list object at \<open>root\<close> holds the elements \<open>xs\<close>.\<close>

definition list_at :: "'a store \<Rightarrow> addr \<Rightarrow> addr list \<Rightarrow> bool" where
  "list_at st root xs \<longleftrightarrow> distinct (root # xs) \<and> chain st (root # xs @ [root])"

text \<open>Only the links of the nodes in \<open>S\<close> changed.\<close>

definition only_links :: "addr set \<Rightarrow> 'a store \<Rightarrow> 'a store \<Rightarrow> bool" where
  "only_links S st st' \<longleftrightarrow>
     (\<forall>a. (a \<notin> S \<longrightarrow> st' a = st a) \<and> alive st' a = alive st a \<and> val st' a = val st a)"

lemma chain_append: "chain st (xs @ y # ys) \<longleftrightarrow> chain st (xs @ [y]) \<and> chain st (y # ys)"
proof (induction xs rule: induct_list012)
  case (2 x)
  then show ?case by (cases ys) auto
qed auto

lemma chain_cong:
  assumes "chain st xs" "\<And>a. a \<in> set (butlast xs) \<Longrightarrow> nxt st' a = nxt st a"
    "\<And>a. a \<in> set (tl xs) \<Longrightarrow> prv st' a = prv st a" "\<And>a. a \<in> set xs \<Longrightarrow> alive st' a = alive st a"
  shows "chain st' xs"
  using assms
proof (induction xs rule: chain.induct)
  case (1 st a b rest)
  then show ?case by (cases rest) (auto simp: link_def)
qed auto

lemma chain_alive: "chain st xs \<Longrightarrow> 2 \<le> length xs \<Longrightarrow> a \<in> set xs \<Longrightarrow> alive st a"
proof (induction xs rule: induct_list012)
  case (3 x y zs)
  then show ?case by (cases zs) (auto simp: link_def)
qed auto

text \<open>A ring cut between the elements \<open>us\<close> and \<open>vs\<close>, with the neighbours of the cut.\<close>

lemma ring_parts:
  obtains A B p t where "root # us = A @ [p]" "vs @ [root] = t # B" "p = last (root # us)"
    "t = hd (vs @ [root])" "butlast (t # B) = vs" "tl (A @ [p]) = us"
proof
  show "root # us = butlast (root # us) @ [last (root # us)]" by (simp only: append_butlast_last_id list.discI not_False_eq_True)
  then show "tl (butlast (root # us) @ [last (root # us)]) = us" by (metis list.sel(3))
  show vs: "vs @ [root] = hd (vs @ [root]) # tl (vs @ [root])" by simp
  show "butlast (hd (vs @ [root]) # tl (vs @ [root])) = vs" using vs by (metis butlast_snoc)
qed (rule refl)+

text \<open>Insertion and removal between neighbours \<open>p\<close> and \<open>t\<close> of a ring.\<close>

definition linked_in :: "addr \<Rightarrow> addr \<Rightarrow> addr \<Rightarrow> 'a store \<Rightarrow> 'a store" where
  "linked_in p x t st =
     upd_prev t (Some x) (upd_next p (Some x) (upd_prev x (Some p) (upd_next x (Some t) st)))"

definition linked_out :: "addr \<Rightarrow> addr \<Rightarrow> addr \<Rightarrow> 'a store \<Rightarrow> 'a store" where
  "linked_out p x t st = upd_prev x None (upd_next x None (upd_prev t (Some p) (upd_next p (Some t) st)))"

lemma insert_node_before_eq:
  assumes "link st p t" "alive st x" "x \<noteq> p" "x \<noteq> t"
  shows "insert_node_before x (Some t) st = Ret (linked_in p x t st)"
  using assms by (simp add: insert_node_before_def linked_in_def link_def load_alive)

lemma remove_node_eq:
  assumes "link st p x" "link st x t" "x \<noteq> p" "x \<noteq> t"
  shows "remove_and_dispose_node disposer (Some x) st = disposer x (linked_out p x t st)"
  using assms by (simp add: remove_and_dispose_node_def linked_out_def link_def load_alive unlink_linked)

lemma linked_in_chain:
  assumes "chain st (A @ p # t # B)" "alive st x" "x \<notin> set (A @ p # t # B)"
    "distinct (A @ p # butlast (t # B))" "distinct (tl (A @ [p]) @ t # B)"
  shows "chain (linked_in p x t st) (A @ p # x # t # B)"
proof -
  have alive: "alive st a" if "a \<in> set (A @ p # t # B)" for a
    using chain_alive[OF assms(1) _ that] by simp
  have parts: "chain st (A @ [p])" "chain st (t # B)"
    using assms(1) by (simp_all add: chain_append[of st A p "t # B"])
  have ok: "alive st p" "alive st t" using alive by auto
  have tlA: "set (tl (A @ [p])) \<subseteq> insert p (set A)" by (cases A) auto
  have "chain (linked_in p x t st) (A @ [p])"
    using assms(3-5) ok assms(2) tlA
    by (intro chain_cong[OF parts(1)]) (auto simp: linked_in_def butlast_append)
  moreover have "chain (linked_in p x t st) (t # B)"
    using assms(3-5) ok assms(2)
    by (intro chain_cong[OF parts(2)]) (auto simp: linked_in_def dest: in_set_butlastD split: if_splits)
  moreover have "link (linked_in p x t st) p x" "link (linked_in p x t st) x t"
    using assms(2,3) ok by (auto simp: link_def linked_in_def)
  ultimately show ?thesis using chain_append[of "linked_in p x t st" A p "x # t # B"] by simp
qed

lemma linked_out_chain:
  assumes "chain st (A @ p # x # t # B)" "distinct (A @ p # x # butlast (t # B))"
    "distinct (tl (A @ [p]) @ x # t # B)"
  shows "chain (linked_out p x t st) (A @ p # t # B)"
proof -
  have alive: "alive st a" if "a \<in> set (A @ p # x # t # B)" for a
    using chain_alive[OF assms(1) _ that] by simp
  have parts: "chain st (A @ [p])" "chain st (t # B)"
    using assms(1) by (simp_all add: chain_append[of st A p "x # t # B"])
  have ok: "alive st p" "alive st t" "alive st x" using alive by auto
  have x: "x \<notin> set (A @ p # t # B)"
    using assms(2,3) by (auto split: if_splits)
  have tlA: "set (tl (A @ [p])) \<subseteq> insert p (set A)" by (cases A) auto
  have "chain (linked_out p x t st) (A @ [p])"
    using assms(2,3) ok x tlA by (intro chain_cong[OF parts(1)]) (auto simp: linked_out_def butlast_append)
  moreover have "chain (linked_out p x t st) (t # B)"
    using assms(2,3) ok x by (intro chain_cong[OF parts(2)]) (auto simp: linked_out_def dest: in_set_butlastD split: if_splits)
  moreover have "link (linked_out p x t st) p t"
    using ok x by (auto simp: link_def linked_out_def)
  ultimately show ?thesis using chain_append[of "linked_out p x t st" A p "t # B"] by simp
qed


lemma list_at_insert:
  assumes "list_at st root (us @ vs)" "alive st x" "x \<notin> set (root # us @ vs)"
  shows "link st (last (root # us)) (hd (vs @ [root]))"
    and "list_at (linked_in (last (root # us)) x (hd (vs @ [root])) st) root (us @ x # vs)"
proof -
  obtain A B p t where split: "root # us = A @ [p]" "vs @ [root] = t # B" "p = last (root # us)"
    "t = hd (vs @ [root])" "butlast (t # B) = vs" "tl (A @ [p]) = us"
    by (rule ring_parts)
  have ring: "root # (us @ vs) @ [root] = A @ p # t # B" "root # (us @ x # vs) @ [root] = A @ p # x # t # B"
    using split(1,2) by (metis append.assoc append_Cons append_Nil)+
  have d: "distinct (root # us @ vs)" and ch: "chain st (A @ p # t # B)"
    using assms(1) unfolding list_at_def ring by blast+
  show "link st (last (root # us)) (hd (vs @ [root]))"
    using ch unfolding split(3,4)[symmetric] by (simp add: chain_append[of st A p "t # B"])
  have "distinct (A @ p # butlast (t # B))"
    using d split(1) unfolding split(5) by (metis append.assoc append_Cons append_Nil)
  moreover have "distinct (tl (A @ [p]) @ t # B)"
    using d unfolding split(6) split(2)[symmetric] by auto
  moreover have "set (A @ p # t # B) = set (root # us @ vs)"
    using arg_cong[OF ring(1), of set] by auto
  ultimately have "chain (linked_in p x t st) (A @ p # x # t # B)"
    using linked_in_chain[OF ch assms(2)] assms(3) by blast
  then show "list_at (linked_in (last (root # us)) x (hd (vs @ [root])) st) root (us @ x # vs)"
    using d assms(3) unfolding list_at_def ring split(3,4)[symmetric] by auto
qed

lemma list_at_remove:
  assumes "list_at st root (us @ x # vs)"
  shows "link st (last (root # us)) x" "link st x (hd (vs @ [root]))"
    "x \<noteq> last (root # us)" "x \<noteq> hd (vs @ [root])"
    and "list_at (linked_out (last (root # us)) x (hd (vs @ [root])) st) root (us @ vs)"
proof -
  obtain A B p t where split: "root # us = A @ [p]" "vs @ [root] = t # B" "p = last (root # us)"
    "t = hd (vs @ [root])" "butlast (t # B) = vs" "tl (A @ [p]) = us"
    by (rule ring_parts)
  have ring: "root # (us @ vs) @ [root] = A @ p # t # B" "root # (us @ x # vs) @ [root] = A @ p # x # t # B"
    using split(1,2) by (metis append.assoc append_Cons append_Nil)+
  have d: "distinct (root # us @ x # vs)" and ch: "chain st (A @ p # x # t # B)"
    using assms unfolding list_at_def ring by blast+
  show "link st (last (root # us)) x" "link st x (hd (vs @ [root]))"
    using ch unfolding split(3,4)[symmetric] by (simp_all add: chain_append[of st A p "x # t # B"])
  have "x \<notin> set (root # us @ vs)" using d by auto
  moreover have sets: "set (A @ p # t # B) = set (root # us @ vs)"
    using arg_cong[OF ring(1), of set] by auto
  ultimately show "x \<noteq> last (root # us)" "x \<noteq> hd (vs @ [root])"
    unfolding split(3,4)[symmetric] by auto
  have "distinct (A @ p # x # butlast (t # B))"
    using d split(1) unfolding split(5) by (metis append.assoc append_Cons append_Nil)
  moreover have "distinct (tl (A @ [p]) @ x # t # B)"
    using d unfolding split(6) split(2)[symmetric] by auto
  ultimately have "chain (linked_out p x t st) (A @ p # t # B)"
    by (rule linked_out_chain[OF ch])
  then show "list_at (linked_out (last (root # us)) x (hd (vs @ [root])) st) root (us @ vs)"
    using d unfolding list_at_def ring split(3,4)[symmetric] by auto
qed

section \<open>Frames\<close>

lemma list_at_alive: "list_at st root xs \<Longrightarrow> a \<in> set (root # xs) \<Longrightarrow> alive st a"
  unfolding list_at_def using chain_alive[of st "root # xs @ [root]" a] by auto

lemma list_at_link: "list_at st root (us @ vs) \<Longrightarrow> link st (last (root # us)) (hd (vs @ [root]))"
proof -
  assume l: "list_at st root (us @ vs)"
  obtain A B p t where split: "root # us = A @ [p]" "vs @ [root] = t # B" "p = last (root # us)"
    "t = hd (vs @ [root])" "butlast (t # B) = vs" "tl (A @ [p]) = us"
    by (rule ring_parts)
  have "root # (us @ vs) @ [root] = A @ p # t # B"
    using split(1,2) by (metis append.assoc append_Cons append_Nil)
  then have "chain st (A @ p # t # B)" using l by (metis list_at_def)
  then show ?thesis unfolding split(3,4)[symmetric] by (simp add: chain_append[of st A p "t # B"])
qed

lemma list_at_ends:
  assumes "list_at st root xs"
  shows "alive st root" "nxt st root = Some (hd (xs @ [root]))" "prv st root = Some (last (root # xs))"
  using list_at_link[of st root "[]" xs] list_at_link[of st root xs "[]"] assms by (simp_all add: link_def)

lemma list_at_cong:
  assumes "\<And>a. a \<in> set (root # xs) \<Longrightarrow> st' a = st a" "list_at st root xs"
  shows "list_at st' root xs"
proof -
  have same: "nxt st' a = nxt st a" "prv st' a = prv st a" "alive st' a = alive st a" if "a \<in> set (root # xs)" for a
    using assms(1)[OF that] unfolding nxt_def prv_def alive_def by simp_all
  have "chain st (root # xs @ [root])" "distinct (root # xs)" using assms(2) by (simp_all add: list_at_def)
  moreover from this(1) have "chain st' (root # xs @ [root])"
    by (rule chain_cong) (use same in \<open>force dest: in_set_butlastD\<close>)+
  ultimately show ?thesis by (simp add: list_at_def)
qed

lemma only_links_trans: "only_links S st st1 \<Longrightarrow> only_links S st1 st2 \<Longrightarrow> only_links S st st2"
  by (simp add: only_links_def)

lemma only_links_mono: "only_links S st st' \<Longrightarrow> S \<subseteq> S' \<Longrightarrow> only_links S' st st'"
  unfolding only_links_def by blast

lemma linked_in_only_links:
  "alive st p \<Longrightarrow> alive st x \<Longrightarrow> alive st t \<Longrightarrow> only_links {p, x, t} st (linked_in p x t st)"
  by (simp add: only_links_def linked_in_def)

lemma linked_out_only_links:
  "alive st p \<Longrightarrow> alive st x \<Longrightarrow> alive st t \<Longrightarrow> only_links {p, x, t} st (linked_out p x t st)"
  by (simp add: only_links_def linked_out_def)

lemma neighbours: "last (root # us) \<in> set (root # us @ vs)" "hd (vs @ [root]) \<in> set (root # us @ vs)"
  by (cases us rule: rev_cases; auto) (cases vs; auto)

lemma list_at_distinct: "list_at st root xs \<Longrightarrow> distinct (root # xs)"
  unfolding list_at_def by blast

lemma list_empty_at: "list_at st root xs \<Longrightarrow> list_empty st root = Ret (xs = [])"
  using list_at_ends[of st root xs] list_at_distinct[of st root xs]
  by (cases xs) (simp_all add: list_empty_def load_alive)

section \<open>Insertion\<close>

lemma insert_before_at:
  assumes "list_at st root (us @ vs)" "alive st x" "nxt st x = None" "x \<notin> set (root # us @ vs)"
  shows "\<exists>st'. insert_before x (Some (hd (vs @ [root]))) st = Ret st' \<and> list_at st' root (us @ x # vs) \<and>
    only_links (insert x (set (root # us @ vs))) st st'"
proof -
  note l = list_at_insert[OF assms(1,2,4)]
  have n: "x \<noteq> last (root # us)" "x \<noteq> hd (vs @ [root])"
    using neighbours[where root = root and us = us and vs = vs] assms(4) by metis+
  have "insert_before x (Some (hd (vs @ [root]))) st = Ret (linked_in (last (root # us)) x (hd (vs @ [root])) st)"
    using insert_node_before_eq[OF l(1) assms(2) n] assms(2,3) by (simp add: insert_before_def load_alive)
  moreover have "only_links {last (root # us), x, hd (vs @ [root])} st (linked_in (last (root # us)) x (hd (vs @ [root])) st)"
    using linked_in_only_links l(1) assms(2) unfolding link_def by blast
  then have "only_links (insert x (set (root # us @ vs))) st (linked_in (last (root # us)) x (hd (vs @ [root])) st)"
    by (rule only_links_mono) (use neighbours[where root = root and us = us and vs = vs] in blast)
  ultimately show ?thesis using l(2) by blast
qed

lemma insert_at_eq:
  "insert_at position x st = bind_outcome (insert_before x position st) (\<lambda>st'. Ret (st', Some x))"
  by (cases "load st (Some x)") (auto simp: insert_at_def insert_before_def)

lemma insert_linked: "alive st x \<Longrightarrow> nxt st x \<noteq> None \<Longrightarrow> insert_before x target st = Abort"
  by (simp add: insert_before_def load_alive)

section \<open>Removal, for any disposer\<close>

text \<open>
  What removing the elements \<open>R\<close> from a list on the nodes \<open>S\<close> does to the store: other nodes are
  untouched, the remaining ones keep their values, the removed ones are unlinked or, when the disposer
  destroys them, gone.
\<close>

definition removal :: "bool \<Rightarrow> addr set \<Rightarrow> addr set \<Rightarrow> 'a store \<Rightarrow> 'a store \<Rightarrow> bool" where
  "removal destroys S R st st' \<longleftrightarrow> R \<subseteq> S \<and>
     (\<forall>a. a \<notin> S \<longrightarrow> st' a = st a) \<and>
     (\<forall>a. a \<notin> R \<longrightarrow> alive st' a = alive st a \<and> val st' a = val st a) \<and>
     (\<forall>a\<in>R. if destroys then \<not> alive st' a
             else alive st' a \<and> nxt st' a = None \<and> prv st' a = None \<and> val st' a = val st a)"

lemma removal_refl: "removal d S {} st st"
  by (simp add: removal_def)

lemma removal_mono: "removal d S R st st' \<Longrightarrow> S \<subseteq> S' \<Longrightarrow> removal d S' R st st'"
  unfolding removal_def by blast

lemma fields_cong: "st' a = st a \<Longrightarrow> nxt st' a = nxt st a \<and> prv st' a = prv st a \<and> val st' a = val st a \<and> alive st' a = alive st a"
  unfolding nxt_def prv_def val_def alive_def by simp

lemma val_cong: "st' a = st a \<Longrightarrow> val st' a = val st a"
  by (simp only: val_def)

lemma removal_trans:
  assumes "removal d S R st st1" "removal d S1 R1 st1 st2" "S1 \<subseteq> S" "R \<inter> S1 = {}"
  shows "removal d S (R \<union> R1) st st2"
proof -
  have R: "R \<subseteq> S" "R1 \<subseteq> S1" using assms(1,2) by (simp_all add: removal_def)
  have step1: "a \<notin> S \<Longrightarrow> st1 a = st a" "a \<notin> R \<Longrightarrow> alive st1 a = alive st a \<and> val st1 a = val st a"
    "a \<in> R \<Longrightarrow> if d then \<not> alive st1 a else alive st1 a \<and> nxt st1 a = None \<and> prv st1 a = None \<and> val st1 a = val st a" for a
    using assms(1) unfolding removal_def by blast+
  have step2: "a \<notin> S1 \<Longrightarrow> st2 a = st1 a" "a \<notin> R1 \<Longrightarrow> alive st2 a = alive st1 a \<and> val st2 a = val st1 a"
    "a \<in> R1 \<Longrightarrow> if d then \<not> alive st2 a else alive st2 a \<and> nxt st2 a = None \<and> prv st2 a = None \<and> val st2 a = val st1 a" for a
    using assms(2) unfolding removal_def by blast+
  have "if d then \<not> alive st2 a else alive st2 a \<and> nxt st2 a = None \<and> prv st2 a = None \<and> val st2 a = val st a"
    if "a \<in> R \<union> R1" for a
  proof (cases "a \<in> R")
    case True
    then have "st2 a = st1 a" using step2(1)[of a] assms(4) by blast
    from fields_cong[of st2 a st1, OF this] show ?thesis using step1(3)[OF True] by simp
  next
    case False
    then show ?thesis using that step2(3)[of a] step1(2)[of a] by (cases d) auto
  qed
  moreover have "R \<union> R1 \<subseteq> S" using R assms(3) by blast
  moreover have "st2 a = st a" if "a \<notin> S" for a
    using step1(1)[OF that] step2(1)[of a] assms(3) that by auto
  moreover have "alive st2 a = alive st a \<and> val st2 a = val st a" if "a \<notin> R \<union> R1" for a
    using step1(2)[of a] step2(2)[of a] that by simp
  ultimately show ?thesis unfolding removal_def by blast
qed

locale element_disposer =
  fixes disposer :: "'a disposer" and destroys :: bool
  assumes dispose: "alive st x \<Longrightarrow> nxt st x = None \<Longrightarrow>
    \<exists>st'. disposer x st = Ret st' \<and> (\<forall>a. a \<noteq> x \<longrightarrow> st' a = st a) \<and>
      (if destroys then \<not> alive st' x else st' x = st x)"
begin

lemma remove_node:
  assumes "list_at st root (us @ x # vs)"
  shows "\<exists>st'. remove_and_dispose_node disposer (Some x) st = Ret st' \<and> list_at st' root (us @ vs) \<and>
    removal destroys (set (root # us @ x # vs)) {x} st st'"
proof -
  let ?p = "last (root # us)" and ?t = "hd (vs @ [root])"
  define st1 where "st1 = linked_out ?p x ?t st"
  note l = list_at_remove[OF assms]
  have alive: "alive st ?p" "alive st x" "alive st ?t" using l(1,2) by (simp_all only: link_def)
  have frame: "only_links {?p, x, ?t} st st1"
    using linked_out_only_links[OF alive] by (simp only: st1_def)
  have x: "alive st1 x" "nxt st1 x = None" "prv st1 x = None"
    using alive by (simp_all add: st1_def linked_out_def)
  obtain st' where st': "disposer x st1 = Ret st'" "\<And>a. a \<noteq> x \<Longrightarrow> st' a = st1 a"
    "if destroys then \<not> alive st' x else st' x = st1 x"
    using dispose[OF x(1,2)] by blast
  have "x \<notin> set (root # us @ vs)" using list_at_distinct[OF assms] by auto
  then have "list_at st' root (us @ vs)"
    using st'(2) l(5) unfolding st1_def[symmetric] by (intro list_at_cong[of root "us @ vs" st' st1]) metis+
  moreover have "remove_and_dispose_node disposer (Some x) st = Ret st'"
    using remove_node_eq[OF l(1-4), of disposer] st'(1) by (simp only: st1_def)
  moreover have "removal destroys (set (root # us @ x # vs)) {x} st st'"
  proof -
    have "st' a = st a" if "a \<notin> set (root # us @ x # vs)" for a
      using that st'(2)[of a] frame neighbours[where root = root and us = us and vs = vs]
      unfolding only_links_def by fastforce
    moreover have "alive st' a = alive st a \<and> val st' a = val st a" if "a \<noteq> x" for a
      using fields_cong[of st' a st1, OF st'(2)[OF that]] frame unfolding only_links_def by simp
    moreover have "if destroys then \<not> alive st' x
        else alive st' x \<and> nxt st' x = None \<and> prv st' x = None \<and> val st' x = val st x"
      using st'(3) fields_cong[of st' x st1] x frame unfolding only_links_def by (cases destroys) simp_all
    ultimately show ?thesis unfolding removal_def by simp
  qed
  ultimately show ?thesis by blast
qed

lemma pop_front:
  "list_at st root (x # xs) \<Longrightarrow> \<exists>st'. pop_front_and_dispose disposer root st = Ret st' \<and> list_at st' root xs \<and>
     removal destroys (set (root # x # xs)) {x} st st'"
  using remove_node[of st root "[]" x xs] list_at_ends[of st root "x # xs"] list_empty_at[of st root "x # xs"]
  by (simp add: pop_front_and_dispose_def load_alive)

lemma pop_back:
  "list_at st root (xs @ [x]) \<Longrightarrow> \<exists>st'. pop_back_and_dispose disposer root st = Ret st' \<and> list_at st' root xs \<and>
     removal destroys (set (root # xs @ [x])) {x} st st'"
  using remove_node[of st root xs x "[]"] list_at_ends[of st root "xs @ [x]"] list_empty_at[of st root "xs @ [x]"]
  by (simp add: pop_back_and_dispose_def load_alive)

lemma clear:
  assumes "list_at st root xs" "length xs < fuel"
  shows "\<exists>st'. clear_and_dispose fuel disposer root st = Some (Ret st') \<and> list_at st' root [] \<and>
    removal destroys (set (root # xs)) (set xs) st st'"
  using assms
proof (induction xs arbitrary: st fuel)
  case Nil
  then obtain k where "fuel = Suc k" by (cases fuel) auto
  then show ?case using Nil list_empty_at[OF Nil(1)] removal_mono[OF removal_refl]
    by (simp add: clear_and_dispose_def removal_refl)
next
  case (Cons x xs)
  then obtain k where k: "fuel = Suc k" "length xs < k" by (cases fuel) auto
  obtain st1 where st1: "pop_front_and_dispose disposer root st = Ret st1" "list_at st1 root xs"
    "removal destroys (set (root # x # xs)) {x} st st1"
    using pop_front[OF Cons.prems(1)] by blast
  obtain st' where st': "clear_and_dispose k disposer root st1 = Some (Ret st')" "list_at st' root []"
    "removal destroys (set (root # xs)) (set xs) st1 st'"
    using Cons.IH[OF st1(2) k(2)] by blast
  have "x \<notin> set (root # xs)" using list_at_distinct[OF Cons.prems(1)] by auto
  then have "removal destroys (set (root # x # xs)) (set (x # xs)) st st'"
    using removal_trans[OF st1(3) st'(3)] by auto
  then show ?case
    using st' st1(1) list_empty_at[OF Cons.prems(1)] by (simp add: clear_and_dispose_def k(1))
qed

lemma erase_one:
  assumes "list_at st root (us @ x # vs)"
  shows "\<exists>st'. erase_and_dispose disposer root (Some x) st = Ret (st', Some (hd (vs @ [root]))) \<and>
    list_at st' root (us @ vs) \<and> removal destroys (set (root # us @ x # vs)) {x} st st'"
proof -
  have "it_next st (Some x) = Ret (Some (hd (vs @ [root])))"
    using list_at_remove(2)[OF assms] by (simp add: it_next_def link_def load_alive)
  then show ?thesis
    using remove_node[OF assms] list_empty_at[OF assms] by (auto simp: erase_and_dispose_def)
qed

lemma erase_some:
  assumes "list_at st root (us @ ms @ vs)" "length ms < fuel"
  shows "\<exists>st'. erase_range_and_dispose fuel disposer root (Some (hd (ms @ vs @ [root]))) (Some (hd (vs @ [root]))) st
      = Some (Ret (st', Some (hd (vs @ [root])))) \<and>
    list_at st' root (us @ vs) \<and> removal destroys (set (root # us @ ms @ vs)) (set ms) st st'"
  using assms
proof (induction ms arbitrary: st fuel)
  case Nil
  then obtain k where "fuel = Suc k" by (cases fuel) auto
  then show ?case using Nil by (simp add: erase_range_and_dispose_def removal_refl)
next
  case (Cons x ms)
  then obtain k where k: "fuel = Suc k" "length ms < k" by (cases fuel) auto
  obtain st1 where st1: "erase_and_dispose disposer root (Some x) st = Ret (st1, Some (hd (ms @ vs @ [root])))"
    "list_at st1 root (us @ ms @ vs)" "removal destroys (set (root # us @ x # ms @ vs)) {x} st st1"
    using erase_one[of st root us x "ms @ vs"] Cons.prems(1) by auto
  obtain st' where st': "erase_range_and_dispose k disposer root (Some (hd (ms @ vs @ [root]))) (Some (hd (vs @ [root]))) st1
      = Some (Ret (st', Some (hd (vs @ [root]))))" "list_at st' root (us @ vs)"
    "removal destroys (set (root # us @ ms @ vs)) (set ms) st1 st'"
    using Cons.IH[OF st1(2) k(2)] by blast
  have d: "distinct (root # us @ x # ms @ vs)" using list_at_distinct[OF Cons.prems(1)] by simp
  then have "removal destroys (set (root # us @ x # ms @ vs)) (set (x # ms)) st st'"
    using removal_trans[OF st1(3) st'(3)] by auto
  moreover have "erase_range_body disposer root (st, Some x) = Ret (st1, Some (hd (ms @ vs @ [root])))"
    using st1(1) by (simp add: erase_range_body_def erase_and_dispose_def)
  moreover have "x \<noteq> hd (vs @ [root])" using d by (cases vs) auto
  ultimately show ?case using st'(1,2) by (simp add: erase_range_and_dispose_def k(1))
qed

lemma remove_loop:
  assumes "list_at st1 root (us @ vs)" "length vs < fuel" "removal destroys S R st st1" "S \<supseteq> set (root # us @ vs)"
    "R \<inter> set (root # us @ vs) = {}" "R \<subseteq> {a. q a}"
    and pred: "\<forall>st2 R2 a. removal destroys S R2 st st2 \<longrightarrow> R2 \<subseteq> {a. q a} \<longrightarrow> a \<in> set vs - R2 \<longrightarrow> pred st2 a = Ret (q a)"
  shows "\<exists>st'. while_run fuel (\<lambda>s. Ret (snd s \<noteq> Some root)) (remove_body pred disposer) (st1, Some (hd (vs @ [root])))
      = Some (Ret (st', Some root)) \<and>
    list_at st' root (us @ filter (\<lambda>a. \<not> q a) vs) \<and> removal destroys S (R \<union> set (filter q vs)) st st'"
  using assms
proof (induction vs arbitrary: us st1 R fuel)
  case Nil
  then obtain k where "fuel = Suc k" by (cases fuel) auto
  then show ?case using Nil by simp
next
  case (Cons x vs)
  then obtain k where k: "fuel = Suc k" "length vs < k" by (cases fuel) auto
  let ?next = "Some (hd (vs @ [root]))"
  have d: "distinct (root # us @ x # vs)" using list_at_distinct[OF Cons.prems(1)] .
  have nx: "it_next st1 (Some x) = Ret ?next"
    using list_at_remove(2)[OF Cons.prems(1)] by (simp add: it_next_def link_def load_alive)
  have p: "pred st1 x = Ret (q x)" using Cons.prems(3,5,6,7) by auto
  have x: "Some (hd ((x # vs) @ [root])) \<noteq> Some root" using d by auto
  have pred': "\<forall>st2 R2 a. removal destroys S R2 st st2 \<longrightarrow> R2 \<subseteq> {a. q a} \<longrightarrow> a \<in> set vs - R2 \<longrightarrow> pred st2 a = Ret (q a)"
    using Cons.prems(7) by auto
  show ?case
  proof (cases "q x")
    case True
    obtain st2 where st2: "remove_and_dispose_node disposer (Some x) st1 = Ret st2" "list_at st2 root (us @ vs)"
      "removal destroys (set (root # us @ x # vs)) {x} st1 st2"
      using remove_node[OF Cons.prems(1)] by blast
    have r2: "removal destroys S (R \<union> {x}) st st2"
      by (rule removal_trans[OF Cons.prems(3) st2(3) Cons.prems(4,5)])
    have disj: "(R \<union> {x}) \<inter> set (root # us @ vs) = {}" "R \<union> {x} \<subseteq> {a. q a}" "set (root # us @ vs) \<subseteq> S"
      using Cons.prems(4-6) d True by auto
    obtain st' where "while_run k (\<lambda>s. Ret (snd s \<noteq> Some root)) (remove_body pred disposer) (st2, ?next)
        = Some (Ret (st', Some root))" "list_at st' root (us @ filter (\<lambda>a. \<not> q a) vs)"
      "removal destroys S ((R \<union> {x}) \<union> set (filter q vs)) st st'"
      using Cons.IH[OF st2(2) k(2) r2 disj(3,1,2) pred'] by blast
    moreover have "remove_body pred disposer (st1, Some x) = Ret (st2, ?next)"
      using True p nx st2(1) by (simp add: remove_body_def)
    ultimately show ?thesis using True x by (simp add: k(1))
  next
    case False
    have l: "list_at st1 root ((us @ [x]) @ vs)" using Cons.prems(1) by simp
    have disj: "R \<inter> set (root # (us @ [x]) @ vs) = {}" "set (root # (us @ [x]) @ vs) \<subseteq> S"
      using Cons.prems(4,5) by auto
    obtain st' where "while_run k (\<lambda>s. Ret (snd s \<noteq> Some root)) (remove_body pred disposer) (st1, ?next)
        = Some (Ret (st', Some root))" "list_at st' root ((us @ [x]) @ filter (\<lambda>a. \<not> q a) vs)"
      "removal destroys S (R \<union> set (filter q vs)) st st'"
      using Cons.IH[OF l k(2) Cons.prems(3) disj(2,1) Cons.prems(6) pred'] by blast
    moreover have "remove_body pred disposer (st1, Some x) = Ret (st1, ?next)"
      using False p nx by (simp add: remove_body_def)
    ultimately show ?thesis using False x by (simp add: k(1))
  qed
qed

lemma remove_matching:
  assumes "list_at st root xs" "length xs < fuel"
    and "\<And>st2 R2 a. removal destroys (set (root # xs)) R2 st st2 \<Longrightarrow> R2 \<subseteq> {a. q a} \<Longrightarrow> a \<in> set xs - R2 \<Longrightarrow>
      pred st2 a = Ret (q a)"
  shows "\<exists>st'. remove_and_dispose_if fuel pred disposer root st = Some (Ret st') \<and>
    list_at st' root (filter (\<lambda>a. \<not> q a) xs) \<and> removal destroys (set (root # xs)) (set (filter q xs)) st st'"
proof -
  have l: "list_at st root ([] @ xs)" using assms(1) by simp
  have p: "\<forall>st2 R2 a. removal destroys (set (root # xs)) R2 st st2 \<longrightarrow> R2 \<subseteq> {a. q a} \<longrightarrow>
      a \<in> set xs - R2 \<longrightarrow> pred st2 a = Ret (q a)"
    using assms(3) by blast
  have b: "list_begin st root = Ret (Some (hd (xs @ [root])))"
    using list_at_ends[OF assms(1)] by (simp add: list_begin_def load_alive)
  show ?thesis
    using remove_loop[OF l assms(2) removal_refl _ _ _ p] b
    by (auto simp: remove_and_dispose_if_def)
qed

end

interpretation plain: element_disposer no_disposer False
  by unfold_locales (simp add: no_disposer_def)

interpretation delete: element_disposer element_destroy True
  by unfold_locales (auto simp: element_destroy_def load_alive alive_def)

section \<open>Ranges of elements\<close>

definition free_elements :: "'a store \<Rightarrow> addr list \<Rightarrow> bool" where
  "free_elements st ys \<longleftrightarrow> distinct ys \<and> (\<forall>y\<in>set ys. alive st y \<and> nxt st y = None)"

lemma insert_each_at:
  assumes "list_at st root (us @ vs)" "free_elements st ys" "set ys \<inter> set (root # us @ vs) = {}"
  shows "\<exists>st'. insert_each (Some (hd (vs @ [root]))) ys st = Ret st' \<and> list_at st' root (us @ ys @ vs) \<and>
    only_links (set (root # us @ ys @ vs)) st st'"
  using assms
proof (induction ys arbitrary: st us)
  case Nil
  then show ?case by (simp add: only_links_def)
next
  case (Cons x ys)
  have x: "alive st x" "nxt st x = None" "x \<notin> set (root # us @ vs)" using Cons.prems(2,3) by (auto simp: free_elements_def)
  obtain st1 where st1: "insert_before x (Some (hd (vs @ [root]))) st = Ret st1" "list_at st1 root ((us @ [x]) @ vs)"
    "only_links (insert x (set (root # us @ vs))) st st1"
    using insert_before_at[OF Cons.prems(1) x] by auto
  have "\<forall>y\<in>set ys. st1 y = st y"
    using st1(3) Cons.prems(2,3) by (auto simp: only_links_def free_elements_def)
  then have "free_elements st1 ys" using Cons.prems(2) fields_cong unfolding free_elements_def
    by (metis distinct.simps(2) list.set_intros(2))
  moreover have "set ys \<inter> set (root # (us @ [x]) @ vs) = {}" using Cons.prems(2,3) by (auto simp: free_elements_def)
  ultimately obtain st' where st': "insert_each (Some (hd (vs @ [root]))) ys st1 = Ret st'"
    "list_at st' root ((us @ [x]) @ ys @ vs)" "only_links (set (root # (us @ [x]) @ ys @ vs)) st1 st'"
    using Cons.IH[OF st1(2)] by blast
  have "only_links (set (root # us @ (x # ys) @ vs)) st st'"
    by (rule only_links_trans[OF only_links_mono[OF st1(3)] only_links_mono[OF st'(3)]]) auto
  then show ?case using st1(1) st'(1,2) by (simp add: insert_at_eq)
qed

lemma insert_range_eq:
  "insert_range position elems st =
     bind_outcome (insert_each position elems st) (\<lambda>st'. Ret (st', if elems = [] then position else Some (hd elems)))"
  by (cases elems; cases "insert_before (hd elems) position st") (simp_all add: insert_range_def insert_at_eq)

lemma push_back_each_eq: "push_back_each root elems st = insert_each (Some root) elems st"
proof (induction elems arbitrary: st)
  case (Cons x xs)
  then show ?case by (cases "insert_before x (Some root) st") (simp_all add: list_push_back_def insert_at_eq)
qed simp

section \<open>Size\<close>

lemma size_loop:
  assumes "list_at st root (us @ vs)" "length vs < fuel"
  shows "while_run fuel (size_cond st root) (size_body st) (Some (hd (vs @ [root])), n) = Some (Ret (Some root, n + length vs))"
  using assms
proof (induction vs arbitrary: us n fuel)
  case Nil
  then obtain k where "fuel = Suc k" by (cases fuel) auto
  then show ?case by (simp add: size_cond_def)
next
  case (Cons x vs)
  then obtain k where k: "fuel = Suc k" "length vs < k" by (cases fuel) auto
  have "it_next st (Some x) = Ret (Some (hd (vs @ [root])))"
    using list_at_remove(2)[OF Cons.prems(1)] by (simp add: it_next_def link_def load_alive)
  then have "size_body st (Some x, n) = Ret (Some (hd (vs @ [root])), Suc n)" by (simp add: size_body_def)
  moreover have "x \<noteq> root" using list_at_distinct[OF Cons.prems(1)] by auto
  moreover have "list_at st root ((us @ [x]) @ vs)" using Cons.prems(1) by simp
  ultimately show ?case using Cons.IH[of "us @ [x]" k "Suc n"] k by (simp add: size_cond_def)
qed

lemma list_begin_at: "list_at st root xs \<Longrightarrow> list_begin st root = Ret (Some (hd (xs @ [root])))"
  using list_at_ends[of st root xs] by (simp add: list_begin_def load_alive)

lemma list_size_at: "list_at st root xs \<Longrightarrow> length xs < fuel \<Longrightarrow> list_size fuel st root = Some (Ret (length xs))"
  using size_loop[of st root "[]" xs fuel 0] by (simp add: list_size_def list_begin_at)

section \<open>Moving rings\<close>

lemma list_at_nonempty:
  "xs \<noteq> [] \<Longrightarrow> list_at st root xs \<longleftrightarrow>
     distinct (root # xs) \<and> link st root (hd xs) \<and> chain st xs \<and> link st (last xs) root"
proof (cases xs rule: rev_cases)
  case (snoc ys y)
  have "chain st (root # ys @ [y, root]) \<longleftrightarrow> chain st (root # ys @ [y]) \<and> link st y root"
    using chain_append[of st "root # ys" y "[root]"] by simp
  then show ?thesis by (cases ys) (auto simp: snoc list_at_def)
qed simp

lemma list_at_Nil: "list_at st root [] \<longleftrightarrow> link st root root"
  by (simp add: list_at_def)

lemma take_ring_at:
  assumes "list_at st root []" "list_at st from ys" "root \<notin> set (from # ys)"
  shows "\<exists>st'. take_ring root from st = Ret st' \<and> list_at st' root ys \<and> list_at st' from [] \<and>
    only_links (set (root # from # ys)) st st'"
proof (cases "ys = []")
  case True
  then show ?thesis using assms list_empty_at[OF assms(2)] by (simp add: take_ring_def only_links_def)
next
  case False
  let ?l = "last ys" and ?h = "hd ys"
  define st' where "st' = upd_prev from (Some from) (upd_next from (Some from) (upd_prev ?h (Some root)
    (upd_next root (Some ?h) (upd_next ?l (Some root) (upd_prev root (Some ?l) st)))))"
  have ring: "distinct (from # ys)" "link st from ?h" "chain st ys" "link st ?l from"
    using assms(2) list_at_nonempty[OF False] by blast+
  have ends: "?l \<in> set ys" "?h \<in> set ys" using False by simp_all
  have alive: "alive st root" "alive st from" "alive st ?l" "alive st ?h"
    using assms(1) ring by (auto simp: list_at_Nil link_def)
  have "take_ring root from st = Ret st'"
    using assms(3) ring alive ends list_empty_at[OF assms(2)] False
    by (auto simp: take_ring_def st'_def link_def load_alive make_empty_root_eq)
  moreover have "chain st' ys"
    using ring(3)
  proof (rule chain_cong)
    show "nxt st' a = nxt st a" if "a \<in> set (butlast ys)" for a
      using that ring(1) assms(3) False by (cases ys rule: rev_cases) (auto simp: st'_def)
    show "prv st' a = prv st a" if "a \<in> set (tl ys)" for a
      using that ring(1) assms(3) False by (cases ys) (auto simp: st'_def)
    show "alive st' a = alive st a" if "a \<in> set ys" for a
      using alive by (simp add: st'_def)
  qed
  moreover have "link st' root ?h" "link st' ?l root" "link st' from from"
    using alive ends ring(1) assms(3) by (auto simp: st'_def link_def)
  moreover have "only_links (set (root # from # ys)) st st'"
  proof -
    have "a \<noteq> ?h \<and> a \<noteq> ?l" if "a \<notin> set ys" for a using that ends by metis
    then show ?thesis using alive unfolding only_links_def st'_def by simp
  qed
  ultimately show ?thesis
    using list_at_nonempty[OF False] ring(1) assms(3) by (auto simp: list_at_Nil)
qed

lemma removal_only_links:
  "removal False S R st st' \<Longrightarrow> (\<And>a. a \<in> R \<Longrightarrow> alive st a) \<Longrightarrow> only_links S st st'"
  unfolding removal_def only_links_def if_False by (metis (no_types))

lemma list_frame:
  assumes "list_at st root xs" "only_links S st st'" "S \<inter> set (root # xs) = {}"
  shows "list_at st' root xs"
  using assms(2,3) unfolding only_links_def by (intro list_at_cong[OF _ assms(1)]) blast

lemma move_assign_at:
  assumes "list_at st root xs" "list_at st from ys" "set (root # xs) \<inter> set (from # ys) = {}" "length xs < fuel"
  shows "\<exists>st'. move_assign fuel root from st = Some (Ret st') \<and> list_at st' root ys \<and> list_at st' from [] \<and>
    (\<forall>x\<in>set xs. nxt st' x = None \<and> prv st' x = None) \<and> only_links (set (root # from # xs @ ys)) st st'"
proof -
  obtain st1 where st1: "list_clear fuel root st = Some (Ret st1)" "list_at st1 root []"
    "removal False (set (root # xs)) (set xs) st st1"
    using plain.clear[OF assms(1,4)] by (auto simp: list_clear_def)
  have frame1: "only_links (set (root # xs)) st st1"
    using removal_only_links[OF st1(3)] list_at_alive[OF assms(1)] by simp
  have ring: "list_at st1 from ys" by (rule list_frame[OF assms(2) frame1 assms(3)])
  have "root \<notin> set (from # ys)" using assms(3) by auto
  then obtain st' where st': "take_ring root from st1 = Ret st'" "list_at st' root ys" "list_at st' from []"
    "only_links (set (root # from # ys)) st1 st'"
    using take_ring_at[OF st1(2) ring] by blast
  have "nxt st1 x = None \<and> prv st1 x = None" if "x \<in> set xs" for x
    using st1(3) that unfolding removal_def by simp
  moreover have "x \<notin> set (root # from # ys)" if "x \<in> set xs" for x
    using that assms(3) list_at_distinct[OF assms(1)] by auto
  ultimately have "\<forall>x\<in>set xs. nxt st' x = None \<and> prv st' x = None"
    using st'(4) fields_cong unfolding only_links_def by metis
  moreover have "only_links (set (root # from # xs @ ys)) st st'"
    by (rule only_links_trans[OF only_links_mono[OF frame1] only_links_mono[OF st'(4)]]) auto
  moreover have "root \<noteq> from" using assms(3) by auto
  ultimately show ?thesis using st1(1) st' by (auto simp: move_assign_def)
qed

lemma list_ctor_at:
  "\<exists>st'. list_ctor root v st = Ret st' \<and> list_at st' root [] \<and> val st' root = v \<and> (\<forall>a. a \<noteq> root \<longrightarrow> st' a = st a)"
  unfolding list_ctor_def using make_empty_root_eq[of "st(root \<mapsto> \<lparr>n_next = None, n_prev = None, n_value = v\<rparr>)" root]
  by (simp add: alive_def list_at_Nil link_def) (simp add: val_def upd_next_def upd_prev_def)

lemma list_destroy_at: "list_at st root [] \<Longrightarrow> list_destroy root st = Ret (st(root := None))"
  using list_empty_at[of st root "[]"] list_at_ends[of st root "[]"]
  by (simp add: list_destroy_def unlink_linked element_destroy_def load_alive)
    (auto simp: upd_next_def upd_prev_def)

lemma list_destroy_nonempty: "list_at st root xs \<Longrightarrow> xs \<noteq> [] \<Longrightarrow> list_destroy root st = Abort"
  using list_empty_at[of st root xs] by (simp add: list_destroy_def)

lemma move_into_empty:
  assumes "list_at st root []" "list_at st from ys" "root \<notin> set (from # ys)" "0 < fuel"
  shows "\<exists>st'. move_assign fuel root from st = Some (Ret st') \<and> list_at st' root ys \<and> list_at st' from [] \<and>
    only_links (set (root # from # ys)) st st'"
proof -
  have "set [root] \<inter> set (from # ys) = {}" "length [] < fuel" using assms(3,4) by auto
  from move_assign_at[OF assms(1,2) this] show ?thesis by auto
qed

lemma list_at_elsewhere: "list_at st root xs \<Longrightarrow> a \<notin> set (root # xs) \<Longrightarrow> list_at (st(a := n)) root xs"
  by (rule list_at_cong) auto

lemma list_swap_at:
  assumes "list_at st root xs" "list_at st x ys" "set (root # xs) \<inter> set (x # ys) = {}"
    "st tmp = None" "tmp \<notin> set (root # xs)" "tmp \<notin> set (x # ys)" "0 < fuel"
  shows "\<exists>st'. list_swap fuel tmp v root x st = Some (Ret st') \<and> list_at st' root ys \<and> list_at st' x xs \<and>
    only_links (set (root # x # xs @ ys)) st st'"
proof -
  have d: "x \<notin> set ys" "root \<notin> set xs" using list_at_distinct[OF assms(1)] list_at_distinct[OF assms(2)] by auto
  obtain st0 where st0: "list_ctor tmp v st = Ret st0" "list_at st0 tmp []" "\<forall>a. a \<noteq> tmp \<longrightarrow> st0 a = st a"
    using list_ctor_at[of tmp v st] by blast
  have x0: "list_at st0 x ys" by (rule list_at_cong[OF _ assms(2)]) (use assms(6) st0(3) in metis)
  have root0: "list_at st0 root xs" by (rule list_at_cong[OF _ assms(1)]) (use assms(5) st0(3) in metis)
  obtain st1 where st1: "move_assign fuel tmp x st0 = Some (Ret st1)" "list_at st1 tmp ys" "list_at st1 x []"
    "only_links (set (tmp # x # ys)) st0 st1"
    using move_into_empty[OF st0(2) x0 assms(6,7)] by blast
  have root1: "list_at st1 root xs" by (rule list_frame[OF root0 st1(4)]) (use assms(3,5) in auto)
  have "x \<notin> set (root # xs)" using assms(3) by auto
  then obtain st2 where st2: "move_assign fuel x root st1 = Some (Ret st2)" "list_at st2 x xs" "list_at st2 root []"
    "only_links (set (x # root # xs)) st1 st2"
    using move_into_empty[OF st1(3) root1 _ assms(7)] by blast
  have tmp2: "list_at st2 tmp ys" by (rule list_frame[OF st1(2) st2(4)]) (use assms(3,5,6) d in auto)
  have "root \<notin> set (tmp # ys)" using assms(3,5) by auto
  then obtain st3 where st3: "move_assign fuel root tmp st2 = Some (Ret st3)" "list_at st3 root ys" "list_at st3 tmp []"
    "only_links (set (root # tmp # ys)) st2 st3"
    using move_into_empty[OF st2(3) tmp2 _ assms(7)] by blast
  have x3: "list_at st3 x xs" by (rule list_frame[OF st2(2) st3(4)]) (use assms(3,5,6) d in auto)
  let ?S = "set (tmp # root # x # xs @ ys)" and ?st = "st3(tmp := None)"
  have "only_links ?S st0 st3"
    by (rule only_links_trans[OF only_links_mono[OF st1(4)]
        only_links_trans[OF only_links_mono[OF st2(4)] only_links_mono[OF st3(4)]]]) auto
  then have other: "a \<notin> ?S \<Longrightarrow> st3 a = st0 a" "alive st3 a = alive st0 a" "val st3 a = val st0 a" for a
    unfolding only_links_def by blast+
  have "only_links (set (root # x # xs @ ys)) st ?st"
    unfolding only_links_def
  proof (intro allI conjI impI)
    show "?st a = st a" if "a \<notin> set (root # x # xs @ ys)" for a
      using that other(1)[of a] st0(3) assms(4) by (cases "a = tmp") auto
    show "alive ?st a = alive st a" for a
      using other(2)[of a] st0(3) assms(4) unfolding alive_def by (cases "a = tmp") auto
    show "val ?st a = val st a" for a
    proof (cases "a = tmp")
      case True
      then show ?thesis using assms(4) by (intro val_cong) simp
    next
      case False
      have "val ?st a = val st3 a" by (rule val_cong) (simp add: False)
      also have "\<dots> = val st a" unfolding other(3) by (rule val_cong) (use False st0(3) in blast)
      finally show ?thesis .
    qed
  qed
  moreover have "list_at ?st root ys" by (rule list_at_elsewhere[OF st3(2)]) (use assms(5,6) in auto)
  moreover have "list_at ?st x xs" by (rule list_at_elsewhere[OF x3]) (use assms(5,6) in auto)
  moreover have "root \<noteq> x" using assms(3) by auto
  then have "list_swap fuel tmp v root x st = Some (Ret ?st)"
    using st0(1) st1(1) st2(1) st3(1) list_destroy_at[OF st3(3)]
    by (simp add: list_swap_def move_ctor_def)
  ultimately show ?thesis by blast
qed

section \<open>Moving an element\<close>

lemma store_ext:
  assumes "\<And>a. alive st a = alive st' a" "\<And>a. nxt st a = nxt st' a" "\<And>a. prv st a = prv st' a" "\<And>a. val st a = val st' a"
  shows "st = st'"
proof
  fix a
  show "st a = st' a"
    using assms(1)[of a] assms(2)[of a] assms(3)[of a] assms(4)[of a]
    unfolding alive_def nxt_def prv_def val_def by (cases "st a"; cases "st' a"; simp only: option.sel) (auto intro: node.equality)
qed

text \<open>A moved element is the element taken out with the new one put in its place.\<close>

lemma element_move_eq:
  assumes "link st p from" "link st from t" "this \<noteq> from" "this \<noteq> p" "this \<noteq> t" "from \<noteq> p" "from \<noteq> t"
  shows "element_move this from st = Ret (linked_in p this t (linked_out p from t
    (st(this \<mapsto> \<lparr>n_next = None, n_prev = None, n_value = val st from\<rparr>))))"
proof -
  define st1 where "st1 = st(this \<mapsto> \<lparr>n_next = None, n_prev = None, n_value = val st from\<rparr>)"
  have same: "st1 a = st a" if "a \<noteq> this" for a using that by (simp add: st1_def)
  have l: "link st1 p from" "link st1 from t"
    using assms(1-5) fields_cong[of st1 p st, OF same] fields_cong[of st1 t st, OF same] fields_cong[of st1 "from" st, OF same]
    by (auto simp: link_def)
  have a: "alive st1 this" by (simp add: st1_def alive_def)
  have "element_move this from st = bind_outcome (unlink from (upd_next p (Some this) (upd_prev this (Some p)
    (upd_prev t (Some this) (upd_next this (Some t) st1))))) Ret"
    using assms l a by (simp add: element_move_def Let_def link_def load_alive flip: st1_def)
  also have "\<dots> = Ret (upd_prev from None (upd_next from None (upd_next p (Some this) (upd_prev this (Some p)
    (upd_prev t (Some this) (upd_next this (Some t) st1))))))"
    using assms l a by (simp add: unlink_linked link_def)
  also have "\<dots> = Ret (linked_in p this t (linked_out p from t st1))"
    using assms l a by (auto intro!: store_ext simp: linked_in_def linked_out_def link_def)
  finally show ?thesis by (simp add: st1_def)
qed

lemma element_move_at:
  assumes "list_at st root (us @ from # vs)" "this \<notin> set (root # us @ from # vs)"
  shows "\<exists>st'. element_move this from st = Ret st' \<and> list_at st' root (us @ this # vs) \<and>
    val st' this = val st from \<and> alive st' from \<and> nxt st' from = None \<and> prv st' from = None \<and>
    (\<forall>a. a \<notin> set (root # this # us @ from # vs) \<longrightarrow> st' a = st a) \<and> (\<forall>a. a \<noteq> this \<longrightarrow> val st' a = val st a)"
proof -
  let ?p = "last (root # us)" and ?t = "hd (vs @ [root])"
  define st1 where "st1 = st(this \<mapsto> \<lparr>n_next = None, n_prev = None, n_value = val st from\<rparr>)"
  have l1: "list_at st1 root (us @ from # vs)"
    unfolding st1_def by (rule list_at_elsewhere[OF assms])
  have n: "?p \<in> set (root # us @ vs)" "?t \<in> set (root # us @ vs)" by (rule neighbours)+
  have ne: "this \<noteq> from" "this \<noteq> ?p" "this \<noteq> ?t"
  proof -
    show "this \<noteq> from" using assms(2) by auto
    have "this \<notin> set (root # us @ vs)" using assms(2) by auto
    then show "this \<noteq> ?p" "this \<noteq> ?t" using n by metis+
  qed
  have nf: "from \<notin> set (root # us @ vs)" using list_at_distinct[OF assms(1)] by auto
  note r = list_at_remove[OF assms(1)] and r1 = list_at_remove[OF l1]
  let ?st2 = "linked_out ?p from ?t st1"
  let ?st' = "linked_in ?p this ?t ?st2"
  have alive: "alive st1 ?p" "alive st1 ?t" "alive st1 from" "alive st1 this"
    using r1(1,2) by (auto simp: link_def st1_def alive_def)
  have "list_at ?st' root (us @ this # vs)"
    by (rule list_at_insert[OF r1(5)]) (use alive assms(2) in \<open>auto simp: linked_out_def\<close>)
  moreover have "element_move this from st = Ret ?st'"
    unfolding st1_def by (rule element_move_eq[OF r(1,2) ne]) (use r(3,4) in blast)+
  moreover have "val ?st' a = val st1 a" "alive ?st' a = alive st1 a" for a
    using alive by (simp_all add: linked_in_def linked_out_def)
  moreover have "val st1 this = val st from" by (simp add: st1_def val_def del: node_fields)
  moreover have "val st1 a = val st a" if "a \<noteq> this" for a by (rule val_cong) (simp add: st1_def that)
  moreover have "nxt ?st' from = None" "prv ?st' from = None"
    using ne r(3,4) by (auto simp: linked_in_def linked_out_def)
  moreover have "?st' a = st a" if "a \<notin> set (root # this # us @ from # vs)" for a
  proof -
    have "a \<noteq> ?p" "a \<noteq> ?t" "a \<noteq> this" "a \<noteq> from" using that n by auto
    then show ?thesis by (simp add: linked_in_def linked_out_def st1_def)
  qed
  ultimately show ?thesis using alive(3) by auto
qed

section \<open>Programs over a list and their specification\<close>

text \<open>
  A client of one list: the operations it may call, with positions given by index and a flag telling
  whether the disposer it passes destroys the elements.
\<close>

datatype 'a list_op = Push_front addr | Push_back addr | Insert nat addr | Insert_range nat "addr list"
  | Pop_front bool | Pop_back bool | Erase nat bool | Erase_range nat nat bool
  | Remove_if "'a \<Rightarrow> bool" bool | Clear bool | Assign bool "addr list"

definition disposer_of :: "bool \<Rightarrow> 'a disposer" where
  "disposer_of b = (if b then element_destroy else no_disposer)"

text \<open>\<open>std::next(begin(), i)\<close>.\<close>

primrec nth_iterator :: "'a store \<Rightarrow> addr \<Rightarrow> nat \<Rightarrow> ptr result" where
  "nth_iterator st root 0 = list_begin st root"
| "nth_iterator st root (Suc i) = bind_outcome (nth_iterator st root i) (it_next st)"

definition value_pred :: "('a \<Rightarrow> bool) \<Rightarrow> 'a store_pred" where
  "value_pred q st x = bind_outcome (it_deref st (Some x)) (\<lambda>v. Ret (q v))"

fun exec_op :: "nat \<Rightarrow> addr \<Rightarrow> 'a list_op \<Rightarrow> 'a store \<Rightarrow> 'a store run" where
  "exec_op fuel root (Push_front x) st = Some (list_push_front root x st)"
| "exec_op fuel root (Push_back x) st = Some (list_push_back root x st)"
| "exec_op fuel root (Insert i x) st =
     Some (bind_outcome (nth_iterator st root i) (\<lambda>it. bind_outcome (insert_at it x st) (\<lambda>s. Ret (fst s))))"
| "exec_op fuel root (Insert_range i ys) st =
     Some (bind_outcome (nth_iterator st root i) (\<lambda>it. bind_outcome (insert_range it ys st) (\<lambda>s. Ret (fst s))))"
| "exec_op fuel root (Pop_front b) st = Some (pop_front_and_dispose (disposer_of b) root st)"
| "exec_op fuel root (Pop_back b) st = Some (pop_back_and_dispose (disposer_of b) root st)"
| "exec_op fuel root (Erase i b) st =
     Some (bind_outcome (nth_iterator st root i) (\<lambda>it.
       bind_outcome (erase_and_dispose (disposer_of b) root it st) (\<lambda>s. Ret (fst s))))"
| "exec_op fuel root (Erase_range i j b) st =
     bind_run (Some (nth_iterator st root i)) (\<lambda>first.
     bind_run (Some (nth_iterator st root j)) (\<lambda>past.
     bind_run (erase_range_and_dispose fuel (disposer_of b) root first past st) (\<lambda>s. Some (Ret (fst s)))))"
| "exec_op fuel root (Remove_if q b) st = remove_and_dispose_if fuel (value_pred q) (disposer_of b) root st"
| "exec_op fuel root (Clear b) st = clear_and_dispose fuel (disposer_of b) root st"
| "exec_op fuel root (Assign b ys) st = dispose_and_assign fuel (disposer_of b) root ys st"

primrec exec_ops :: "nat \<Rightarrow> addr \<Rightarrow> 'a list_op list \<Rightarrow> 'a store \<Rightarrow> 'a store run" where
  "exec_ops fuel root [] st = Some (Ret st)"
| "exec_ops fuel root (c # cs) st = bind_run (exec_op fuel root c st) (exec_ops fuel root cs)"

text \<open>
  The specification works on the sequence of elements in the list and the set of free elements.
  \<open>Abort\<close> is a violated precondition of the code; \<open>Undefined\<close> is a misuse that the specification
  leaves open: an element that is not known, or a position outside of the list.
\<close>

type_synonym abs_list = "addr list \<times> addr set"

definition released :: "bool \<Rightarrow> addr set \<Rightarrow> addr set \<Rightarrow> addr set" where
  "released b R F = (if b then F else F \<union> R)"

fun spec_insert :: "nat \<Rightarrow> addr list \<Rightarrow> abs_list \<Rightarrow> abs_list result" where
  "spec_insert i ys (xs, F) = (
     if length xs < i then Undefined
     else if distinct ys \<and> set ys \<subseteq> F then Ret (take i xs @ ys @ drop i xs, F - set ys)
     else if ys \<noteq> [] \<and> hd ys \<in> set xs then Abort
     else Undefined)"

fun spec_erase :: "nat \<Rightarrow> nat \<Rightarrow> bool \<Rightarrow> abs_list \<Rightarrow> abs_list result" where
  "spec_erase i j b (xs, F) = (
     if i \<le> j \<and> j \<le> length xs
     then Ret (take i xs @ drop j xs, released b (set (drop i (take j xs))) F)
     else Undefined)"

fun spec_op :: "(addr \<Rightarrow> 'a) \<Rightarrow> 'a list_op \<Rightarrow> abs_list \<Rightarrow> abs_list result" where
  "spec_op v (Push_front x) s = spec_insert 0 [x] s"
| "spec_op v (Push_back x) s = spec_insert (length (fst s)) [x] s"
| "spec_op v (Insert i x) s = spec_insert i [x] s"
| "spec_op v (Insert_range i ys) s = spec_insert i ys s"
| "spec_op v (Pop_front b) s = (if fst s = [] then Abort else spec_erase 0 1 b s)"
| "spec_op v (Pop_back b) s = (if fst s = [] then Abort else spec_erase (length (fst s) - 1) (length (fst s)) b s)"
| "spec_op v (Erase i b) s = (if fst s = [] then (if i = 0 then Abort else Undefined) else spec_erase i (Suc i) b s)"
| "spec_op v (Erase_range i j b) s = spec_erase i j b s"
| "spec_op v (Remove_if q b) (xs, F) =
     Ret (filter (\<lambda>a. \<not> q (v a)) xs, released b (set (filter (\<lambda>a. q (v a)) xs)) F)"
| "spec_op v (Clear b) (xs, F) = Ret ([], released b (set xs) F)"
| "spec_op v (Assign b ys) (xs, F) = spec_insert 0 ys ([], released b (set xs) F)"

primrec spec_ops :: "(addr \<Rightarrow> 'a) \<Rightarrow> 'a list_op list \<Rightarrow> abs_list \<Rightarrow> abs_list result" where
  "spec_ops v [] s = Ret s"
| "spec_ops v (c # cs) s = bind_outcome (spec_op v c s) (spec_ops v cs)"

definition represents :: "(addr \<Rightarrow> 'a) \<Rightarrow> addr \<Rightarrow> 'a store \<Rightarrow> abs_list \<Rightarrow> bool" where
  "represents v root st s \<longleftrightarrow> list_at st root (fst s) \<and> finite (snd s) \<and>
     snd s \<inter> set (root # fst s) = {} \<and> (\<forall>a\<in>snd s. alive st a \<and> nxt st a = None) \<and>
     (\<forall>a\<in>set (fst s) \<union> snd s. val st a = v a)"

definition elements :: "abs_list \<Rightarrow> addr set" where
  "elements s = set (fst s) \<union> snd s"

text \<open>
  The same, in a store that is \<open>rest\<close> outside of the list object and the elements; \<open>rest\<close> has no nodes
  at their addresses, so destroyed elements are gone.
\<close>

definition framed :: "(addr \<Rightarrow> 'a) \<Rightarrow> 'a store \<Rightarrow> addr \<Rightarrow> 'a store \<Rightarrow> abs_list \<Rightarrow> bool" where
  "framed v rest root st s \<longleftrightarrow> list_at st root (fst s) \<and> finite (snd s) \<and>
     snd s \<inter> set (root # fst s) = {} \<and> (\<forall>a\<in>snd s. alive st a \<and> nxt st a = None) \<and>
     (\<forall>a\<in>set (fst s) \<union> snd s. val st a = v a) \<and>
     (\<forall>a. a \<notin> insert root (elements s) \<longrightarrow> st a = rest a) \<and> (\<forall>a\<in>elements s. rest a = None)"

lemma framed_represents: "framed v rest root st s \<Longrightarrow> represents v root st s"
  unfolding framed_def represents_def by simp

lemma represents_framed: "represents v root st s \<Longrightarrow> framed v (st |` (- insert root (elements s))) root st s"
  unfolding framed_def represents_def by simp

lemma framed_insert:
  assumes "framed v rest root st (us @ vs, F)" "distinct ys" "set ys \<subseteq> F"
    "list_at st' root (us @ ys @ vs)" "only_links (set (root # us @ ys @ vs)) st st'"
  shows "framed v rest root st' (us @ ys @ vs, F - set ys)"
proof -
  have "st' a = st a" if "a \<in> F - set ys" for a
    using assms(1,5) that unfolding framed_def only_links_def by auto
  then have "alive st' a \<and> nxt st' a = None" if "a \<in> F - set ys" for a
    using assms(1) that fields_cong unfolding framed_def by (metis DiffD1 snd_conv)
  moreover have "val st' a = v a" if "a \<in> set (us @ ys @ vs) \<union> (F - set ys)" for a
    using assms(1,3,5) that unfolding framed_def only_links_def by auto
  moreover have "(F - set ys) \<inter> set (root # us @ ys @ vs) = {}"
    using assms(1) unfolding framed_def by auto
  moreover have "elements (us @ ys @ vs, F - set ys) = elements (us @ vs, F)" using assms(3) by (auto simp: elements_def)
  moreover have "st' a = st a" if "a \<notin> insert root (elements (us @ vs, F))" for a
    using assms(3,5) that unfolding only_links_def elements_def by auto
  ultimately show ?thesis using assms(1,4) unfolding framed_def by simp
qed

lemma framed_removal:
  assumes "framed v rest root st (xs, F)" "removal b (set (root # xs)) R st st'"
    "list_at st' root xs'" "set xs' = set xs - R" "R \<subseteq> set xs"
  shows "framed v rest root st' (xs', released b R F)"
proof -
  have keep: "st' a = st a" if "a \<in> F" for a
    using assms(1,2) that unfolding framed_def removal_def by auto
  then have "alive st' a \<and> nxt st' a = None" if "a \<in> F" for a
    using assms(1) that fields_cong unfolding framed_def by (metis snd_conv)
  moreover have "alive st' a \<and> nxt st' a = None \<and> val st' a = val st a" if "a \<in> R" "\<not> b" for a
    using assms(2) that unfolding removal_def by auto
  moreover have "val st' a = val st a" if "a \<in> F \<union> set xs'" for a
    using assms(1,2,4) that keep val_cong unfolding removal_def by (metis DiffE Un_iff)
  moreover have "F \<inter> set (root # xs) = {}" "finite F" "\<forall>a\<in>set xs \<union> F. val st a = v a" "root \<notin> set xs"
    using assms(1) list_at_distinct unfolding framed_def by auto
  moreover have "st' a = rest a" if "a \<notin> insert root (elements (xs', released b R F))" for a
  proof (cases "a \<in> elements (xs, F)")
    case True
    then have "a \<in> R" "b" using that assms(4) by (auto simp: elements_def released_def split: if_splits)
    then have "st' a = None" using assms(2) by (auto simp: removal_def alive_def)
    then show ?thesis using assms(1) True by (simp add: framed_def)
  next
    case False
    then have "a \<notin> set (root # xs)" "a \<notin> insert root (elements (xs, F))" using that by (auto simp: elements_def)
    then show ?thesis using assms(1,2) by (simp add: framed_def removal_def)
  qed
  moreover have "rest a = None" if "a \<in> elements (xs', released b R F)" for a
    using that assms(1,4,5) by (auto simp: framed_def elements_def released_def split: if_splits)
  ultimately show ?thesis
    using assms(3-5) finite_subset[OF assms(5)] unfolding framed_def released_def by auto
qed

interpretation either: element_disposer "disposer_of b" b for b
  by (cases b) (simp_all add: disposer_of_def plain.element_disposer_axioms delete.element_disposer_axioms)

lemma nth_iterator_eq:
  "list_at st root xs \<Longrightarrow> i \<le> length xs \<Longrightarrow> nth_iterator st root i = Ret (Some (hd (drop i xs @ [root])))"
proof (induction i)
  case (Suc i)
  then have "list_at st root (take i xs @ xs ! i # drop (Suc i) xs)" by (simp add: id_take_nth_drop[symmetric])
  then have "it_next st (Some (xs ! i)) = Ret (Some (hd (drop (Suc i) xs @ [root])))"
    using list_at_remove(2)[of st root "take i xs" "xs ! i" "drop (Suc i) xs"]
    by (simp add: it_next_def link_def load_alive)
  then show ?case using Suc by (simp add: Cons_nth_drop_Suc[symmetric])
qed (simp add: list_begin_at)

lemma exec_insert:
  assumes "framed v rest root st (xs, F)" "i \<le> length xs"
  shows "spec_insert i ys (xs, F) = Ret s' \<Longrightarrow>
      \<exists>st'. insert_each (Some (hd (drop i xs @ [root]))) ys st = Ret st' \<and> framed v rest root st' s'"
    and "spec_insert i ys (xs, F) = Abort \<Longrightarrow> insert_each (Some (hd (drop i xs @ [root]))) ys st = Abort"
proof -
  have l: "list_at st root (take i xs @ drop i xs)" using assms(1) by (simp add: framed_def)
  assume "spec_insert i ys (xs, F) = Ret s'"
  then have s': "distinct ys" "set ys \<subseteq> F" "s' = (take i xs @ ys @ drop i xs, F - set ys)"
    by (auto split: if_splits)
  have "free_elements st ys" using assms(1) s'(1,2) by (auto simp: free_elements_def framed_def)
  moreover have "set ys \<inter> set (root # take i xs @ drop i xs) = {}"
    unfolding append_take_drop_id using assms(1) s'(2) by (auto simp: framed_def)
  ultimately obtain st' where "insert_each (Some (hd (drop i xs @ [root]))) ys st = Ret st'"
    "list_at st' root (take i xs @ ys @ drop i xs)" "only_links (set (root # take i xs @ ys @ drop i xs)) st st'"
    using insert_each_at[OF l] by blast
  moreover have "framed v rest root st (take i xs @ drop i xs, F)" using assms(1) by simp
  ultimately show "\<exists>st'. insert_each (Some (hd (drop i xs @ [root]))) ys st = Ret st' \<and> framed v rest root st' s'"
    using framed_insert[OF _ s'(1,2)] s'(3) by blast
next
  assume "spec_insert i ys (xs, F) = Abort"
  then have "ys \<noteq> []" "hd ys \<in> set xs" using assms(2) by (auto split: if_splits)
  then obtain y zs us vs where ys: "ys = y # zs" "xs = us @ y # vs" by (cases ys) (auto dest: split_list)
  then have "alive st y \<and> nxt st y \<noteq> None"
    using assms(1) list_at_remove(2)[of st root us y vs] by (auto simp: framed_def link_def)
  then show "insert_each (Some (hd (drop i xs @ [root]))) ys st = Abort"
    by (simp add: ys(1) insert_at_eq insert_linked)
qed

lemma exec_erase:
  assumes "framed v rest root st (us @ ms @ vs, F)" "removal b (set (root # us @ ms @ vs)) (set ms) st st'" "list_at st' root (us @ vs)"
  shows "framed v rest root st' (us @ vs, released b (set ms) F)"
  by (rule framed_removal[OF assms]) (use assms(1) list_at_distinct[of st root "us @ ms @ vs"] in \<open>auto simp: framed_def\<close>)

text \<open>The insertions as one operation, by position and elements.\<close>

fun insertion :: "'a list_op \<Rightarrow> nat \<Rightarrow> (nat \<times> addr list) option" where
  "insertion (Push_front x) n = Some (0, [x])"
| "insertion (Push_back x) n = Some (n, [x])"
| "insertion (Insert i x) n = Some (i, [x])"
| "insertion (Insert_range i ys) n = Some (i, ys)"
| "insertion _ n = None"

lemma insertion_spec: "insertion c (length xs) = Some (i, ys) \<Longrightarrow> spec_op v c (xs, F) = spec_insert i ys (xs, F)"
  by (cases c) auto

lemma insertion_exec:
  assumes "insertion c (length xs) = Some (i, ys)" "list_at st root xs" "i \<le> length xs"
  shows "exec_op fuel root c st = Some (insert_each (Some (hd (drop i xs @ [root]))) ys st)"
proof -
  have one: "insert_each p [x] st = insert_before x p st" for p x
    by (cases "insert_before x p st") (simp_all add: insert_at_eq)
  have ret: "bind_outcome (bind_outcome m (\<lambda>st. Ret (st, f))) (\<lambda>s. Ret (fst s)) = m" for m :: "'b result" and f :: ptr
    by (cases m) simp_all
  note it = nth_iterator_eq[OF assms(2,3)]
  show ?thesis
    using assms list_at_ends[OF assms(2)] it
    by (cases c) (auto simp: one list_push_front_def load_alive list_push_back_def insert_at_eq insert_range_eq ret
        simp del: insert_each.simps)
qed

lemma exec_insertion:
  assumes "framed v rest root st (xs, F)" "insertion c (length xs) = Some (i, ys)"
  shows "spec_op v c (xs, F) = Ret s' \<Longrightarrow> \<exists>st'. exec_op fuel root c st = Some (Ret st') \<and> framed v rest root st' s'"
    and "spec_op v c (xs, F) = Abort \<Longrightarrow> exec_op fuel root c st = Some Abort"
proof -
  have l: "list_at st root xs" using assms(1) by (simp add: framed_def)
  have bound: "spec_insert i ys (xs, F) \<noteq> Undefined \<Longrightarrow> i \<le> length xs" by (auto split: if_splits)
  show "\<exists>st'. exec_op fuel root c st = Some (Ret st') \<and> framed v rest root st' s'" if "spec_op v c (xs, F) = Ret s'"
    using that exec_insert(1)[OF assms(1) bound] insertion_exec[OF assms(2) l bound]
    unfolding insertion_spec[OF assms(2)] by auto
  show "exec_op fuel root c st = Some Abort" if "spec_op v c (xs, F) = Abort"
    using that exec_insert(2)[OF assms(1) bound] insertion_exec[OF assms(2) l bound]
    unfolding insertion_spec[OF assms(2)] by auto
qed

lemma exec_pop_front:
  assumes "framed v rest root st (x # xs, F)"
  shows "\<exists>st'. pop_front_and_dispose (disposer_of b) root st = Ret st' \<and> framed v rest root st' (xs, released b {x} F)"
proof -
  have "list_at st root (x # xs)" using assms by (simp add: framed_def)
  then show ?thesis
    using either.pop_front[of st root x xs b] exec_erase[of v rest root st "[]" "[x]" xs F b] assms by auto
qed

lemma exec_pop_back:
  assumes "framed v rest root st (xs @ [x], F)"
  shows "\<exists>st'. pop_back_and_dispose (disposer_of b) root st = Ret st' \<and> framed v rest root st' (xs, released b {x} F)"
proof -
  have "list_at st root (xs @ [x])" using assms by (simp add: framed_def)
  then show ?thesis
    using either.pop_back[of st root xs x b] exec_erase[of v rest root st xs "[x]" "[]" F b] assms by auto
qed

lemma exec_erase_one:
  assumes "framed v rest root st (us @ x # vs, F)"
  shows "\<exists>st'. erase_and_dispose (disposer_of b) root (Some x) st = Ret (st', Some (hd (vs @ [root]))) \<and>
    framed v rest root st' (us @ vs, released b {x} F)"
proof -
  have "list_at st root (us @ x # vs)" using assms by (simp add: framed_def)
  then show ?thesis
    using either.erase_one[of st root us x vs b] exec_erase[of v rest root st us "[x]" vs F b] assms by auto
qed

lemma exec_erase_some:
  assumes "framed v rest root st (us @ ms @ vs, F)" "length ms < fuel"
  shows "\<exists>st'. erase_range_and_dispose fuel (disposer_of b) root (Some (hd (ms @ vs @ [root]))) (Some (hd (vs @ [root]))) st
      = Some (Ret (st', Some (hd (vs @ [root])))) \<and> framed v rest root st' (us @ vs, released b (set ms) F)"
proof -
  have "list_at st root (us @ ms @ vs)" using assms(1) by (simp add: framed_def)
  then show ?thesis using either.erase_some[OF _ assms(2)] exec_erase[OF assms(1)] by blast
qed

lemma exec_clear:
  assumes "framed v rest root st (xs, F)" "length xs < fuel"
  shows "\<exists>st'. clear_and_dispose fuel (disposer_of b) root st = Some (Ret st') \<and>
    framed v rest root st' ([], released b (set xs) F)"
proof -
  have "list_at st root xs" using assms(1) by (simp add: framed_def)
  then obtain st' where "clear_and_dispose fuel (disposer_of b) root st = Some (Ret st')" "list_at st' root []"
    "removal b (set (root # xs)) (set xs) st st'"
    using either.clear[OF _ assms(2)] by blast
  then show ?thesis using exec_erase[of v rest root st "[]" xs "[]" F b st'] assms(1) by auto
qed

lemma exec_remove_if:
  assumes "framed v rest root st (xs, F)" "length xs < fuel"
  shows "\<exists>st'. remove_and_dispose_if fuel (value_pred q) (disposer_of b) root st = Some (Ret st') \<and>
    framed v rest root st' (filter (\<lambda>a. \<not> q (v a)) xs, released b (set (filter (\<lambda>a. q (v a)) xs)) F)"
proof -
  have l: "list_at st root xs" and vals: "a \<in> set xs \<Longrightarrow> val st a = v a" for a
    using assms(1) by (auto simp: framed_def)
  have "value_pred q st2 a = Ret (q (v a))" if "removal b (set (root # xs)) R2 st st2" "a \<in> set xs - R2" for st2 R2 a
  proof -
    have "alive st2 a" "val st2 a = v a"
      using that list_at_alive[OF l] vals unfolding removal_def by auto
    then show ?thesis by (simp add: value_pred_def it_deref_def load_alive)
  qed
  then obtain st' where "remove_and_dispose_if fuel (value_pred q) (disposer_of b) root st = Some (Ret st')"
    "list_at st' root (filter (\<lambda>a. \<not> q (v a)) xs)"
    "removal b (set (root # xs)) (set (filter (\<lambda>a. q (v a)) xs)) st st'"
    using either.remove_matching[OF l assms(2), of b "\<lambda>a. q (v a)" "value_pred q"] by blast
  then show ?thesis using framed_removal[OF assms(1)] by fastforce
qed

lemma exec_assign:
  assumes "framed v rest root st (xs, F)" "length xs < fuel" "spec_op v (Assign b ys) (xs, F) = Ret s'"
  shows "\<exists>st'. exec_op fuel root (Assign b ys) st = Some (Ret st') \<and> framed v rest root st' s'"
proof -
  obtain st1 where st1: "clear_and_dispose fuel (disposer_of b) root st = Some (Ret st1)"
    "framed v rest root st1 ([], released b (set xs) F)"
    using exec_clear[OF assms(1,2)] by blast
  have "spec_insert 0 ys ([], released b (set xs) F) = Ret s'" using assms(3) by (simp only: spec_op.simps)
  from exec_insert(1)[OF st1(2) _ this] st1(1) show ?thesis
    by (auto simp: dispose_and_assign_def push_back_each_eq)
qed

lemma exec_erase_range:
  assumes "framed v rest root st (xs, F)" "length xs < fuel" "spec_erase i j b (xs, F) = Ret s'"
  shows "\<exists>st'. exec_op fuel root (Erase_range i j b) st = Some (Ret st') \<and> framed v rest root st' s'"
proof -
  have ij: "i \<le> j" "j \<le> length xs" using assms(3) by (auto split: if_splits)
  define us ms vs where "us = take i xs" "ms = drop i (take j xs)" "vs = drop j xs"
  have s': "s' = (us @ vs, released b (set ms) F)"
    using assms(3) ij by (simp add: us_ms_vs_def)
  have "drop i (take j xs @ drop j xs) = ms @ vs" unfolding drop_append us_ms_vs_def using ij by simp
  then have drop: "drop i xs = ms @ vs" by simp
  then have xs: "xs = us @ ms @ vs" by (metis append_take_drop_id us_ms_vs_def(1))
  have "list_at st root xs" using assms(1) by (simp add: framed_def)
  then have "nth_iterator st root i = Ret (Some (hd (ms @ vs @ [root])))"
    "nth_iterator st root j = Ret (Some (hd (vs @ [root])))"
    using nth_iterator_eq[of st root xs] ij drop us_ms_vs_def(3) by auto
  moreover have "length ms < fuel" using assms(2) xs by simp
  ultimately show ?thesis
    using exec_erase_some[of v rest root st us ms vs F fuel b] assms(1) unfolding s' xs by auto
qed

lemma exec_erase_at:
  assumes "framed v rest root st (xs, F)" "spec_op v (Erase i b) (xs, F) = Ret s'"
  shows "\<exists>st'. exec_op fuel root (Erase i b) st = Some (Ret st') \<and> framed v rest root st' s'"
proof -
  have i: "i < length xs" using assms(2) by (auto split: if_splits)
  define us x vs where "us = take i xs" "x = xs ! i" "vs = drop (Suc i) xs"
  have drop: "drop i xs = x # vs" "drop i (take (Suc i) xs) = [x]" and xs: "xs = us @ x # vs"
    using i by (simp_all add: us_x_vs_def Cons_nth_drop_Suc take_Suc_conv_app_nth id_take_nth_drop)
  have "xs \<noteq> []" using i by auto
  then have s': "s' = (us @ vs, released b {x} F)"
    using assms(2) i drop(2) by (simp add: us_x_vs_def)
  have "list_at st root xs" using assms(1) by (simp add: framed_def)
  then have "nth_iterator st root i = Ret (Some x)" using nth_iterator_eq[of st root xs i] i drop(1) by simp
  then show ?thesis using exec_erase_one[of v rest root st us x vs F b] assms(1) unfolding s' xs by auto
qed

lemma exec_removal:
  assumes "framed v rest root st (xs, F)" "length xs < fuel" "insertion c (length xs) = None"
  shows "spec_op v c (xs, F) = Ret s' \<Longrightarrow> \<exists>st'. exec_op fuel root c st = Some (Ret st') \<and> framed v rest root st' s'"
    and "spec_op v c (xs, F) = Abort \<Longrightarrow> exec_op fuel root c st = Some Abort"
proof -
  have l: "list_at st root xs" using assms(1) by (simp add: framed_def)
  note e = list_empty_at[OF l] and it = nth_iterator_eq[OF l, of 0]
  show "\<exists>st'. exec_op fuel root c st = Some (Ret st') \<and> framed v rest root st' s'" if sp: "spec_op v c (xs, F) = Ret s'"
  proof (cases c)
    case (Pop_front b)
    then obtain x ys where "xs = x # ys" using sp by (cases xs) auto
    then show ?thesis using sp assms(1) exec_pop_front[of v rest root st x ys F b] Pop_front by auto
  next
    case (Pop_back b)
    then obtain x ys where "xs = ys @ [x]" using sp by (cases xs rule: rev_cases) auto
    then show ?thesis using sp assms(1) exec_pop_back[of v rest root st ys x F b] Pop_back by auto
  next
    case (Erase i b)
    then show ?thesis using sp exec_erase_at[OF assms(1)] by blast
  next
    case (Erase_range i j b)
    then show ?thesis using sp exec_erase_range[OF assms(1,2), of i j b s'] by (simp only: spec_op.simps)
  next
    case (Remove_if q b)
    then show ?thesis using sp exec_remove_if[OF assms(1,2), of q b] by simp
  next
    case (Clear b)
    then show ?thesis using sp exec_clear[OF assms(1,2), of b] by simp
  next
    case (Assign b ys)
    then show ?thesis using sp exec_assign[OF assms(1,2)] by blast
  qed (use assms(3) in auto)
  show "exec_op fuel root c st = Some Abort" if "spec_op v c (xs, F) = Abort"
    using that assms(3) e it
    by (cases c) (auto simp: pop_front_and_dispose_def pop_back_and_dispose_def erase_and_dispose_def split: if_splits)
qed

lemma exec_op_spec:
  assumes "framed v rest root st s" "length (fst s) < fuel"
  shows "spec_op v c s = Ret s' \<Longrightarrow> \<exists>st'. exec_op fuel root c st = Some (Ret st') \<and> framed v rest root st' s'"
    and "spec_op v c s = Abort \<Longrightarrow> exec_op fuel root c st = Some Abort"
proof -
  obtain xs F where s: "s = (xs, F)" by fastforce
  note r = assms(1)[unfolded s]
  have len: "length xs < fuel" using assms(2) by (simp add: s)
  consider (ins) i ys where "insertion c (length xs) = Some (i, ys)" | (rem) "insertion c (length xs) = None" by fastforce
  then show "\<exists>st'. exec_op fuel root c st = Some (Ret st') \<and> framed v rest root st' s'" if "spec_op v c s = Ret s'"
    using that unfolding s by cases (rule exec_insertion(1)[OF r], assumption+, rule exec_removal(1)[OF r len])
  show "exec_op fuel root c st = Some Abort" if "spec_op v c s = Abort"
    using that exec_insertion(2)[OF r] exec_removal(2)[OF r len] unfolding s
    by (cases "insertion c (length xs)") auto
qed

text \<open>No operation makes elements: the fuel that is enough at the start is enough throughout.\<close>

lemma spec_insert_elements: "spec_insert i ys s = Ret s' \<Longrightarrow> elements s' \<subseteq> elements s"
  by (cases s) (auto simp: elements_def dest: in_set_takeD in_set_dropD split: if_splits)

lemma spec_erase_elements: "spec_erase i j b s = Ret s' \<Longrightarrow> elements s' \<subseteq> elements s"
  by (cases s) (auto simp: elements_def released_def dest!: in_set_takeD in_set_dropD split: if_splits)

lemma spec_op_elements:
  assumes "spec_op v c s = Ret s'"
  shows "elements s' \<subseteq> elements s"
proof (cases c)
  case (Assign b ys)
  have "elements ([], released b (set (fst s)) (snd s)) \<subseteq> elements s" by (auto simp: elements_def released_def)
  moreover have "spec_insert 0 ys ([], released b (set (fst s)) (snd s)) = Ret s'"
    using assms Assign by (cases s) (simp only: spec_op.simps fst_conv snd_conv)
  ultimately show ?thesis using spec_insert_elements by blast
qed (use assms in \<open>cases s; auto simp: elements_def released_def simp del: spec_insert.simps spec_erase.simps
      dest!: spec_insert_elements spec_erase_elements split: if_splits\<close>)+

lemma spec_ops_elements: "spec_ops v cs s = Ret s' \<Longrightarrow> elements s' \<subseteq> elements s"
proof (induction cs arbitrary: s)
  case (Cons c cs)
  then obtain s1 where "spec_op v c s = Ret s1" "spec_ops v cs s1 = Ret s'" by auto
  then show ?case using Cons.IH[of s1] spec_op_elements[of v c s s1] by blast
qed simp

lemma framed_fuel:
  "framed v rest root st s \<Longrightarrow> card (elements s) < fuel \<Longrightarrow> length (fst s) < fuel"
proof -
  assume r: "framed v rest root st s" and f: "card (elements s) < fuel"
  have "distinct (fst s)" "finite (elements s)"
    using r list_at_distinct[of st root "fst s"] by (auto simp: framed_def elements_def)
  then have "length (fst s) \<le> card (elements s)"
    using card_mono[of "elements s" "set (fst s)"] by (simp add: distinct_card elements_def)
  then show ?thesis using f by simp
qed

lemma spec_op_fuel:
  "framed v rest root st s \<Longrightarrow> card (elements s) < fuel \<Longrightarrow> spec_op v c s = Ret s' \<Longrightarrow> card (elements s') < fuel"
  using card_mono[OF _ spec_op_elements[of v c s s']] by (fastforce simp: framed_def elements_def)

lemma exec_ops_returns:
  assumes "framed v rest root st s" "card (elements s) < fuel" "spec_ops v cs s = Ret s'"
  shows "\<exists>st'. exec_ops fuel root cs st = Some (Ret st') \<and> framed v rest root st' s'"
  using assms
proof (induction cs arbitrary: st s)
  case (Cons c cs)
  then obtain s1 where s1: "spec_op v c s = Ret s1" "spec_ops v cs s1 = Ret s'" by auto
  then obtain st1 where "exec_op fuel root c st = Some (Ret st1)" "framed v rest root st1 s1"
    using exec_op_spec(1) framed_fuel Cons.prems(1,2) by blast
  then show ?case using Cons.IH[of st1 s1] s1 spec_op_fuel[OF Cons.prems(1,2)] by auto
qed auto

lemma exec_ops_aborts:
  assumes "framed v rest root st s" "card (elements s) < fuel" "spec_ops v cs s = Abort"
  shows "exec_ops fuel root cs st = Some Abort"
  using assms
proof (induction cs arbitrary: st s)
  case (Cons c cs)
  have f: "length (fst s) < fuel" using framed_fuel Cons.prems(1,2) by blast
  consider "spec_op v c s = Abort" | s1 where "spec_op v c s = Ret s1" "spec_ops v cs s1 = Abort"
    using Cons.prems(3) by (cases "spec_op v c s") auto
  then show ?case
  proof cases
    case 1
    then show ?thesis using exec_op_spec(2)[OF Cons.prems(1) f] by simp
  next
    case (2 s1)
    then obtain st1 where "exec_op fuel root c st = Some (Ret st1)" "framed v rest root st1 s1"
      using exec_op_spec(1)[OF Cons.prems(1) f] by blast
    then show ?thesis using Cons.IH[of st1 s1] 2 spec_op_fuel[OF Cons.prems(1,2)] by auto
  qed
qed auto

section \<open>Properties\<close>

text \<open>
  C24: every program of insertions, removals, clears and assignments on an intrusive list, with
  disposers that keep or destroy the removed elements, runs to its end and leaves the sequence of elements
  that the same program gives on plain sequences. Elements removed and kept are free again, the values
  of the living elements never change, destroyed elements are gone from the store, and every other node,
  with its links, is what it was.
\<close>

theorem list_programs_refine:
  assumes "represents v root st s" "card (elements s) < fuel" "spec_ops v cs s = Ret s'"
  shows "\<exists>st'. exec_ops fuel root cs st = Some (Ret st') \<and> represents v root st' s' \<and>
    (\<forall>a\<in>elements s - elements s'. st' a = None) \<and> (\<forall>a. a \<notin> insert root (elements s) \<longrightarrow> st' a = st a)"
proof -
  obtain st' where st': "exec_ops fuel root cs st = Some (Ret st')" "framed v (st |` (- insert root (elements s))) root st' s'"
    using exec_ops_returns[OF represents_framed[OF assms(1)] assms(2,3)] by blast
  have sub: "elements s' \<subseteq> elements s" by (rule spec_ops_elements[OF assms(3)])
  have "root \<notin> elements s" using assms(1) list_at_distinct by (fastforce simp: represents_def elements_def)
  then have "\<forall>a\<in>elements s - elements s'. st' a = None" "\<forall>a. a \<notin> insert root (elements s) \<longrightarrow> st' a = st a"
    using st'(2) sub by (auto simp: framed_def restrict_map_def)
  then show ?thesis using st'(1) framed_represents[OF st'(2)] by blast
qed

definition sample_store :: "int store" where
  "sample_store = [0 \<mapsto> \<lparr>n_next = Some 0, n_prev = Some 0, n_value = 0\<rparr>, 1 \<mapsto> \<lparr>n_next = None, n_prev = None, n_value = 10\<rparr>,
     2 \<mapsto> \<lparr>n_next = None, n_prev = None, n_value = 20\<rparr>, 3 \<mapsto> \<lparr>n_next = None, n_prev = None, n_value = 30\<rparr>]"

lemmas store_eval = list_at_def link_def alive_def nxt_def prv_def val_def

lemma sample_represents: "represents (\<lambda>a. 10 * int a) 0 sample_store ([], {1, 2, 3})"
  unfolding represents_def by (simp add: sample_store_def store_eval del: node_fields)

theorem list_programs_refine_witness:
  "\<exists>st'. exec_ops 4 0 [Push_back 1, Push_front 2, Insert 1 3, Remove_if (\<lambda>v. v = 20) True, Pop_front False] sample_store
     = Some (Ret st') \<and> represents (\<lambda>a. 10 * int a) 0 st' ([1], {3}) \<and> st' 2 = None"
proof -
  let ?cs = "[Push_back 1, Push_front 2, Insert 1 3, Remove_if (\<lambda>v. v = 20) True, Pop_front False]"
  have "card (elements ([], {1, 2, 3})) < 4" "spec_ops (\<lambda>a. 10 * int a) ?cs ([], {1, 2, 3}) = Ret ([1], {3})"
    by (simp_all add: elements_def released_def card_insert_if numeral_2_eq_2 insert_commute)
  from list_programs_refine[OF sample_represents this] show ?thesis by (auto simp: elements_def)
qed

text \<open>
  A program that violates a precondition of an operation, popping or erasing from an empty list
  or inserting an element that is linked already, ends in the abort of the violated check.
\<close>

theorem list_programs_abort:
  assumes "represents v root st s" "card (elements s) < fuel" "spec_ops v cs s = Abort"
  shows "exec_ops fuel root cs st = Some Abort"
  by (rule exec_ops_aborts[OF represents_framed[OF assms(1)] assms(2,3)])

theorem list_programs_abort_witness:
  "exec_ops 4 0 [Push_back 1, Push_front 1] sample_store = Some Abort \<and>
   exec_ops 4 0 [Push_back 1, Pop_back False, Pop_back False] sample_store = Some Abort"
  by (intro conjI; rule list_programs_abort[OF sample_represents]) (simp_all add: elements_def card_insert_if)

text \<open>
  C25: Walking over a list ends and shows its elements in order: \<open>size\<close> returns their number, the
  iterators from \<open>begin\<close> visit them up to \<open>end\<close> and go back the same way, \<open>front\<close> and \<open>back\<close> are the
  first and the last one and abort on an empty list, which \<open>empty\<close> recognises.
\<close>

theorem list_walk:
  assumes "list_at st root xs" "length xs < fuel"
  shows "list_size fuel st root = Some (Ret (length xs)) \<and> list_empty st root = Ret (xs = []) \<and>
    list_front st root = (if xs = [] then Abort else Ret (Some (hd xs))) \<and>
    list_back st root = (if xs = [] then Abort else Ret (Some (last xs))) \<and>
    (\<forall>i\<le>length xs. nth_iterator st root i = Ret (Some ((xs @ [root]) ! i))) \<and>
    (\<forall>i<length xs. it_next st (Some (xs ! i)) = Ret (Some ((xs @ [root]) ! Suc i)) \<and>
       it_prev st (Some ((xs @ [root]) ! Suc i)) = Ret (Some (xs ! i)))"
proof -
  note e = list_empty_at[OF assms(1)] and ends = list_at_ends[OF assms(1)]
  have nth: "hd (drop i xs @ [root]) = (xs @ [root]) ! i" if "i \<le> length xs" for i
    using that by (cases "i < length xs") (simp_all add: hd_drop_conv_nth nth_append)
  have "it_next st (Some (xs ! i)) = Ret (Some ((xs @ [root]) ! Suc i)) \<and>
    it_prev st (Some ((xs @ [root]) ! Suc i)) = Ret (Some (xs ! i))" if "i < length xs" for i
    using list_at_remove(2)[of st root "take i xs" "xs ! i" "drop (Suc i) xs"] assms(1) that nth[of "Suc i"]
    by (simp add: id_take_nth_drop[symmetric] it_next_def it_prev_def link_def load_alive)
  then show ?thesis
    using list_size_at[OF assms] e ends nth_iterator_eq[OF assms(1)] nth
    by (auto simp: list_front_def list_back_def load_alive)
qed

definition two_lists :: "int store" where
  "two_lists = [0 \<mapsto> \<lparr>n_next = Some 1, n_prev = Some 1, n_value = 0\<rparr>, 1 \<mapsto> \<lparr>n_next = Some 0, n_prev = Some 0, n_value = 10\<rparr>,
     2 \<mapsto> \<lparr>n_next = Some 3, n_prev = Some 4, n_value = 0\<rparr>, 3 \<mapsto> \<lparr>n_next = Some 4, n_prev = Some 2, n_value = 30\<rparr>,
     4 \<mapsto> \<lparr>n_next = Some 2, n_prev = Some 3, n_value = 30\<rparr>]"

lemma two_lists_at: "list_at two_lists 0 [1]" "list_at two_lists 2 [3, 4]" "two_lists 9 = None"
  by (simp_all add: two_lists_def store_eval del: node_fields)

theorem list_walk_witness:
  "list_size 3 two_lists 2 = Some (Ret 2) \<and> list_front two_lists 2 = Ret (Some 3) \<and> list_back two_lists 2 = Ret (Some 4)"
  using list_walk[OF two_lists_at(2), of 3] by simp

text \<open>
  C26: moving and swapping lists moves whole rings: after \<open>operator=\<close> the target holds the elements of the
  source in the same order, the source is empty and the old elements of the target are unlinked;
  \<open>swap\<close> exchanges the elements of the two lists. Nothing outside of the two lists changes, no value does,
  and no element is created or destroyed.
\<close>

theorem list_move_and_swap:
  assumes "list_at st root xs" "list_at st x ys" "set (root # xs) \<inter> set (x # ys) = {}"
    "st tmp = None" "length xs < fuel"
  shows "(\<exists>st'. move_assign fuel root x st = Some (Ret st') \<and> list_at st' root ys \<and> list_at st' x [] \<and>
      (\<forall>a\<in>set xs. nxt st' a = None \<and> prv st' a = None) \<and> only_links (set (root # x # xs @ ys)) st st') \<and>
    (\<exists>st'. list_swap fuel tmp v root x st = Some (Ret st') \<and> list_at st' root ys \<and> list_at st' x xs \<and>
      only_links (set (root # x # xs @ ys)) st st')"
proof -
  have "tmp \<notin> set (root # xs)" "tmp \<notin> set (x # ys)"
    using list_at_alive[OF assms(1), of tmp] list_at_alive[OF assms(2), of tmp] assms(4) by (metis alive_def)+
  then show ?thesis
    using move_assign_at[OF assms(1-3,5)] list_swap_at[OF assms(1-4), of fuel v] assms(5)
    by (metis gr_zeroI not_less_zero)
qed

theorem list_move_and_swap_witness:
  "\<exists>st'. list_swap 2 9 0 0 2 two_lists = Some (Ret st') \<and> list_at st' 0 [3, 4] \<and> list_at st' 2 [1]"
  using list_move_and_swap[OF two_lists_at(1,2) _ two_lists_at(3), of 2 0] by auto

text \<open>
  C27: moving an element object, as a relocation of its storage does, keeps the list it is in: the new
  object takes the place of the old one with its value, and the old one is left unlinked.
\<close>

theorem element_move_keeps_place:
  assumes "list_at st root (us @ from # vs)" "this \<notin> set (root # us @ from # vs)"
  shows "\<exists>st'. element_move this from st = Ret st' \<and> list_at st' root (us @ this # vs) \<and>
    val st' this = val st from \<and> alive st' from \<and> nxt st' from = None \<and> prv st' from = None \<and>
    (\<forall>a. a \<notin> set (root # this # us @ from # vs) \<longrightarrow> st' a = st a) \<and> (\<forall>a. a \<noteq> this \<longrightarrow> val st' a = val st a)"
  using assms by (rule element_move_at)


theorem element_move_keeps_place_witness:
  "\<exists>st'. element_move 9 3 two_lists = Ret st' \<and> list_at st' 2 [9, 4] \<and> nxt st' 3 = None"
  using element_move_keeps_place[of two_lists 2 "[]" 3 "[4]" 9] two_lists_at(2) by auto

text \<open>
  C28: \<open>remove(value)\<close> unlinks exactly the elements that equal the value, also when the value is a
  reference to an element of the list itself, and changes nothing but links of nodes of the list. With a disposer that destroys elements this reference
  dangles: \<open>remove_and_dispose\<close> called with the first element of a longer list reads it after its
  destruction.
\<close>

theorem list_remove_value:
  assumes "list_at st root xs" "length xs < fuel" "alive st w"
  shows "(\<exists>st'. list_remove fuel w root st = Some (Ret st') \<and> list_at st' root (filter (\<lambda>a. val st a \<noteq> val st w) xs) \<and>
      (\<forall>a\<in>set xs. val st a = val st w \<longrightarrow> nxt st' a = None) \<and> only_links (set (root # xs)) st st') \<and>
    (1 < length xs \<longrightarrow> w = hd xs \<longrightarrow> remove_and_dispose fuel w element_destroy root st = Some Undefined)"
proof (intro conjI impI)
  let ?q = "\<lambda>a. val st w = val st a"
  have "equals_value w st2 a = Ret (?q a)" if "removal False (set (root # xs)) R2 st st2" "a \<in> set xs - R2" for st2 R2 a
  proof -
    have "alive st2 a" "val st2 a = val st a" "alive st2 w" "val st2 w = val st w"
      using that list_at_alive[OF assms(1)] assms(3) unfolding removal_def by auto
    then show ?thesis by (simp add: equals_value_def load_alive)
  qed
  then obtain st' where st': "list_remove fuel w root st = Some (Ret st')" "list_at st' root (filter (\<lambda>a. \<not> ?q a) xs)"
    "removal False (set (root # xs)) (set (filter ?q xs)) st st'"
    using plain.remove_matching[OF assms(1,2), of ?q "equals_value w"]
    by (auto simp: list_remove_def remove_and_dispose_def)
  have "only_links (set (root # xs)) st st'"
    using removal_only_links[OF st'(3)] list_at_alive[OF assms(1)] by simp
  moreover have "\<forall>a\<in>set xs. val st a = val st w \<longrightarrow> nxt st' a = None"
    using st'(3) unfolding removal_def by auto
  ultimately show "\<exists>st'. list_remove fuel w root st = Some (Ret st') \<and>
      list_at st' root (filter (\<lambda>a. val st a \<noteq> val st w) xs) \<and>
      (\<forall>a\<in>set xs. val st a = val st w \<longrightarrow> nxt st' a = None) \<and> only_links (set (root # xs)) st st'"
    using st'(1,2) by (auto simp: eq_commute[of "val st w"])
next
  assume "1 < length xs" "w = hd xs"
  then obtain y ys k where xs: "xs = w # y # ys" "fuel = Suc (Suc k)"
    using assms(2) by (cases xs; cases "tl xs"; cases fuel; cases "fuel - 1") auto
  have l: "list_at st root ([] @ w # y # ys)" using assms(1) xs(1) by simp
  obtain st1 where st1: "remove_and_dispose_node element_destroy (Some w) st = Ret st1"
    "removal True (set (root # [] @ w # y # ys)) {w} st st1"
    using delete.remove_node[OF l] by blast
  have "load st1 (Some w) = Undefined" using st1(2) by (simp add: removal_def load_def alive_def split: option.splits)
  moreover have "it_next st (Some w) = Ret (Some y)" using list_at_remove(2)[OF l] by (simp add: it_next_def link_def load_alive)
  moreover have "w \<noteq> root" "y \<noteq> root" using list_at_distinct[OF l] by auto
  ultimately show "remove_and_dispose fuel w element_destroy root st = Some Undefined"
    using st1(1) assms(3) list_begin_at[OF assms(1)]
    by (simp add: remove_and_dispose_def remove_and_dispose_if_def remove_body_def equals_value_def load_alive xs)
qed

theorem list_remove_value_witness:
  "(\<exists>st'. list_remove 3 4 2 two_lists = Some (Ret st') \<and> list_at st' 2 []) \<and>
   remove_and_dispose 3 3 element_destroy 2 two_lists = Some Undefined"
proof -
  have "alive two_lists 4" "alive two_lists 3" "val two_lists 3 = val two_lists 4"
    by (simp_all add: two_lists_def store_eval del: node_fields)
  then show ?thesis
    using list_remove_value[OF two_lists_at(2), of 3 4] list_remove_value[OF two_lists_at(2), of 3 3] by auto
qed

end
