(* ===== verification/Log_Payload.thy ===== *)
theory Log_Payload
  imports Prelude "HOL-Library.Word"
begin

unbundle bit_operations_syntax

text \<open>
  The text of log messages: the payload buffer of src/score/mw/log/detail/verbose_payload.cpp with the
  reservation behind it, the formatting of arguments in text_recorder/text_format.h and text_format.cpp,
  and the argument counter. Sizes are natural numbers below \<open>2 ^ 64\<close>;
  a write outside of the bytes handed to a formatting function is undefined.
\<close>

section \<open>Sizes\<close>

definition size_max :: nat where "size_max = 2 ^ 64 - 1"
definition int32_max :: nat where "int32_max = 2 ^ 31 - 1"

definition ClampTo_int32 :: "nat \<Rightarrow> nat" where
  "ClampTo_int32 v = (if v > int32_max then int32_max else v)"

definition HandleAddOverflow :: "nat \<Rightarrow> nat \<Rightarrow> nat" where
  "HandleAddOverflow left right = (if left > size_max - right then size_max else left + right)"

section \<open>Byte vectors\<close>

text \<open>A \<open>std::vector<char>\<close>: growing beyond its largest size ends the program.\<close>

record byte_vector =
  bv_bytes :: string
  bv_capacity :: nat

definition vector_max_size :: nat where "vector_max_size = 2 ^ 63 - 1"

definition vector_size :: "byte_vector \<Rightarrow> nat" where
  "vector_size v = length (bv_bytes v)"

definition vector_resize :: "nat \<Rightarrow> byte_vector \<Rightarrow> byte_vector result" where
  "vector_resize n v = (
     if vector_max_size < n then Abort
     else Ret \<lparr>bv_bytes = take n (bv_bytes v) @ replicate (n - vector_size v) (CHR 0x00),
               bv_capacity = max (bv_capacity v) n\<rparr>)"

definition vector_reserve :: "nat \<Rightarrow> byte_vector \<Rightarrow> byte_vector result" where
  "vector_reserve n v = (
     if vector_max_size < n then Abort else Ret (v\<lparr>bv_capacity := max (bv_capacity v) n\<rparr>))"

section \<open>Payload\<close>

record reserved_data =
  rd_buffer :: byte_vector
  rd_old_size :: nat
  rd_total_used :: nat
  rd_reserved :: nat

definition ReservedData_ctor :: "byte_vector \<Rightarrow> nat \<Rightarrow> reserved_data result" where
  "ReservedData_ctor buffer reserve_size = (
     let old_size = vector_size buffer;
         max_possible = (if bv_capacity buffer > old_size then bv_capacity buffer - old_size else 0);
         reserved = (if reserve_size = 0 \<or> reserve_size > max_possible then max_possible else reserve_size);
         reserved = min int32_max reserved
     in bind_outcome (vector_resize (HandleAddOverflow reserved old_size) buffer) (\<lambda>b.
        Ret \<lparr>rd_buffer = b, rd_old_size = old_size, rd_total_used = 0, rd_reserved = reserved\<rparr>))"

definition ReservedData_dtor :: "reserved_data \<Rightarrow> byte_vector result" where
  "ReservedData_dtor rd = vector_resize (HandleAddOverflow (rd_total_used rd) (rd_old_size rd)) (rd_buffer rd)"

definition IncreaseUsed :: "nat \<Rightarrow> reserved_data \<Rightarrow> reserved_data" where
  "IncreaseUsed sz rd = (
     let capacity = bv_capacity (rd_buffer rd);
         space_left = (if rd_old_size rd < capacity \<and> rd_total_used rd < capacity - rd_old_size rd
                       then capacity - (rd_total_used rd + rd_old_size rd) else 0);
         use_size = min sz space_left
     in rd\<lparr>rd_total_used := HandleAddOverflow (rd_total_used rd) use_size\<rparr>)"

text \<open>A span into the buffer is its first index with its length.\<close>

definition GetData :: "reserved_data \<Rightarrow> nat \<times> nat" where
  "GetData rd = (
     let buffer_index = rd_old_size rd + rd_total_used rd
     in if buffer_index < vector_size (rd_buffer rd) \<and> rd_reserved rd > rd_total_used rd
        then (buffer_index, ClampTo_int32 (rd_reserved rd - rd_total_used rd))
        else (0, 0))"

text \<open>A callback turns the bytes of its span into new ones of the same number and reports a size.\<close>

type_synonym reserve_callback = "string \<Rightarrow> (string \<times> nat) result"

definition write_back :: "byte_vector \<Rightarrow> nat \<Rightarrow> string \<Rightarrow> byte_vector" where
  "write_back v i s = v\<lparr>bv_bytes := take i (bv_bytes v) @ s @ drop (i + length s) (bv_bytes v)\<rparr>"

definition Put_callback :: "reserve_callback \<Rightarrow> nat \<Rightarrow> byte_vector \<Rightarrow> (byte_vector \<times> nat) result" where
  "Put_callback callback reserve_size buffer =
     bind_outcome (ReservedData_ctor buffer reserve_size) (\<lambda>reserved_data.
     case GetData reserved_data of (i, n) \<Rightarrow>
     bind_outcome (callback (take n (drop i (bv_bytes (rd_buffer reserved_data))))) (\<lambda>(s, written).
     let rd = reserved_data\<lparr>rd_buffer := write_back (rd_buffer reserved_data) i s\<rparr>
     in bind_outcome (ReservedData_dtor (IncreaseUsed written rd)) (\<lambda>b. Ret (b, written))))"

text \<open>The bytes behind the pointer are \<open>data\<close>; a null pointer is \<open>None\<close>.\<close>

definition Put :: "string option \<Rightarrow> nat \<Rightarrow> byte_vector \<Rightarrow> byte_vector result" where
  "Put data len buffer = (
     if len = 0 then Ret buffer
     else case data of
       None \<Rightarrow> Ret buffer
     | Some d \<Rightarrow> bind_outcome
         (Put_callback (\<lambda>dst.
            if length dst > 0
            then if length d < length dst then Undefined else Ret (take (length dst) d, length dst)
            else Ret (dst, length dst)) len buffer)
         (\<lambda>(b, _). Ret b))"

definition VerbosePayload_ctor :: "nat \<Rightarrow> byte_vector \<Rightarrow> byte_vector result" where
  "VerbosePayload_ctor max_size buffer = vector_reserve max_size buffer"

definition GetSpan :: "byte_vector \<Rightarrow> string" where
  "GetSpan buffer = take size_max (bv_bytes buffer)"

definition payload_Reset :: "byte_vector \<Rightarrow> byte_vector" where
  "payload_Reset buffer = buffer\<lparr>bv_bytes := []\<rparr>"

definition RemainingCapacity :: "byte_vector \<Rightarrow> nat" where
  "RemainingCapacity buffer = bv_capacity buffer - vector_size buffer"

definition WillOverflow :: "nat \<Rightarrow> byte_vector \<Rightarrow> bool" where
  "WillOverflow len buffer \<longleftrightarrow> len > RemainingCapacity buffer"

section \<open>Writing into a span\<close>

text \<open>The checks of \<open>span\<close> are off in the default build: a write behind the last byte is undefined.\<close>

definition span_write :: "nat \<Rightarrow> char \<Rightarrow> string \<Rightarrow> string result" where
  "span_write i c buffer = (if i < length buffer then Ret (buffer[i := c]) else Undefined)"

definition span_copy :: "string \<Rightarrow> nat \<Rightarrow> string \<Rightarrow> string result" where
  "span_copy s i buffer = (
     if i + length s \<le> length buffer then Ret (take i buffer @ s @ drop (i + length s) buffer) else Undefined)"

section \<open>Formatting functions\<close>

text \<open>Numbers as \<open>printf\<close> writes them.\<close>

definition digit_char :: "nat \<Rightarrow> char" where
  "digit_char d = ''0123456789abcdef'' ! d"

function digits :: "nat \<Rightarrow> nat \<Rightarrow> string" where
  "digits base n = (if base < 2 \<or> n < base then [digit_char n]
                    else digits base (n div base) @ [digit_char (n mod base)])"
  by pat_completeness auto
termination
  by (relation "measure snd") auto

declare digits.simps [simp del]

definition signed_digits :: "int \<Rightarrow> string" where
  "signed_digits i = (if i < 0 then CHR ''-'' # digits 10 (nat (- i)) else digits 10 (nat i))"

text \<open>\<open>snprintf\<close> writes at most \<open>n\<close> bytes with the closing zero and returns the length of the whole text.\<close>

definition snprintf :: "nat \<Rightarrow> string \<Rightarrow> string \<Rightarrow> (string \<times> nat) result" where
  "snprintf n text buffer = (
     if n = 0 then Ret (buffer, length text)
     else bind_outcome (span_copy (take (n - 1) text @ [CHR 0x00]) 0 buffer) (\<lambda>b. Ret (b, length text)))"

definition kReserveSpaceForSpace :: nat where "kReserveSpaceForSpace = 1"

definition FormattingFunctionReturnCast :: "int \<Rightarrow> nat" where
  "FormattingFunctionReturnCast i = (if i > 0 then nat i else 0)"

datatype IntegerRepresentation = kDecimal | kOctal | kHex | kBinary

definition put_formatted_text :: "string \<Rightarrow> reserve_callback" where
  "put_formatted_text text buffer = (
     if buffer \<noteq> []
     then bind_outcome (snprintf (length buffer) text buffer) (\<lambda>(b, r).
          let written = FormattingFunctionReturnCast (int r);
              num_written = min written (length buffer - 1)
          in bind_outcome (span_write num_written (CHR '' '') b) (\<lambda>b. Ret (b, written)))
     else Ret (buffer, 0))"

text \<open>The text of a number, with the trailing space of the format specifiers.\<close>

definition PutFormattedNumber :: "string \<Rightarrow> byte_vector \<Rightarrow> byte_vector result" where
  "PutFormattedNumber number payload =
     bind_outcome (Put_callback (put_formatted_text (number @ '' '')) 0 payload) (\<lambda>(b, _). Ret b)"

primrec binary_loop :: "nat \<Rightarrow> nat \<Rightarrow> 'w::len word \<Rightarrow> nat \<Rightarrow> string \<Rightarrow> string result" where
  "binary_loop 0 bits data buffer_index buffer = Ret buffer"
| "binary_loop (Suc k) bits data buffer_index buffer =
     bind_outcome (span_write buffer_index (if bit data (bits - 1 - buffer_index) then CHR ''1'' else CHR ''0'') buffer)
       (binary_loop k bits data (Suc buffer_index))"

definition put_binary :: "'w::len word \<Rightarrow> reserve_callback" where
  "put_binary data buffer = (
     let buffer_space = length buffer
     in if buffer_space > 1
        then let number_of_bits = LENGTH('w);
                 max_possible = min number_of_bits buffer_space
             in bind_outcome (binary_loop max_possible number_of_bits data 0 buffer) (\<lambda>b.
                let last_index = buffer_space - 1
                in bind_outcome (span_write last_index (CHR '' '') b) (\<lambda>b.
                   Ret (b, max_possible + kReserveSpaceForSpace)))
        else Ret (buffer, 0))"

definition PutBinaryFormattedNumber :: "'w::len word \<Rightarrow> byte_vector \<Rightarrow> byte_vector result" where
  "PutBinaryFormattedNumber data payload =
     bind_outcome (Put_callback (put_binary data) (LENGTH('w) + kReserveSpaceForSpace) payload) (\<lambda>(b, _). Ret b)"

definition PutLogStringViewData :: "string \<Rightarrow> reserve_callback" where
  "PutLogStringViewData data buffer = (
     let len = min (length data) (length buffer)
     in if len > 0
        then bind_outcome (span_copy (take len data) 0 buffer) (\<lambda>copied.
             if len \<noteq> length buffer
             then bind_outcome (span_write len (CHR '' '') copied) (\<lambda>b. Ret (b, len + 1))
             else bind_outcome (span_write (len - 1) (CHR '' '') copied) (\<lambda>b. Ret (b, len)))
        else Ret (buffer, 0))"

text \<open>The two digits of a byte; the destination is an index that may leave the buffer.\<close>

definition hex_pair :: "8 word \<Rightarrow> string" where
  "hex_pair b = [digit_char (unat b div 16), digit_char (unat b mod 16)]"

fun raw_loop :: "8 word list \<Rightarrow> nat \<Rightarrow> string \<Rightarrow> (string \<times> nat) result" where
  "raw_loop [] i buffer = Ret (buffer, i)"
| "raw_loop (input # rest) i buffer = (
     if i \<noteq> length buffer
     then bind_outcome (span_copy (hex_pair input) i buffer) (raw_loop rest (i + 2))
     else raw_loop rest i buffer)"

definition PutLogRawBufferData :: "8 word list \<Rightarrow> reserve_callback" where
  "PutLogRawBufferData data buffer = (
     if buffer = [] then Ret (buffer, 0)
     else bind_outcome (raw_loop data 0 buffer) (\<lambda>(b, i).
          if i \<noteq> length b then bind_outcome (span_write i (CHR '' '') b) (\<lambda>b. Ret (b, i + 1)) else Ret (b, i)))"

text \<open>The formatted local time is a parameter; \<open>None\<close> when \<open>localtime_r\<close> fails.\<close>

definition PutFormattedTimeData :: "string option \<Rightarrow> reserve_callback" where
  "PutFormattedTimeData time_str buffer = (case time_str of
     None \<Rightarrow> Ret (buffer, 0)
   | Some t \<Rightarrow> if length buffer > length t then bind_outcome (span_copy t 0 buffer) (\<lambda>b. Ret (b, length t)) else Ret (buffer, 0))"

section \<open>Logging of arguments\<close>

text \<open>Floating-point numbers come with the text that \<open>%f\<close> gives.\<close>

datatype log_arg = Arg_bool bool
  | Arg_u8 "8 word" | Arg_u16 "16 word" | Arg_u32 "32 word" | Arg_u64 "64 word"
  | Arg_i8 "8 word" | Arg_i16 "16 word" | Arg_i32 "32 word" | Arg_i64 "64 word"
  | LogHex8 "8 word" | LogHex16 "16 word" | LogHex32 "32 word" | LogHex64 "64 word"
  | LogBin8 "8 word" | LogBin16 "16 word" | LogBin32 "32 word" | LogBin64 "64 word"
  | Arg_float string | Arg_string string | LogRawBuffer "8 word list"

definition Log_string :: "string \<Rightarrow> byte_vector \<Rightarrow> byte_vector result" where
  "Log_string data payload = (
     if data \<noteq> []
     then bind_outcome (Put_callback (PutLogStringViewData data) (length data + kReserveSpaceForSpace) payload) (\<lambda>(b, _). Ret b)
     else Ret payload)"

definition Log_raw :: "8 word list \<Rightarrow> byte_vector \<Rightarrow> byte_vector result" where
  "Log_raw data payload = (
     let max_string_len = 2 * length data
     in if max_string_len > 0
        then bind_outcome (Put_callback (PutLogRawBufferData data) (max_string_len + kReserveSpaceForSpace) payload) (\<lambda>(b, _). Ret b)
        else Ret payload)"

text \<open>
  The dispatch on the representation. Signed and floating-point numbers have decimal texts only; the
  functions for the other representations are empty for them.
\<close>

definition LogData_unsigned :: "'w::len word \<Rightarrow> IntegerRepresentation \<Rightarrow> byte_vector \<Rightarrow> byte_vector result" where
  "LogData_unsigned data integral_representation payload = (case integral_representation of
     kHex \<Rightarrow> PutFormattedNumber (digits 16 (unat data)) payload
   | kBinary \<Rightarrow> PutBinaryFormattedNumber data payload
   | kOctal \<Rightarrow> PutFormattedNumber (digits 8 (unat data)) payload
   | kDecimal \<Rightarrow> PutFormattedNumber (digits 10 (unat data)) payload)"

definition LogData_text :: "string \<Rightarrow> IntegerRepresentation \<Rightarrow> byte_vector \<Rightarrow> byte_vector result" where
  "LogData_text text integral_representation payload = (case integral_representation of
     kDecimal \<Rightarrow> PutFormattedNumber text payload
   | _ \<Rightarrow> Ret payload)"

fun TextFormat_Log :: "log_arg \<Rightarrow> byte_vector \<Rightarrow> byte_vector result" where
  "TextFormat_Log (Arg_bool b) payload = Log_string (if b then ''True'' else ''False'') payload"
| "TextFormat_Log (Arg_u8 w) payload = LogData_unsigned w kDecimal payload"
| "TextFormat_Log (Arg_u16 w) payload = LogData_unsigned w kDecimal payload"
| "TextFormat_Log (Arg_u32 w) payload = LogData_unsigned w kDecimal payload"
| "TextFormat_Log (Arg_u64 w) payload = LogData_unsigned w kDecimal payload"
| "TextFormat_Log (Arg_i8 w) payload = LogData_text (signed_digits (sint w)) kDecimal payload"
| "TextFormat_Log (Arg_i16 w) payload = LogData_text (signed_digits (sint w)) kDecimal payload"
| "TextFormat_Log (Arg_i32 w) payload = LogData_text (signed_digits (sint w)) kDecimal payload"
| "TextFormat_Log (Arg_i64 w) payload = LogData_text (signed_digits (sint w)) kDecimal payload"
| "TextFormat_Log (LogHex8 w) payload = LogData_unsigned w kHex payload"
| "TextFormat_Log (LogHex16 w) payload = LogData_unsigned w kHex payload"
| "TextFormat_Log (LogHex32 w) payload = LogData_unsigned w kHex payload"
| "TextFormat_Log (LogHex64 w) payload = LogData_unsigned w kHex payload"
| "TextFormat_Log (LogBin8 w) payload = LogData_unsigned w kBinary payload"
| "TextFormat_Log (LogBin16 w) payload = LogData_unsigned w kBinary payload"
| "TextFormat_Log (LogBin32 w) payload = LogData_unsigned w kBinary payload"
| "TextFormat_Log (LogBin64 w) payload = LogData_unsigned w kBinary payload"
| "TextFormat_Log (Arg_float t) payload = LogData_text t kDecimal payload"
| "TextFormat_Log (Arg_string s) payload = Log_string s payload"
| "TextFormat_Log (LogRawBuffer d) payload = Log_raw d payload"

definition TerminateLog :: "byte_vector \<Rightarrow> byte_vector result" where
  "TerminateLog payload = Put (Some [CHR 0x0A]) kReserveSpaceForSpace payload"

text \<open>The time of day as text and the milliseconds since the epoch are parameters.\<close>

definition PutFormattedTime :: "string option \<Rightarrow> nat \<Rightarrow> byte_vector \<Rightarrow> byte_vector result" where
  "PutFormattedTime time_str milliseconds payload =
     bind_outcome (Put_callback (PutFormattedTimeData time_str) 0 payload) (\<lambda>(b, _).
     PutFormattedNumber (digits 10 (milliseconds mod 10000000)) b)"

section \<open>Argument counter and identifiers\<close>

datatype AddArgumentResult = kAdded | kNotAdded

text \<open>The callback works on a state and tells whether the argument was added.\<close>

definition TryAddArgument ::
  "('s \<Rightarrow> ('s \<times> AddArgumentResult) result) \<Rightarrow> 8 word \<Rightarrow> 's \<Rightarrow> (8 word \<times> 's \<times> AddArgumentResult) result" where
  "TryAddArgument callback counter s = (
     if counter = - 1 then Ret (counter, s, kNotAdded)
     else bind_outcome (callback s) (\<lambda>(s', result).
          Ret (if result = kAdded then counter + 1 else counter, s', result)))"

section \<open>Puts append\<close>

definition payload_wf :: "byte_vector \<Rightarrow> bool" where
  "payload_wf v \<longleftrightarrow> vector_size v \<le> bv_capacity v \<and> bv_capacity v \<le> int32_max"

definition append_bytes :: "byte_vector \<Rightarrow> string \<Rightarrow> byte_vector" where
  "append_bytes v s = v\<lparr>bv_bytes := bv_bytes v @ s\<rparr>"

definition reserved_size :: "nat \<Rightarrow> byte_vector \<Rightarrow> nat" where
  "reserved_size n v = (if n = 0 \<or> n > RemainingCapacity v then RemainingCapacity v else n)"

lemma reserved_size_le: "reserved_size n v \<le> RemainingCapacity v"
  by (simp add: reserved_size_def)

lemma append_bytes_simps [simp]:
  "bv_bytes (append_bytes v s) = bv_bytes v @ s" "bv_capacity (append_bytes v s) = bv_capacity v"
  "append_bytes v [] = v" "append_bytes (append_bytes v s) t = append_bytes v (s @ t)"
  by (simp_all add: append_bytes_def)

lemma payload_wf_append:
  "payload_wf v \<Longrightarrow> length s \<le> RemainingCapacity v \<Longrightarrow> payload_wf (append_bytes v s)"
  by (auto simp: payload_wf_def RemainingCapacity_def vector_size_def)

lemma remaining_append [simp]: "RemainingCapacity (append_bytes v s) = RemainingCapacity v - length s"
  by (simp add: RemainingCapacity_def vector_size_def)

lemma size_bounds: "int32_max < vector_max_size" "int32_max + int32_max < size_max"
  by (simp_all add: int32_max_def vector_max_size_def size_max_def)

lemma HandleAddOverflow_small: "a \<le> int32_max \<Longrightarrow> b \<le> int32_max \<Longrightarrow> HandleAddOverflow a b = a + b"
  using size_bounds by (simp add: HandleAddOverflow_def)

lemma reserve_eq:
  assumes "payload_wf v" "r = reserved_size n v"
  shows "ReservedData_ctor v n = Ret \<lparr>rd_buffer = append_bytes v (replicate r (CHR 0x00)), rd_old_size = vector_size v,
    rd_total_used = 0, rd_reserved = r\<rparr>"
proof -
  have r: "r + vector_size v \<le> bv_capacity v" "r \<le> int32_max" "vector_size v \<le> int32_max" "bv_capacity v \<le> vector_max_size"
    using assms reserved_size_le[of n v] size_bounds(1) by (auto simp: payload_wf_def RemainingCapacity_def)
  have room: "(if bv_capacity v > vector_size v then bv_capacity v - vector_size v else 0) = RemainingCapacity v"
    by (simp add: RemainingCapacity_def)
  have "vector_resize (HandleAddOverflow r (vector_size v)) v = Ret (append_bytes v (replicate r (CHR 0x00)))"
    using r by (simp add: HandleAddOverflow_small vector_resize_def append_bytes_def vector_size_def max_def)
  moreover have "min int32_max (if n = 0 \<or> RemainingCapacity v < n then RemainingCapacity v else n) = r"
    using r(2) by (simp only: assms(2) reserved_size_def min.absorb2)
  ultimately show ?thesis unfolding ReservedData_ctor_def Let_def room by simp
qed

lemma Put_callback_append:
  assumes "payload_wf v" "r = reserved_size n v" "callback (replicate r (CHR 0x00)) = Ret (s, k)" "length s = r"
    "k \<le> r \<or> r = RemainingCapacity v"
  shows "Put_callback callback n v = Ret (append_bytes v (take k s), k)"
proof -
  let ?rd = "\<lparr>rd_buffer = append_bytes v (replicate r (CHR 0x00)), rd_old_size = vector_size v,
    rd_total_used = 0, rd_reserved = r\<rparr>"
  have r: "r + vector_size v \<le> bv_capacity v" "r \<le> int32_max" "bv_capacity v \<le> int32_max"
    using assms(1,2) reserved_size_le[of n v] by (auto simp: payload_wf_def RemainingCapacity_def)
  have data: "GetData ?rd = (if r = 0 then (0, 0) else (vector_size v, r))"
    using r(2) by (simp add: GetData_def vector_size_def ClampTo_int32_def)
  have span: "(case GetData ?rd of (i, n) \<Rightarrow> take n (drop i (bv_bytes (rd_buffer ?rd)))) = replicate r (CHR 0x00)"
    unfolding data by (simp add: vector_size_def)
  have wb: "(case GetData ?rd of (i, n) \<Rightarrow> write_back (rd_buffer ?rd) i s) = append_bytes v s"
    unfolding data using assms(4) by (auto simp: write_back_def vector_size_def append_bytes_def)
  have used: "rd_total_used (IncreaseUsed k (?rd\<lparr>rd_buffer := append_bytes v s\<rparr>)) = min k (RemainingCapacity v)"
    using r by (auto simp: IncreaseUsed_def Let_def RemainingCapacity_def HandleAddOverflow_small min_def)
  have "ReservedData_dtor (IncreaseUsed k (?rd\<lparr>rd_buffer := append_bytes v s\<rparr>)) = Ret (append_bytes v (take k s))"
  proof -
    let ?m = "min k (RemainingCapacity v)"
    have m: "?m \<le> r" "take ?m s = take k s" "vector_size v \<le> int32_max" "?m + vector_size v \<le> vector_max_size"
      using assms(4,5) r size_bounds(1) by (auto simp: min_def RemainingCapacity_def)
    have "ReservedData_dtor (IncreaseUsed k (?rd\<lparr>rd_buffer := append_bytes v s\<rparr>)) =
      vector_resize (HandleAddOverflow ?m (vector_size v)) (append_bytes v s)"
      unfolding ReservedData_dtor_def used by (simp add: IncreaseUsed_def Let_def)
    also have "\<dots> = Ret (append_bytes v (take ?m s))"
      using m r assms(4) by (simp add: HandleAddOverflow_small vector_resize_def append_bytes_def vector_size_def max_def)
    finally show ?thesis by (simp add: m(2))
  qed
  then show ?thesis
    unfolding Put_callback_def reserve_eq[OF assms(1,2)] using span wb assms(3) by (simp add: split_beta Let_def)
qed

lemma Put_callback_undefined:
  assumes "payload_wf v" "callback (replicate (reserved_size n v) (CHR 0x00)) = Undefined"
  shows "Put_callback callback n v = Undefined"
proof -
  let ?r = "reserved_size n v"
  have r: "?r \<le> int32_max"
    using assms(1) reserved_size_le[of n v] by (auto simp: payload_wf_def RemainingCapacity_def)
  have "(case GetData \<lparr>rd_buffer = append_bytes v (replicate ?r (CHR 0x00)), rd_old_size = vector_size v,
    rd_total_used = 0, rd_reserved = ?r\<rparr> of (i, n) \<Rightarrow>
      take n (drop i (bv_bytes (append_bytes v (replicate ?r (CHR 0x00)))))) = replicate ?r (CHR 0x00)"
    using r by (simp add: GetData_def vector_size_def ClampTo_int32_def Let_def)
  then show ?thesis unfolding Put_callback_def reserve_eq[OF assms(1) refl] using assms(2) by (simp add: split_beta)
qed


section \<open>Text of the arguments\<close>

text \<open>A text with its trailing space, cut to the room that is left with a space at the cut.\<close>

definition fit :: "nat \<Rightarrow> string \<Rightarrow> string" where
  "fit room t = (if length t < room then t @ '' '' else if room = 0 then [] else take (room - 1) t @ '' '')"

lemma length_fit: "length (fit room t) = min room (Suc (length t))"
  by (auto simp: fit_def)

lemma FormattingFunctionReturnCast_int [simp]: "FormattingFunctionReturnCast (int n) = n"
  by (simp add: FormattingFunctionReturnCast_def)

lemma list_update_at: "k \<le> length u \<Longrightarrow> (take k u @ x # rest)[k := y] = take k u @ y # rest"
  by (simp add: list_update_append)

lemma span_write_at: "i < length b \<Longrightarrow> span_write i c b = Ret (b[i := c])"
  by (simp add: span_write_def)

lemma span_copy_at: "i + length t \<le> length b \<Longrightarrow> span_copy t i b = Ret (take i b @ t @ drop (i + length t) b)"
  by (simp add: span_copy_def)

lemma put_formatted_text_eq:
  assumes "0 < r"
  shows "\<exists>s. put_formatted_text (t @ '' '') (replicate r (CHR 0x00)) = Ret (s, Suc (length t)) \<and> length s = r \<and>
    take (Suc (length t)) s = fit r t"
proof -
  let ?kept = "min (Suc (length t)) (r - 1)"
  let ?b = "take ?kept (t @ '' '') @ [CHR 0x00] @ drop (Suc ?kept) (replicate r (CHR 0x00))"
  let ?s = "?b[?kept := CHR '' '']"
  have cut: "take (r - 1) (t @ '' '') = take ?kept (t @ '' '')" by (simp add: min_def)
  have len: "length (take ?kept (t @ '' '')) = ?kept" by simp
  have "snprintf r (t @ '' '') (replicate r (CHR 0x00)) = Ret (?b, Suc (length t))"
    unfolding snprintf_def cut using assms span_copy_at[of 0 "take ?kept (t @ '' '') @ [CHR 0x00]" "replicate r (CHR 0x00)"] len
    by (simp del: drop_replicate take_append)
  moreover have "span_write ?kept (CHR '' '') ?b = Ret ?s" using assms len by (intro span_write_at) (simp del: take_append)
  ultimately have "put_formatted_text (t @ '' '') (replicate r (CHR 0x00)) = Ret (?s, Suc (length t))"
    using assms by (simp add: put_formatted_text_def Let_def del: drop_replicate of_nat_Suc take_append)
  moreover have "?s = take ?kept (t @ '' '') @ CHR '' '' # drop (Suc ?kept) (replicate r (CHR 0x00))"
    using list_update_at[of ?kept "t @ '' ''"] by simp
  moreover have "take (Suc (length t)) (take ?kept (t @ '' '') @ CHR '' '' # drop (Suc ?kept) (replicate r (CHR 0x00))) = fit r t"
    using assms by (cases "length t < r - 1") (auto simp: fit_def min_def not_less take_Cons')
  ultimately show ?thesis using assms by auto
qed

lemma reserved_size_0 [simp]: "reserved_size 0 v = RemainingCapacity v"
  by (simp add: reserved_size_def)

lemma Put_callback_none:
  "payload_wf v \<Longrightarrow> callback (replicate (reserved_size n v) (CHR 0x00)) = Ret (replicate (reserved_size n v) (CHR 0x00), 0) \<Longrightarrow>
   Put_callback callback n v = Ret (v, 0)"
  using Put_callback_append[of v "reserved_size n v" n callback "replicate (reserved_size n v) (CHR 0x00)" 0] by simp

lemma PutFormattedNumber_eq:
  assumes "payload_wf v"
  shows "PutFormattedNumber t v = Ret (append_bytes v (fit (RemainingCapacity v) t))"
proof (cases "RemainingCapacity v = 0")
  case True
  then have "Put_callback (put_formatted_text (t @ '' '')) 0 v = Ret (v, 0)"
    by (intro Put_callback_none[OF assms]) (simp add: put_formatted_text_def)
  then show ?thesis using True by (simp add: PutFormattedNumber_def fit_def)
next
  case False
  then obtain s where s: "put_formatted_text (t @ '' '') (replicate (RemainingCapacity v) (CHR 0x00)) = Ret (s, Suc (length t))"
    "length s = RemainingCapacity v" "take (Suc (length t)) s = fit (RemainingCapacity v) t"
    using put_formatted_text_eq by blast
  then show ?thesis
    using Put_callback_append[OF assms, of "RemainingCapacity v" 0 "put_formatted_text (t @ '' '')" s "Suc (length t)"]
    by (simp add: PutFormattedNumber_def)
qed

lemma PutLogStringViewData_eq:
  assumes "data \<noteq> []" "0 < r" "r \<le> Suc (length data)"
  shows "\<exists>s k. PutLogStringViewData data (replicate r (CHR 0x00)) = Ret (s, k) \<and> length s = r \<and> k \<le> r \<and> take k s = fit r data"
proof (cases "length data < r")
  case True
  then have r: "r = Suc (length data)" using assms(3) by simp
  then have "drop (length data) (replicate r (CHR 0x00)) = [CHR 0x00]" using r by (subst drop_replicate) simp
  then show ?thesis using assms(1) r
    by (auto simp: PutLogStringViewData_def fit_def Let_def span_copy_def span_write_def list_update_append simp del: replicate_Suc drop_replicate)
next
  case False
  then have "(take r data)[r - 1 := CHR '' ''] = take (r - 1) data @ '' ''"
    using assms(2) by (cases r) (auto simp: take_Suc_conv_app_nth list_update_append)
  then show ?thesis using assms(1,2) False by (auto simp: PutLogStringViewData_def fit_def Let_def span_copy_def span_write_def min_def)
qed

lemma Log_string_eq:
  assumes "payload_wf v"
  shows "Log_string t v = Ret (append_bytes v (if t = [] then [] else fit (RemainingCapacity v) t))"
proof (cases "t = [] \<or> RemainingCapacity v = 0")
  case True
  then have "t \<noteq> [] \<Longrightarrow> Put_callback (PutLogStringViewData t) (length t + kReserveSpaceForSpace) v = Ret (v, 0)"
    by (intro Put_callback_none[OF assms]) (simp add: PutLogStringViewData_def reserved_size_def)
  then show ?thesis using True by (auto simp: Log_string_def fit_def)
next
  case False
  let ?r = "reserved_size (length t + kReserveSpaceForSpace) v"
  have r: "?r = min (Suc (length t)) (RemainingCapacity v)"
    using False by (auto simp: reserved_size_def kReserveSpaceForSpace_def)
  obtain s k where s: "PutLogStringViewData t (replicate ?r (CHR 0x00)) = Ret (s, k)" "length s = ?r" "k \<le> ?r" "take k s = fit ?r t"
    using PutLogStringViewData_eq[of t ?r] False r by auto
  have "fit ?r t = fit (RemainingCapacity v) t" unfolding r by (auto simp: fit_def min_def)
  then show ?thesis
    using Put_callback_append[of v ?r _ "PutLogStringViewData t" s k, OF assms refl s(1,2)] s(3,4) False by (simp add: Log_string_def)
qed

definition bit_text :: "'w::len word \<Rightarrow> string" where
  "bit_text w = map (\<lambda>i. if bit w (LENGTH('w) - 1 - i) then CHR ''1'' else CHR ''0'') [0..<LENGTH('w)]"

lemma binary_loop_eq:
  "i + k \<le> length b \<Longrightarrow> binary_loop k n w i b =
     Ret (take i b @ map (\<lambda>i. if bit w (n - 1 - i) then CHR ''1'' else CHR ''0'') [i..<i + k] @ drop (i + k) b)"
proof (induction k arbitrary: i b)
  case (Suc k)
  let ?f = "\<lambda>i. if bit w (n - 1 - i) then CHR ''1'' else CHR ''0''"
  have "take (Suc i) (b[i := ?f i]) = take i b @ [?f i]" "drop (Suc i + k) (b[i := ?f i]) = drop (Suc i + k) b"
    using Suc.prems by (simp_all add: take_Suc_conv_app_nth)
  moreover have "[i..<i + Suc k] = i # [Suc i..<Suc i + k]" by (simp add: upt_conv_Cons)
  ultimately show ?case using Suc.IH[of "Suc i" "b[i := ?f i]"] Suc.prems by (simp add: span_write_at)
qed simp

lemma put_binary_eq:
  fixes w :: "'w::len word"
  assumes "1 < r" "r \<le> Suc LENGTH('w)"
  shows "\<exists>s. put_binary w (replicate r (CHR 0x00)) = Ret (s, Suc (min LENGTH('w) r)) \<and> length s = r \<and>
    take (Suc (min LENGTH('w) r)) s = fit r (bit_text w)"
proof -
  let ?n = "LENGTH('w)" and ?f = "\<lambda>i. if bit w (LENGTH('w) - 1 - i) then CHR ''1'' else CHR ''0''"
  let ?b = "map ?f [0..<min ?n r] @ drop (min ?n r) (replicate r (CHR 0x00))"
  have "binary_loop (min ?n r) ?n w 0 (replicate r (CHR 0x00)) = Ret ?b"
    using binary_loop_eq[of 0 "min ?n r" "replicate r (CHR 0x00)" ?n w] by simp
  then have "put_binary w (replicate r (CHR 0x00)) = Ret (?b[r - 1 := CHR '' ''], Suc (min ?n r))"
    using assms(1) by (simp add: put_binary_def Let_def span_write_at kReserveSpaceForSpace_def)
  moreover have "?b[r - 1 := CHR '' ''] = fit r (bit_text w)"
  proof (cases "?n < r")
    case True
    then have r: "r = Suc ?n" using assms(2) by simp
    have "drop ?n (replicate r (CHR 0x00)) = [CHR 0x00]" unfolding r by (subst drop_replicate) simp
    then show ?thesis unfolding r
      by (simp add: fit_def bit_text_def list_update_append del: replicate_Suc drop_replicate)
  next
    case False
    have "[0..<r] = [0..<r - 1] @ [r - 1]" using upt_Suc_append[of 0 "r - 1"] assms(1) by simp
    then have "?b = map ?f [0..<r - 1] @ [?f (r - 1)]" using False by (simp only: min.absorb2 not_less map_append) simp
    then have "?b[r - 1 := CHR '' ''] = map ?f [0..<r - 1] @ '' ''" by (simp only: list_update_append) simp
    moreover have "take (r - 1) (bit_text w) = map ?f [0..<r - 1]"
      using False by (simp add: bit_text_def take_map)
    ultimately show ?thesis using False assms(1) by (simp add: fit_def bit_text_def)
  qed
  ultimately show ?thesis using length_fit[of r "bit_text w"] assms by (simp add: bit_text_def)
qed

lemma PutBinaryFormattedNumber_eq:
  fixes w :: "'w::len word"
  assumes "payload_wf v"
  shows "PutBinaryFormattedNumber w v =
    Ret (append_bytes v (if RemainingCapacity v \<le> 1 then [] else fit (RemainingCapacity v) (bit_text w)))"
proof (cases "RemainingCapacity v \<le> 1")
  case True
  then have "RemainingCapacity v < Suc LENGTH('w)" using len_gt_0[where ?'a = 'w] by linarith
  then have "Put_callback (put_binary w) (LENGTH('w) + kReserveSpaceForSpace) v = Ret (v, 0)"
    using True by (intro Put_callback_none[OF assms]) (auto simp: put_binary_def reserved_size_def kReserveSpaceForSpace_def)
  then show ?thesis using True by (simp add: PutBinaryFormattedNumber_def)
next
  case False
  let ?r = "reserved_size (LENGTH('w) + kReserveSpaceForSpace) v"
  have r: "?r = min (Suc LENGTH('w)) (RemainingCapacity v)"
    by (auto simp: reserved_size_def kReserveSpaceForSpace_def)
  have "1 < ?r" "?r \<le> Suc LENGTH('w)" using False r len_gt_0[where ?'a = 'w] by auto
  then obtain s where s: "put_binary w (replicate ?r (CHR 0x00)) = Ret (s, Suc (min LENGTH('w) ?r))" "length s = ?r"
    "take (Suc (min LENGTH('w) ?r)) s = fit ?r (bit_text w)"
    using put_binary_eq[of ?r w] by blast
  have "fit ?r (bit_text w) = fit (RemainingCapacity v) (bit_text w)"
    unfolding r by (auto simp: fit_def min_def bit_text_def)
  moreover have "Suc (min LENGTH('w) ?r) \<le> ?r \<or> ?r = RemainingCapacity v" unfolding r by auto
  ultimately show ?thesis
    using Put_callback_append[of v ?r _ "put_binary w" s, OF assms refl s(1,2)] s(3) False by (simp add: PutBinaryFormattedNumber_def)
qed


definition hex_text :: "8 word list \<Rightarrow> string" where
  "hex_text d = concat (map hex_pair d)"

lemma hex_text_simps [simp]: "hex_text [] = []" "hex_text (b # d) = hex_pair b @ hex_text d"
  by (simp_all add: hex_text_def)

lemma length_hex_text [simp]: "length (hex_text d) = 2 * length d"
  by (induction d) (simp_all add: hex_pair_def)

lemma raw_loop_full: "raw_loop d (length b) b = Ret (b, length b)"
  by (induction d) simp_all

lemma raw_loop_fits:
  "i + 2 * length d \<le> length b \<Longrightarrow>
   raw_loop d i b = Ret (take i b @ hex_text d @ drop (i + 2 * length d) b, i + 2 * length d)"
proof (induction d arbitrary: i b)
  case (Cons x d)
  have "length (take i b @ hex_pair x @ drop (i + 2) b) = length b" using Cons.prems by (simp add: hex_pair_def)
  then show ?case using Cons.IH[of "i + 2" "take i b @ hex_pair x @ drop (i + 2) b"] Cons.prems
    by (simp add: hex_pair_def span_copy_def algebra_simps)
qed simp

lemma raw_loop_cut:
  "i \<le> length b \<Longrightarrow> length b < i + 2 * length d \<Longrightarrow> raw_loop d i b =
     (if even (length b - i) then Ret (take i b @ take (length b - i) (hex_text d), length b) else Undefined)"
proof (induction d arbitrary: i b)
  case (Cons x d)
  consider "i = length b" | "length b = Suc i" | "i + 2 \<le> length b" using Cons.prems(1) by linarith
  then show ?case
  proof cases
    case 1
    then show ?thesis by (simp add: raw_loop_full)
  next
    case 2
    then show ?thesis by (simp add: span_copy_def hex_pair_def)
  next
    case 3
    define b' where "b' = take i b @ hex_pair x @ drop (i + 2) b"
    have b': "length b' = length b" "take (i + 2) b' = take i b @ hex_pair x"
      using 3 by (simp_all add: b'_def hex_pair_def)
    have "raw_loop (x # d) i b = raw_loop d (i + 2) b'" using 3 by (simp add: b'_def span_copy_def hex_pair_def)
    also have "\<dots> = (if even (length b' - (i + 2)) then Ret (take (i + 2) b' @ take (length b' - (i + 2)) (hex_text d), length b') else Undefined)"
      by (rule Cons.IH) (use 3 Cons.prems b'(1) in auto)
    finally have loop: "raw_loop (x # d) i b =
      (if even (length b - (i + 2)) then Ret ((take i b @ hex_pair x) @ take (length b - (i + 2)) (hex_text d), length b) else Undefined)"
      by (simp only: b')
    have "take (length b - i) (hex_pair x @ hex_text d) = hex_pair x @ take (length b - (i + 2)) (hex_text d)"
      using 3 by (simp add: hex_pair_def take_Cons' Suc_diff_Suc numeral_2_eq_2)
    moreover have "even (length b - (i + 2)) = even (length b - i)" using 3 by presburger
    ultimately show ?thesis unfolding loop hex_text_simps by simp
  qed
qed simp

lemma Log_raw_eq:
  assumes "payload_wf v"
  shows "Log_raw d v = (let room = RemainingCapacity v in
    if d = [] \<or> room = 0 then Ret v
    else if 2 * length d < room then Ret (append_bytes v (hex_text d @ '' ''))
    else if even room then Ret (append_bytes v (take room (hex_text d)))
    else Undefined)"
proof -
  let ?room = "RemainingCapacity v" and ?r = "reserved_size (2 * length d + kReserveSpaceForSpace) v"
  let ?z = "replicate ?r (CHR 0x00)"
  have r: "?r = min (Suc (2 * length d)) ?room" by (auto simp: reserved_size_def kReserveSpaceForSpace_def)
  consider (none) "d = [] \<or> ?room = 0" | (fits) "d \<noteq> []" "?room \<noteq> 0" "2 * length d < ?room" | (cut) "d \<noteq> []" "?room \<noteq> 0" "?room \<le> 2 * length d"
    by linarith
  then show ?thesis
  proof cases
    case none
    then have "d \<noteq> [] \<Longrightarrow> Put_callback (PutLogRawBufferData d) (2 * length d + kReserveSpaceForSpace) v = Ret (v, 0)"
      by (intro Put_callback_none[OF assms]) (simp add: PutLogRawBufferData_def r)
    then show ?thesis using none by (auto simp: Log_raw_def Let_def)
  next
    case fits
    then have len: "?r = Suc (2 * length d)" by (simp add: r)
    have "drop (2 * length d) ?z = [CHR 0x00]" unfolding len by (subst drop_replicate) simp
    then have "raw_loop d 0 ?z = Ret (hex_text d @ [CHR 0x00], 2 * length d)"
      using raw_loop_fits[of 0 d ?z] by (simp add: len del: replicate_Suc drop_replicate)
    then have cb: "PutLogRawBufferData d ?z = Ret (hex_text d @ '' '', Suc (2 * length d))"
      using fits(1) len by (simp add: PutLogRawBufferData_def span_write_def list_update_append)
    have "Put_callback (PutLogRawBufferData d) (2 * length d + kReserveSpaceForSpace) v =
      Ret (append_bytes v (take (Suc (2 * length d)) (hex_text d @ '' '')), Suc (2 * length d))"
      by (rule Put_callback_append[of v ?r _ "PutLogRawBufferData d", OF assms refl cb]) (simp_all add: len)
    then show ?thesis using fits by (simp add: Log_raw_def)
  next
    case cut
    then have len: "?r = ?room" by (simp add: r)
    have loop: "raw_loop d 0 ?z = (if even ?room then Ret (take ?room (hex_text d), ?room) else Undefined)"
      using raw_loop_cut[of 0 ?z d] raw_loop_fits[of 0 d ?z] cut by (cases "?room = 2 * length d") (simp_all add: len)
    show ?thesis
    proof (cases "even ?room")
      case True
      then have cb: "PutLogRawBufferData d ?z = Ret (take ?room (hex_text d), ?room)"
        using loop cut len by (simp add: PutLogRawBufferData_def)
      have "Put_callback (PutLogRawBufferData d) (2 * length d + kReserveSpaceForSpace) v =
        Ret (append_bytes v (take ?room (take ?room (hex_text d))), ?room)"
        by (rule Put_callback_append[of v ?r _ "PutLogRawBufferData d", OF assms refl cb]) (use cut in \<open>simp_all add: len\<close>)
      then show ?thesis using cut True by (simp add: Log_raw_def Let_def)
    next
      case False
      then have "PutLogRawBufferData d ?z = Undefined" using loop cut len by (simp add: PutLogRawBufferData_def)
      then have "Put_callback (PutLogRawBufferData d) (2 * length d + kReserveSpaceForSpace) v = Undefined"
        by (rule Put_callback_undefined[OF assms])
      then show ?thesis using cut False by (simp add: Log_raw_def)
    qed
  qed
qed

text \<open>
  What logging an argument appends when \<open>room\<close> bytes are left; \<open>None\<close> when the bytes written leave the
  buffer.
\<close>

fun appended :: "nat \<Rightarrow> log_arg \<Rightarrow> string option" where
  "appended room (Arg_bool b) = Some (fit room (if b then ''True'' else ''False''))"
| "appended room (Arg_u8 w) = Some (fit room (digits 10 (unat w)))"
| "appended room (Arg_u16 w) = Some (fit room (digits 10 (unat w)))"
| "appended room (Arg_u32 w) = Some (fit room (digits 10 (unat w)))"
| "appended room (Arg_u64 w) = Some (fit room (digits 10 (unat w)))"
| "appended room (Arg_i8 w) = Some (fit room (signed_digits (sint w)))"
| "appended room (Arg_i16 w) = Some (fit room (signed_digits (sint w)))"
| "appended room (Arg_i32 w) = Some (fit room (signed_digits (sint w)))"
| "appended room (Arg_i64 w) = Some (fit room (signed_digits (sint w)))"
| "appended room (LogHex8 w) = Some (fit room (digits 16 (unat w)))"
| "appended room (LogHex16 w) = Some (fit room (digits 16 (unat w)))"
| "appended room (LogHex32 w) = Some (fit room (digits 16 (unat w)))"
| "appended room (LogHex64 w) = Some (fit room (digits 16 (unat w)))"
| "appended room (LogBin8 w) = Some (if room \<le> 1 then [] else fit room (bit_text w))"
| "appended room (LogBin16 w) = Some (if room \<le> 1 then [] else fit room (bit_text w))"
| "appended room (LogBin32 w) = Some (if room \<le> 1 then [] else fit room (bit_text w))"
| "appended room (LogBin64 w) = Some (if room \<le> 1 then [] else fit room (bit_text w))"
| "appended room (Arg_float t) = Some (fit room t)"
| "appended room (Arg_string t) = Some (if t = [] then [] else fit room t)"
| "appended room (LogRawBuffer d) = (
     if d = [] \<or> room = 0 then Some []
     else if 2 * length d < room then Some (hex_text d @ '' '')
     else if even room then Some (take room (hex_text d)) else None)"

lemma TextFormat_Log_eq:
  "payload_wf v \<Longrightarrow> TextFormat_Log a v =
     (case appended (RemainingCapacity v) a of None \<Rightarrow> Undefined | Some s \<Rightarrow> Ret (append_bytes v s))"
  by (cases a) (simp_all add: PutFormattedNumber_eq PutBinaryFormattedNumber_eq Log_string_eq Log_raw_eq
      LogData_unsigned_def LogData_text_def Let_def)

lemma appended_room: "appended room a = Some s \<Longrightarrow> length s \<le> room"
  by (cases a) (auto simp: length_fit split: if_splits)

lemma TerminateLog_eq:
  assumes "payload_wf v"
  shows "TerminateLog v = Ret (append_bytes v (take (RemainingCapacity v) [CHR 0x0A]))"
proof -
  let ?cb = "\<lambda>dst. if length dst > 0 then if length [CHR 0x0A] < length dst then Undefined else Ret (take (length dst) [CHR 0x0A], length dst)
    else Ret (dst, length dst)"
  let ?r = "reserved_size kReserveSpaceForSpace v"
  have r: "?r = min 1 (RemainingCapacity v)" by (auto simp: reserved_size_def kReserveSpaceForSpace_def)
  have "?cb (replicate ?r (CHR 0x00)) = Ret (take ?r [CHR 0x0A], ?r)" unfolding r by (cases "RemainingCapacity v = 0") auto
  moreover have "length (take ?r [CHR 0x0A]) = ?r" unfolding r by simp
  ultimately have "Put_callback ?cb kReserveSpaceForSpace v = Ret (append_bytes v (take ?r (take ?r [CHR 0x0A])), ?r)"
    using Put_callback_append[of v ?r kReserveSpaceForSpace ?cb "take ?r [CHR 0x0A]" ?r] assms by blast
  moreover have "take ?r [CHR 0x0A] = take (RemainingCapacity v) [CHR 0x0A]" unfolding r by (simp add: take_Cons')
  ultimately show ?thesis by (simp add: TerminateLog_def Put_def kReserveSpaceForSpace_def)
qed

text \<open>The digits of a number read back to it.\<close>

definition digit_value :: "char \<Rightarrow> nat" where
  "digit_value c = (if c \<in> set ''0123456789'' then of_char c - 48 else of_char c - 87)"

definition read_digits :: "nat \<Rightarrow> string \<Rightarrow> nat" where
  "read_digits base s = foldl (\<lambda>a c. base * a + digit_value c) 0 s"

lemma digit_value_digit_char: "d < 16 \<Longrightarrow> digit_value (digit_char d) = d"
proof -
  have "\<forall>d\<in>{..<16}. digit_value (digit_char d) = d" by code_simp
  then show "d < 16 \<Longrightarrow> ?thesis" by simp
qed

lemma read_digits_digits: "2 \<le> base \<Longrightarrow> base \<le> 16 \<Longrightarrow> read_digits base (digits base n) = n"
proof (induction base n rule: digits.induct)
  case (1 base n)
  have "n mod base < 16" using 1(2,3) mod_less_divisor[of base n] by linarith
  then show ?case
    using 1 by (subst digits.simps) (auto simp: read_digits_def digit_value_digit_char simp del: digits.simps)
qed


lemma PutFormattedTime_eq:
  assumes "payload_wf v"
  shows "\<exists>s. PutFormattedTime t ms v = Ret (append_bytes v s) \<and> length s \<le> RemainingCapacity v"
proof -
  let ?z = "replicate (RemainingCapacity v) (CHR 0x00)"
  obtain s k where cb: "PutFormattedTimeData t ?z = Ret (s, k)" "length s = RemainingCapacity v" "k \<le> RemainingCapacity v"
    by (cases t; cases "length (the t) < RemainingCapacity v") (auto simp: PutFormattedTimeData_def span_copy_def)
  then have put: "Put_callback (PutFormattedTimeData t) 0 v = Ret (append_bytes v (take k s), k)"
    using Put_callback_append[of v "RemainingCapacity v" 0 "PutFormattedTimeData t" s k] assms by simp
  let ?v = "append_bytes v (take k s)"
  have wf: "payload_wf ?v" using payload_wf_append[OF assms, of "take k s"] cb(2) by simp
  show ?thesis
    using PutFormattedNumber_eq[OF wf] put cb(2,3) by (auto simp: PutFormattedTime_def length_fit)
qed

lemma length_digits: "2 \<le> base \<Longrightarrow> n < base ^ Suc k \<Longrightarrow> length (digits base n) \<le> Suc k"
proof (induction k arbitrary: n)
  case (Suc k)
  have "n div base < base ^ Suc k" using Suc.prems by (simp add: div_less_iff_less_mult mult.commute)
  then show ?case using Suc by (subst digits.simps) auto
qed (subst digits.simps, simp)

text \<open>The numbers among the arguments: base, largest number of characters and value.\<close>

fun number_of :: "log_arg \<Rightarrow> (nat \<times> nat \<times> int) option" where
  "number_of (Arg_u8 w) = Some (10, 3, uint w)"
| "number_of (Arg_u16 w) = Some (10, 5, uint w)"
| "number_of (Arg_u32 w) = Some (10, 10, uint w)"
| "number_of (Arg_u64 w) = Some (10, 20, uint w)"
| "number_of (Arg_i8 w) = Some (10, 4, sint w)"
| "number_of (Arg_i16 w) = Some (10, 6, sint w)"
| "number_of (Arg_i32 w) = Some (10, 11, sint w)"
| "number_of (Arg_i64 w) = Some (10, 20, sint w)"
| "number_of (LogHex8 w) = Some (16, 2, uint w)"
| "number_of (LogHex16 w) = Some (16, 4, uint w)"
| "number_of (LogHex32 w) = Some (16, 8, uint w)"
| "number_of (LogHex64 w) = Some (16, 16, uint w)"
| "number_of (LogBin8 w) = Some (2, 8, uint w)"
| "number_of (LogBin16 w) = Some (2, 16, uint w)"
| "number_of (LogBin32 w) = Some (2, 32, uint w)"
| "number_of (LogBin64 w) = Some (2, 64, uint w)"
| "number_of _ = None"

definition read_number :: "nat \<Rightarrow> string \<Rightarrow> int" where
  "read_number base t = (
     if take 1 t = ''-'' then - int (read_digits base (drop 1 t)) else int (read_digits base t))"

lemma digit_char_minus: "d < 16 \<Longrightarrow> digit_char d \<noteq> CHR ''-''"
proof -
  have "\<forall>d\<in>{..<16}. digit_char d \<noteq> CHR ''-''" by code_simp
  then show "d < 16 \<Longrightarrow> ?thesis" by simp
qed

lemma digits_no_minus: "2 \<le> base \<Longrightarrow> base \<le> 16 \<Longrightarrow> CHR ''-'' \<notin> set (digits base n)"
proof (induction base n rule: digits.induct)
  case (1 base n)
  have "n mod base < 16" using 1(2,3) mod_less_divisor[of base n] by linarith
  then have "CHR ''-'' \<noteq> digit_char (n mod base)" "n < base \<Longrightarrow> CHR ''-'' \<noteq> digit_char n"
    using digit_char_minus[of "n mod base"] by auto
  then show ?case using 1 by (subst digits.simps) auto
qed

lemma read_number_plain: "CHR ''-'' \<notin> set t \<Longrightarrow> read_number base t = int (read_digits base t)"
  by (cases t) (auto simp: read_number_def)

lemma read_number_digits: "2 \<le> base \<Longrightarrow> base \<le> 16 \<Longrightarrow> read_number base (digits base n) = int n"
  by (simp add: read_number_plain digits_no_minus read_digits_digits)

lemma read_number_signed: "read_number 10 (signed_digits i) = i"
  by (simp add: signed_digits_def read_number_digits) (simp add: read_number_def read_digits_digits)

lemma binary_digits: "digit_value (CHR ''0'') = 0" "digit_value (CHR ''1'') = 1"
  by code_simp+

lemma read_digits_snoc: "read_digits base (s @ [c]) = base * read_digits base s + digit_value c"
  by (simp add: read_digits_def)

lemma div_double: "2 * (x div 2 ^ Suc j) + (if odd (x div 2 ^ j) then 1 else 0) = (x :: nat) div 2 ^ j"
proof -
  have "x div 2 ^ Suc j = x div 2 ^ j div 2" by (simp add: power_Suc2 div_mult2_eq del: power_Suc)
  moreover have "2 * (y div 2) + (if odd y then 1 else 0) = y" for y :: nat by (cases "even y") simp_all
  ultimately show ?thesis by (simp del: power_Suc)
qed

lemma read_bits:
  fixes w :: "'w::len word"
  defines "digit \<equiv> \<lambda>i. if bit w (LENGTH('w) - 1 - i) then CHR ''1'' else CHR ''0''"
  assumes "m \<le> LENGTH('w)"
  shows "read_digits 2 (map digit [0..<m]) = unat w div 2 ^ (LENGTH('w) - m)"
  using assms(2)
proof (induction m)
  case 0
  then show ?case using unsigned_less[of w, where ?'a = nat] by (simp add: read_digits_def)
next
  case (Suc m)
  let ?j = "LENGTH('w) - Suc m"
  have j: "LENGTH('w) - m = Suc ?j" using Suc.prems by simp
  have "bit w ?j \<longleftrightarrow> odd (unat w div 2 ^ ?j)" using Suc.prems by (simp add: bit_unsigned_iff flip: bit_iff_odd)
  then have "digit_value (digit m) = (if odd (unat w div 2 ^ ?j) then 1 else 0)"
    by (simp add: digit_def binary_digits)
  moreover have "read_digits 2 (map digit [0..<m]) = unat w div 2 ^ Suc ?j" using Suc j by simp
  ultimately show ?case using div_double[of "unat w" ?j] by (simp add: read_digits_snoc del: power_Suc)
qed

lemma read_number_bits: "read_number 2 (bit_text w) = uint (w :: 'w::len word)"
proof -
  have "CHR ''-'' \<notin> set (bit_text w)" by (auto simp: bit_text_def)
  then show ?thesis using read_bits[of "LENGTH('w)" w] by (simp add: read_number_plain bit_text_def)
qed

lemma fit_room: "length t \<le> k \<Longrightarrow> k < room \<Longrightarrow> fit room t = t @ '' ''"
  by (simp add: fit_def)

lemma length_signed_digits: "- (10 ^ Suc k) < i \<Longrightarrow> i < 10 ^ Suc k \<Longrightarrow> length (signed_digits i) \<le> Suc (Suc k)"
proof -
  assume i: "- (10 ^ Suc k) < i" "i < 10 ^ Suc k"
  then have "nat \<bar>i\<bar> < 10 ^ Suc k" by (simp add: nat_less_iff abs_less_iff)
  then have "length (digits 10 (nat \<bar>i\<bar>)) \<le> Suc k" by (rule length_digits[rotated]) simp
  then show ?thesis by (auto simp: signed_digits_def)
qed

lemma length_unsigned_digits:
  fixes w :: "'w::len word"
  assumes "2 \<le> base" "2 ^ LENGTH('w) \<le> base ^ Suc k"
  shows "length (digits base (unat w)) \<le> Suc k"
  using length_digits[OF assms(1), of "unat w" k] unsigned_less[of w, where ?'a = nat] assms(2) by linarith

lemma length_signed_word:
  fixes w :: "'w::len word"
  assumes "(2 :: int) ^ (LENGTH('w) - 1) < 10 ^ Suc k"
  shows "length (signed_digits (sint w)) \<le> Suc (Suc k)"
proof (rule length_signed_digits)
  show "- (10 ^ Suc k) < sint w" using sint_greater_eq[of w] assms unfolding One_nat_def by linarith
  show "sint w < 10 ^ Suc k" using sint_lt[of w] assms by linarith
qed

lemma digits_text:
  fixes w :: "'w::len word"
  assumes "2 \<le> base" "base \<le> 16" "2 ^ LENGTH('w) \<le> base ^ Suc k" "Suc k < room"
  shows "\<exists>t. fit room (digits base (unat w)) = t @ '' '' \<and> read_number base t = uint w"
  using fit_room[OF length_unsigned_digits[OF assms(1,3)] assms(4), of w] read_number_digits[OF assms(1,2)] by simp

lemma signed_text:
  fixes w :: "'w::len word"
  assumes "(2 :: int) ^ (LENGTH('w) - 1) < 10 ^ Suc k" "Suc (Suc k) < room"
  shows "\<exists>t. fit room (signed_digits (sint w)) = t @ '' '' \<and> read_number 10 t = sint w"
  using fit_room[OF length_signed_word[OF assms(1)] assms(2), of w] read_number_signed by simp

lemma bits_text:
  fixes w :: "'w::len word"
  assumes "LENGTH('w) < room"
  shows "\<exists>t. fit room (bit_text w) = t @ '' '' \<and> read_number 2 t = uint w"
  using assms read_number_bits by (simp add: fit_def bit_text_def)

lemmas number_texts =
  digits_text[where ?'w = 8 and base = 10 and k = 2] digits_text[where ?'w = 16 and base = 10 and k = 4]
  digits_text[where ?'w = 32 and base = 10 and k = 9] digits_text[where ?'w = 64 and base = 10 and k = 19]
  digits_text[where ?'w = 8 and base = 16 and k = 1] digits_text[where ?'w = 16 and base = 16 and k = 3]
  digits_text[where ?'w = 32 and base = 16 and k = 7] digits_text[where ?'w = 64 and base = 16 and k = 15]
  signed_text[where ?'w = 8 and k = 2] signed_text[where ?'w = 16 and k = 4]
  signed_text[where ?'w = 32 and k = 9] signed_text[where ?'w = 64 and k = 18] bits_text

lemma number_text:
  assumes "number_of a = Some (base, k, i)" "k < room"
  shows "\<exists>t. appended room a = Some (t @ '' '') \<and> read_number base t = i"
  using assms by (cases a) (clarsimp; rule number_texts; simp)+

section \<open>Properties\<close>

text \<open>
  C29: logging an argument leaves the bytes already in the payload and its capacity as they are and appends
  the text of the argument with a space, cut to the room that is left with a space at the cut; raw buffers are cut without
  the space, and those that do not fit into an odd number of bytes are excluded.
  A number of any width, decimal, signed, hexadecimal or binary, whose longest text fits with its space reads back as
  the number that was logged.
\<close>

theorem TextFormat_Log_correct:
  assumes "payload_wf v" "\<not> (\<exists>d. a = LogRawBuffer d \<and> odd (RemainingCapacity v) \<and> RemainingCapacity v < 2 * length d)"
  shows "\<exists>s. TextFormat_Log a v = Ret (append_bytes v s) \<and> appended (RemainingCapacity v) a = Some s \<and>
    payload_wf (append_bytes v s) \<and>
    (\<forall>base k i. number_of a = Some (base, k, i) \<longrightarrow> k < RemainingCapacity v \<longrightarrow>
       (\<exists>t. s = t @ '' '' \<and> read_number base t = i))"
proof -
  have "appended (RemainingCapacity v) a \<noteq> None"
    using assms(2) by (cases a) (auto simp: not_less le_less)
  then obtain s where s: "appended (RemainingCapacity v) a = Some s" by blast
  then have "\<exists>t. s = t @ '' '' \<and> read_number base t = i" if "number_of a = Some (base, k, i)" "k < RemainingCapacity v" for base k i
    using number_text[OF that] by auto
  then show ?thesis
    using s TextFormat_Log_eq[OF assms(1), of a] payload_wf_append[OF assms(1) appended_room[OF s]] by auto
qed

theorem TextFormat_Log_correct_witness:
  "\<exists>s. TextFormat_Log (Arg_i16 (- 1234)) \<lparr>bv_bytes = ''x '', bv_capacity = 255\<rparr> = Ret \<lparr>bv_bytes = ''x '' @ s, bv_capacity = 255\<rparr> \<and>
     (\<exists>t. s = t @ '' '' \<and> read_number 10 t = - 1234)"
proof -
  let ?v = "\<lparr>bv_bytes = ''x '', bv_capacity = 255\<rparr>"
  have "payload_wf ?v" "RemainingCapacity ?v = 253"
    by (simp_all add: payload_wf_def vector_size_def int32_max_def RemainingCapacity_def)
  moreover have "number_of (Arg_i16 (- 1234)) = Some (10, 6, - 1234)" by simp
  ultimately show ?thesis using TextFormat_Log_correct[of ?v "Arg_i16 (- 1234)"] by (auto simp: append_bytes_def)
qed

text \<open>
  C30: formatting is free of undefined behaviour in all cases but one: a raw buffer whose digits do not fit
  into an odd number of remaining bytes. There the two digits of a byte are written over the end of the
  buffer.
\<close>

theorem TextFormat_Log_undefined_iff:
  assumes "payload_wf v"
  shows "TextFormat_Log a v = Undefined \<longleftrightarrow>
    (\<exists>d. a = LogRawBuffer d \<and> odd (RemainingCapacity v) \<and> RemainingCapacity v < 2 * length d)"
  using TextFormat_Log_eq[OF assms, of a]
  by (cases a) (auto split: if_splits simp: not_less le_less)

theorem TextFormat_Log_undefined_iff_witness:
  "TextFormat_Log (LogRawBuffer [1, 2, 3]) \<lparr>bv_bytes = [], bv_capacity = 3\<rparr> = Undefined"
  using TextFormat_Log_undefined_iff[of "\<lparr>bv_bytes = [], bv_capacity = 3\<rparr>" "LogRawBuffer [1, 2, 3]"]
  by (simp add: payload_wf_def vector_size_def int32_max_def RemainingCapacity_def)

end
