(* ===== verification/Interleaving.thy ===== *)
theory Interleaving
  imports Main
begin

text \<open>
  Systems of clients that share memory and take atomic steps in any order: reachable states, invariants and
  the bound on the own steps of a client that makes an operation wait-free. The components with
  concurrent clients interpret the locales below for their step relations.
\<close>

section \<open>Reachable states\<close>

inductive reachable :: "('s \<Rightarrow> bool) \<Rightarrow> ('c \<Rightarrow> 's \<Rightarrow> 's \<Rightarrow> bool) \<Rightarrow> 's \<Rightarrow> bool" for init step where
  initial: "init s \<Longrightarrow> reachable init step s"
| move: "reachable init step s \<Longrightarrow> step c s s' \<Longrightarrow> reachable init step s'"

text \<open>
  Runs from one state to another with the number of steps that client \<open>c\<close> takes while it is busy. Other
  clients step as they like in between.
\<close>

inductive busy_run :: "('c \<Rightarrow> 's \<Rightarrow> 's \<Rightarrow> bool) \<Rightarrow> ('s \<Rightarrow> bool) \<Rightarrow> 'c \<Rightarrow> 's \<Rightarrow> nat \<Rightarrow> 's \<Rightarrow> bool" for step busy c s where
  here: "busy_run step busy c s 0 s"
| own: "busy_run step busy c s k s1 \<Longrightarrow> busy s1 \<Longrightarrow> step c s1 s2 \<Longrightarrow> busy_run step busy c s (Suc k) s2"
| other: "busy_run step busy c s k s1 \<Longrightarrow> d \<noteq> c \<Longrightarrow> step d s1 s2 \<Longrightarrow> busy_run step busy c s k s2"

section \<open>Invariants\<close>

locale invariant_system =
  fixes init :: "'s \<Rightarrow> bool" and step :: "'c \<Rightarrow> 's \<Rightarrow> 's \<Rightarrow> bool" and inv :: "'s \<Rightarrow> bool"
  assumes inv_init: "init s \<Longrightarrow> inv s"
    and inv_step: "inv s \<Longrightarrow> step c s s' \<Longrightarrow> inv s'"
begin

lemma reachable_inv: "reachable init step s \<Longrightarrow> inv s"
  by (induction rule: reachable.induct) (blast intro: inv_init inv_step)+

lemma busy_run_inv: "busy_run step busy c s k s' \<Longrightarrow> inv s \<Longrightarrow> inv s'"
  by (induction rule: busy_run.induct) (blast intro: inv_step)+

lemma busy_run_reachable: "busy_run step busy c s k s' \<Longrightarrow> reachable init step s \<Longrightarrow> reachable init step s'"
  by (induction rule: busy_run.induct) (blast intro: reachable.move)+

end

section \<open>Wait-freedom\<close>

text \<open>
  Every own step of a busy client lowers a number that the steps of the others do not touch, and a busy
  client can always take a step.
\<close>

locale wait_free_system = invariant_system init step inv
  for init :: "'s \<Rightarrow> bool" and step :: "'c \<Rightarrow> 's \<Rightarrow> 's \<Rightarrow> bool" and inv :: "'s \<Rightarrow> bool" +
  fixes busy :: "'c \<Rightarrow> 's \<Rightarrow> bool" and left :: "'c \<Rightarrow> 's \<Rightarrow> nat"
  assumes own_step: "inv s \<Longrightarrow> busy c s \<Longrightarrow> step c s s' \<Longrightarrow> left c s' < left c s"
    and other_step: "inv s \<Longrightarrow> d \<noteq> c \<Longrightarrow> step d s s' \<Longrightarrow> left c s' = left c s"
    and not_stuck: "inv s \<Longrightarrow> busy c s \<Longrightarrow> \<exists>s'. step c s s'"
begin

lemma busy_run_bound:
  assumes "busy_run step (busy c) c s k s'" "inv s"
  shows "k + left c s' \<le> left c s"
  using assms
proof (induction rule: busy_run.induct)
  case (own k s1 s2)
  then show ?case using own_step[of s1 c s2] busy_run_inv[OF own.hyps(1)] by fastforce
next
  case (other k s1 d s2)
  then show ?case using other_step[of s1 d c s2] busy_run_inv[OF other.hyps(1)] by fastforce
qed simp

lemma busy_run_extends:
  assumes "busy_run step (busy c) c s k s'" "inv s" "busy c s'"
  shows "\<exists>s''. busy_run step (busy c) c s (Suc k) s''"
  using not_stuck[OF busy_run_inv[OF assms(1,2)] assms(3)] busy_run.own[of step "busy c" c s k s'] assms(1,3) by blast

end

end
