(* ===== verification/Log_Slots.thy ===== *)
theory Log_Slots
  imports Prelude Interleaving "HOL-Library.Word"
begin

text \<open>
  The slots that log messages are written to, src/score/mw/log/detail/slot.h and circular_allocator.h.
  The operations are functions on the allocator, cut into the atomic accesses they make to shared memory;
  the step relation interleaves these accesses for any number of clients. The counter of claims
  and the loop limiter have the width of their types.
\<close>

section \<open>Slots\<close>

record 'a slot =
  slot_data :: 'a
  slot_in_use :: bool

definition Slot_ctor :: "'a \<Rightarrow> 'a slot" where
  "Slot_ctor initial_value = \<lparr>slot_data = initial_value, slot_in_use = False\<rparr>"

definition SetData :: "'a \<Rightarrow> 'a slot \<Rightarrow> 'a slot" where
  "SetData d s = s\<lparr>slot_data := d\<rparr>"

definition IsUsed :: "'a slot \<Rightarrow> bool" where
  "IsUsed s = slot_in_use s"

definition TryUse :: "'a slot \<Rightarrow> 'a slot \<times> bool" where
  "TryUse s = (if slot_in_use s then (s, False) else (s\<lparr>slot_in_use := True\<rparr>, True))"

definition Slot_Release :: "'a slot \<Rightarrow> 'a slot" where
  "Slot_Release s = s\<lparr>slot_in_use := False\<rparr>"

section \<open>Allocator\<close>

record 'a allocator =
  claimed_sequence :: "64 word"
  ca_buffer :: "'a slot list"

definition CircularAllocator_ctor :: "nat \<Rightarrow> 'a \<Rightarrow> 'a allocator" where
  "CircularAllocator_ctor capacity initial_value =
     \<lparr>claimed_sequence = 0, ca_buffer = map (SetData initial_value) (replicate capacity (Slot_ctor initial_value))\<rparr>"

text \<open>
  \<open>buffer_.capacity()\<close>: the vector is constructed with its final number of elements and never resized, for
  which the standard library allocates exactly these elements.
\<close>

definition buffer_capacity :: "'a allocator \<Rightarrow> nat" where
  [simp]: "buffer_capacity a = length (ca_buffer a)"

datatype acquire_state = Looping "32 word" | Claimed "32 word" nat | Acquired nat | GaveUp

text \<open>One access to the counter: the next index, or the end of the loop. The remainder by zero is undefined.\<close>

definition claim_index :: "32 word \<Rightarrow> 'a allocator \<Rightarrow> ('a allocator \<times> acquire_state) result" where
  "claim_index loop_limiter a = (
     let max_number_of_loops = length (ca_buffer a);
         loop_limiter = loop_limiter + 1;
         slot_index = unat (claimed_sequence a);
         a = a\<lparr>claimed_sequence := claimed_sequence a + 1\<rparr>
     in if buffer_capacity a = 0 then Undefined
        else let slot_index = slot_index mod buffer_capacity a
             in if unat loop_limiter > max_number_of_loops then Ret (a, GaveUp)
                else Ret (a, Claimed loop_limiter slot_index))"

text \<open>One access to the flag of the slot; \<open>at\<close> ends the program outside of the buffer.\<close>

definition try_index :: "32 word \<Rightarrow> nat \<Rightarrow> 'a allocator \<Rightarrow> ('a allocator \<times> acquire_state) result" where
  "try_index loop_limiter slot_index a = (
     if slot_index < length (ca_buffer a)
     then let (s, ok) = TryUse (ca_buffer a ! slot_index);
              a = a\<lparr>ca_buffer := (ca_buffer a)[slot_index := s]\<rparr>
          in Ret (a, if ok then Acquired slot_index else Looping loop_limiter)
     else Abort)"

definition acquire_access :: "'a allocator \<times> acquire_state \<Rightarrow> ('a allocator \<times> acquire_state) result" where
  "acquire_access s = (case s of
     (a, Looping l) \<Rightarrow> claim_index l a
   | (a, Claimed l i) \<Rightarrow> try_index l i a
   | (a, r) \<Rightarrow> Ret (a, r))"

fun acquiring :: "acquire_state \<Rightarrow> bool" where
  "acquiring (Looping l) = True"
| "acquiring (Claimed l i) = True"
| "acquiring _ = False"

definition AcquireSlotToWrite :: "nat \<Rightarrow> 'a allocator \<Rightarrow> ('a allocator \<times> nat option) run" where
  "AcquireSlotToWrite fuel a =
     bind_run (while_run fuel (\<lambda>s. Ret (acquiring (snd s))) acquire_access (a, Looping 0)) (\<lambda>(a, r).
     Some (Ret (a, case r of Acquired i \<Rightarrow> Some i | _ \<Rightarrow> None)))"

definition GetUnderlyingBufferFor :: "nat \<Rightarrow> 'a allocator \<Rightarrow> 'a result" where
  "GetUnderlyingBufferFor i a = (if i < length (ca_buffer a) then Ret (slot_data (ca_buffer a ! i)) else Abort)"

text \<open>A write through the reference that \<open>GetUnderlyingBufferFor\<close> returns.\<close>

definition write_slot :: "nat \<Rightarrow> 'a \<Rightarrow> 'a allocator \<Rightarrow> 'a allocator result" where
  "write_slot i d a = (
     if i < length (ca_buffer a)
     then Ret (a\<lparr>ca_buffer := (ca_buffer a)[i := SetData d (ca_buffer a ! i)]\<rparr>) else Abort)"

definition ReleaseSlot :: "nat \<Rightarrow> 'a allocator \<Rightarrow> 'a allocator result" where
  "ReleaseSlot i a = (
     if i < length (ca_buffer a)
     then Ret (a\<lparr>ca_buffer := (ca_buffer a)[i := Slot_Release (ca_buffer a ! i)]\<rparr>) else Abort)"

definition GetUsedCount :: "'a allocator \<Rightarrow> nat" where
  "GetUsedCount a = length (filter IsUsed (ca_buffer a))"

section \<open>Clients\<close>

text \<open>
  A client starts an acquisition, makes its accesses one at a time, works on the slot it got and releases
  it. Between any two of its accesses other clients may make theirs.
\<close>

datatype client_state = Idle | Acquiring acquire_state | Holding nat

record ('c, 'a) slots_system =
  shared :: "'a allocator"
  client :: "'c \<Rightarrow> client_state"

fun after_access :: "acquire_state \<Rightarrow> client_state" where
  "after_access (Acquired i) = Holding i"
| "after_access GaveUp = Idle"
| "after_access r = Acquiring r"

inductive slot_step :: "'c \<Rightarrow> ('c, 'a) slots_system \<Rightarrow> ('c, 'a) slots_system \<Rightarrow> bool" where
  start: "client s c = Idle \<Longrightarrow> slot_step c s (s\<lparr>client := (client s)(c := Acquiring (Looping 0))\<rparr>)"
| access: "client s c = Acquiring r \<Longrightarrow> acquire_access (shared s, r) = Ret (a, r') \<Longrightarrow>
    slot_step c s \<lparr>shared = a, client = (client s)(c := after_access r')\<rparr>"
| work: "client s c = Holding i \<Longrightarrow> write_slot i d (shared s) = Ret a \<Longrightarrow> slot_step c s (s\<lparr>shared := a\<rparr>)"
| release: "client s c = Holding i \<Longrightarrow> ReleaseSlot i (shared s) = Ret a \<Longrightarrow>
    slot_step c s \<lparr>shared = a, client = (client s)(c := Idle)\<rparr>"

inductive_cases slot_stepE: "slot_step c s s'"

definition slots_init :: "nat \<Rightarrow> 'a \<Rightarrow> ('c, 'a) slots_system \<Rightarrow> bool" where
  "slots_init n v s \<longleftrightarrow> s = \<lparr>shared = CircularAllocator_ctor n v, client = \<lambda>_. Idle\<rparr>"

section \<open>Mutual exclusion\<close>

definition slots_inv :: "nat \<Rightarrow> ('c, 'a) slots_system \<Rightarrow> bool" where
  "slots_inv n s \<longleftrightarrow> length (ca_buffer (shared s)) = n \<and>
     (\<forall>c i. client s c = Holding i \<longrightarrow> i < n) \<and>
     (\<forall>i<n. slot_in_use (ca_buffer (shared s) ! i) \<longleftrightarrow> (\<exists>c. client s c = Holding i)) \<and>
     (\<forall>c d i. client s c = Holding i \<longrightarrow> client s d = Holding i \<longrightarrow> c = d) \<and>
     (\<forall>c l i. client s c = Acquiring (Claimed l i) \<longrightarrow> i < n) \<and>
     (\<forall>c r. client s c = Acquiring r \<longrightarrow> acquiring r)"


lemma acquire_access_cases:
  assumes "acquire_access (a, r) = Ret (a', r')" "acquiring r" "length (ca_buffer a) = n" "\<And>l i. r = Claimed l i \<Longrightarrow> i < n"
  shows "(\<exists>l i. r' = Claimed l i \<and> i < n \<and> ca_buffer a' = ca_buffer a) \<or>
    (\<exists>l. r' = Looping l \<and> ca_buffer a' = ca_buffer a) \<or> (r' = GaveUp \<and> ca_buffer a' = ca_buffer a) \<or>
    (\<exists>i<n. r' = Acquired i \<and> \<not> slot_in_use (ca_buffer a ! i) \<and>
       ca_buffer a' = (ca_buffer a)[i := (ca_buffer a ! i)\<lparr>slot_in_use := True\<rparr>])"
proof (cases r)
  case (Looping l)
  then show ?thesis using assms(1,3)
    by (auto simp: acquire_access_def claim_index_def Let_def split: if_splits)
next
  case (Claimed l i)
  then show ?thesis using assms(1,3,4)
    by (auto simp: acquire_access_def try_index_def TryUse_def Let_def split: if_splits)
qed (use assms(2) in auto)

lemma slots_invD:
  assumes "slots_inv n s"
  shows "length (ca_buffer (shared s)) = n" "client s c = Holding i \<Longrightarrow> i < n"
    "i < n \<Longrightarrow> slot_in_use (ca_buffer (shared s) ! i) \<longleftrightarrow> (\<exists>c. client s c = Holding i)"
    "client s c = Holding i \<Longrightarrow> client s d = Holding i \<Longrightarrow> c = d"
    "client s c = Acquiring (Claimed l i) \<Longrightarrow> i < n" "client s c = Acquiring r \<Longrightarrow> acquiring r"
  using assms unfolding slots_inv_def by blast+

lemma slots_invI:
  assumes "length (ca_buffer (shared s)) = n" "\<And>c i. client s c = Holding i \<Longrightarrow> i < n"
    "\<And>i. i < n \<Longrightarrow> slot_in_use (ca_buffer (shared s) ! i) \<longleftrightarrow> (\<exists>c. client s c = Holding i)"
    "\<And>c d i. client s c = Holding i \<Longrightarrow> client s d = Holding i \<Longrightarrow> c = d"
    "\<And>c l i. client s c = Acquiring (Claimed l i) \<Longrightarrow> i < n" "\<And>c r. client s c = Acquiring r \<Longrightarrow> acquiring r"
  shows "slots_inv n s"
  using assms unfolding slots_inv_def by blast

lemma slots_inv_init: "slots_inv n \<lparr>shared = CircularAllocator_ctor n v, client = \<lambda>_. Idle\<rparr>"
  by (rule slots_invI) (simp_all add: CircularAllocator_ctor_def SetData_def Slot_ctor_def)

text \<open>The states after a step, by who holds which slot.\<close>

lemma slots_inv_change:
  assumes "slots_inv n s" "length (ca_buffer (shared s')) = n"
    "\<And>d i. client s' d = Holding i \<longleftrightarrow> holds d i" "\<And>d i. holds d i \<Longrightarrow> i < n"
    "\<And>i. i < n \<Longrightarrow> slot_in_use (ca_buffer (shared s') ! i) \<longleftrightarrow> (\<exists>d. holds d i)"
    "\<And>d e i. holds d i \<Longrightarrow> holds e i \<Longrightarrow> d = e"
    "\<And>d r. client s' d = Acquiring r \<Longrightarrow> client s d = Acquiring r \<or> (acquiring r \<and> (\<forall>l i. r = Claimed l i \<longrightarrow> i < n))"
  shows "slots_inv n s'"
proof (rule slots_invI)
  show "c = d" if "client s' c = Holding i" "client s' d = Holding i" for c d i
    using that assms(6) unfolding assms(3) by blast
  show "i < n" if "client s' c = Acquiring (Claimed l i)" for c l i
    using assms(7)[OF that] slots_invD(5)[OF assms(1)] by blast
  show "acquiring r" if "client s' c = Acquiring r" for c r
    using assms(7)[OF that] slots_invD(6)[OF assms(1)] by blast
qed (use assms(2-5) in auto)

lemma slots_inv_step:
  assumes inv: "slots_inv n s" and "slot_step c s s'"
  shows "slots_inv n s'"
  using assms(2)
proof cases
  case start
  show ?thesis
    by (rule slots_inv_change[OF inv, where holds = "\<lambda>d i. client s d = Holding i"])
      (use start slots_invD[OF inv] in \<open>auto split: if_splits\<close>)
next
  case (access r a r')
  have r: "acquiring r" "length (ca_buffer (shared s)) = n" "\<And>l i. r = Claimed l i \<Longrightarrow> i < n"
    using slots_invD[OF inv] access(2) by blast+
  from acquire_access_cases[OF access(3) r] consider
    (same) "ca_buffer a = ca_buffer (shared s)" "after_access r' = Idle \<or> (\<exists>l i. after_access r' = Acquiring (Claimed l i) \<and> i < n) \<or> (\<exists>l. after_access r' = Acquiring (Looping l))"
  | (got) i where "i < n" "r' = Acquired i" "\<not> slot_in_use (ca_buffer (shared s) ! i)"
      "ca_buffer a = (ca_buffer (shared s))[i := (ca_buffer (shared s) ! i)\<lparr>slot_in_use := True\<rparr>]"
    by fastforce
  then show ?thesis
  proof cases
    case same
    show ?thesis
      by (rule slots_inv_change[OF inv, where holds = "\<lambda>d i. client s d = Holding i"])
        (use access(1,2) same slots_invD[OF inv] in \<open>auto split: if_splits\<close>)
  next
    case got
    have free: "client s d \<noteq> Holding i" for d using slots_invD(3)[OF inv got(1)] got(3) by blast
    show ?thesis
      by (rule slots_inv_change[OF inv, where holds = "\<lambda>d j. if j = i then d = c else client s d = Holding j"])
        (use access(1,2) got free slots_invD[OF inv] r(2) in \<open>auto simp: nth_list_update split: if_splits\<close>)
  qed
next
  case (work i d a)
  then have a: "i < n" "ca_buffer a = (ca_buffer (shared s))[i := SetData d (ca_buffer (shared s) ! i)]"
    using slots_invD(1)[OF inv] by (auto simp: write_slot_def split: if_splits)
  have "slot_in_use (ca_buffer a ! j) = slot_in_use (ca_buffer (shared s) ! j)" if "j < n" for j
    using a that slots_invD(1)[OF inv] by (simp add: nth_list_update SetData_def)
  then show ?thesis
    by (intro slots_inv_change[OF inv, where holds = "\<lambda>d i. client s d = Holding i"])
      (use work(1) a slots_invD[OF inv] in auto)
next
  case (release i a)
  have i: "i < n" and a: "ca_buffer a = (ca_buffer (shared s))[i := Slot_Release (ca_buffer (shared s) ! i)]"
    using release(3) slots_invD(1)[OF inv] by (auto simp: ReleaseSlot_def split: if_splits)
  have own: "d \<noteq> c \<Longrightarrow> client s d \<noteq> Holding i" for d using slots_invD(4)[OF inv] release(2) by blast
  let ?holds = "\<lambda>d j. j \<noteq> i \<and> client s d = Holding j"
  have used: "slot_in_use (ca_buffer a ! j) \<longleftrightarrow> j \<noteq> i \<and> slot_in_use (ca_buffer (shared s) ! j)" if "j < n" for j
    using a that slots_invD(1)[OF inv] by (cases "j = i") (simp_all add: Slot_Release_def)
  show ?thesis
  proof (rule slots_inv_change[OF inv, where holds = ?holds])
    show "length (ca_buffer (shared s')) = n" using release(1) a slots_invD(1)[OF inv] by simp
    show "client s' d = Holding j \<longleftrightarrow> ?holds d j" for d j using release(1,2) own[of d] by (cases "d = c") auto
    show "slot_in_use (ca_buffer (shared s') ! j) \<longleftrightarrow> (\<exists>d. ?holds d j)" if "j < n" for j
      using used[OF that] slots_invD(3)[OF inv that] unfolding release(1) by simp
    show "client s d = Acquiring r \<or> (acquiring r \<and> (\<forall>l i. r = Claimed l i \<longrightarrow> i < n))" if "client s' d = Acquiring r" for d r
      using that release(1) by (simp split: if_splits)
  qed (use slots_invD(2,4)[OF inv] in blast)+
qed

interpretation exclusive: invariant_system "slots_init n v" slot_step "slots_inv n" for n v
  by unfold_locales (simp_all add: slots_init_def slots_inv_init slots_inv_step)

text \<open>The slot of a holder changes only by its own steps.\<close>

lemma held_slot_stable:
  assumes inv: "slots_inv n s" and "client s c = Holding i" "slot_step d s s'" "d \<noteq> c"
  shows "client s' c = Holding i \<and> ca_buffer (shared s') ! i = ca_buffer (shared s) ! i"
  using assms(3)
proof cases
  case (access r a r')
  have r: "acquiring r" "length (ca_buffer (shared s)) = n" "\<And>l j. r = Claimed l j \<Longrightarrow> j < n"
    using slots_invD[OF inv] access(2) by blast+
  have "slot_in_use (ca_buffer (shared s) ! i)" using slots_invD(2,3)[OF inv] assms(2) by blast
  moreover have "ca_buffer a = ca_buffer (shared s) \<or> (\<exists>j. \<not> slot_in_use (ca_buffer (shared s) ! j) \<and>
      ca_buffer a = (ca_buffer (shared s))[j := (ca_buffer (shared s) ! j)\<lparr>slot_in_use := True\<rparr>])"
    using acquire_access_cases[OF access(3) r] by fastforce
  ultimately have "ca_buffer a ! i = ca_buffer (shared s) ! i" by (metis nth_list_update_neq)
  then show ?thesis using access(1) assms(2,4) by simp
next
  case (work j e a)
  then have "j \<noteq> i" using slots_invD(4)[OF inv] assms(2,4) by blast
  then show ?thesis using work assms(2) by (auto simp: write_slot_def split: if_splits)
next
  case (release j a)
  then have "j \<noteq> i" using slots_invD(4)[OF inv] assms(2,4) by blast
  then show ?thesis using release assms(2,4) by (auto simp: ReleaseSlot_def split: if_splits)
qed (use assms(2,4) in auto)

section \<open>Acquisitions end\<close>

text \<open>How many accesses an acquisition can still make.\<close>

fun accesses_left :: "nat \<Rightarrow> acquire_state \<Rightarrow> nat" where
  "accesses_left n (Looping l) = 2 * (Suc n - unat l)"
| "accesses_left n (Claimed l i) = Suc (2 * (Suc n - unat l))"
| "accesses_left n _ = 0"

fun limiter_ok :: "nat \<Rightarrow> acquire_state \<Rightarrow> bool" where
  "limiter_ok n (Looping l) \<longleftrightarrow> unat l \<le> n"
| "limiter_ok n (Claimed l i) \<longleftrightarrow> unat l \<le> n"
| "limiter_ok n _ \<longleftrightarrow> True"

lemma unat_add_1: "unat (l :: 32 word) \<le> n \<Longrightarrow> n < 2 ^ 32 - 1 \<Longrightarrow> unat (l + 1) = Suc (unat l)"
  by (simp add: unat_word_ariths)

lemma acquire_access_progress:
  assumes "acquiring r" "limiter_ok n r" "n < 2 ^ 32 - 1" "0 < n" "length (ca_buffer a) = n" "\<And>l i. r = Claimed l i \<Longrightarrow> i < n"
  shows "\<exists>a' r'. acquire_access (a, r) = Ret (a', r') \<and> limiter_ok n r' \<and> accesses_left n r' < accesses_left n r \<and>
    length (ca_buffer a') = n \<and> (\<forall>l i. r' = Claimed l i \<longrightarrow> i < n)"
proof (cases r)
  case (Looping l)
  have "unat (l + 1) = Suc (unat l)" using unat_add_1[of l n] assms(2,3) Looping by simp
  then show ?thesis using Looping assms by (auto simp: acquire_access_def claim_index_def Let_def)
next
  case (Claimed l i)
  then show ?thesis using assms by (auto simp: acquire_access_def try_index_def TryUse_def Let_def)
qed (use assms(1) in auto)

lemma acquire_access_left:
  assumes "acquire_access (a, r) = Ret (a', r')" "acquiring r" "limiter_ok n r" "n < 2 ^ 32 - 1" "length (ca_buffer a) = n"
  shows "limiter_ok n r' \<and> accesses_left n r' < accesses_left n r"
proof (cases r)
  case (Looping l)
  have "unat (l + 1) = Suc (unat l)" using unat_add_1[of l n] assms(3,4) Looping by simp
  then show ?thesis using Looping assms by (auto simp: acquire_access_def claim_index_def Let_def split: if_splits)
next
  case (Claimed l i)
  then show ?thesis using assms by (auto simp: acquire_access_def try_index_def TryUse_def Let_def split: if_splits)
qed (use assms(2) in auto)

definition slots_live_inv :: "nat \<Rightarrow> ('c, 'a) slots_system \<Rightarrow> bool" where
  "slots_live_inv n s \<longleftrightarrow> slots_inv n s \<and>
     (n < 2 ^ 32 - 1 \<longrightarrow> (\<forall>c r. client s c = Acquiring r \<longrightarrow> limiter_ok n r))"

definition busy_acquiring :: "nat \<Rightarrow> 'c \<Rightarrow> ('c, 'a) slots_system \<Rightarrow> bool" where
  "busy_acquiring n c s \<longleftrightarrow> 0 < n \<and> n < 2 ^ 32 - 1 \<and> (\<exists>r. client s c = Acquiring r)"

definition steps_left :: "nat \<Rightarrow> 'c \<Rightarrow> ('c, 'a) slots_system \<Rightarrow> nat" where
  "steps_left n c s = (case client s c of Acquiring r \<Rightarrow> accesses_left n r | _ \<Rightarrow> 0)"

lemma slots_live_inv_step:
  assumes "slots_live_inv n s" "slot_step c s s'"
  shows "slots_live_inv n s'"
proof -
  have inv: "slots_inv n s" using assms(1) by (simp add: slots_live_inv_def)
  have "limiter_ok n q" if n: "n < 2 ^ 32 - 1" and q: "client s' d = Acquiring q" for d q
  proof -
    have old: "client s e = Acquiring r \<Longrightarrow> limiter_ok n r" for e r using assms(1) n by (simp add: slots_live_inv_def)
    from assms(2) show ?thesis
    proof cases
      case (access r a r')
      have "limiter_ok n r'"
        using acquire_access_left[OF access(3) slots_invD(6)[OF inv access(2)] old[OF access(2)] n slots_invD(1)[OF inv]] by blast
      then show ?thesis using q access(1) old by (cases r') (auto split: if_splits)
    qed (use q old in \<open>auto split: if_splits\<close>)
  qed
  then show ?thesis using slots_inv_step[OF inv assms(2)] by (simp add: slots_live_inv_def)
qed

interpretation live: wait_free_system "slots_init n v" slot_step "slots_live_inv n" "busy_acquiring n" "steps_left n" for n v
proof unfold_locales
  fix s s' :: "('c, 'a) slots_system" and c d
  show "slots_init n v s \<Longrightarrow> slots_live_inv n s" by (simp add: slots_init_def slots_live_inv_def slots_inv_init)
  show "slots_live_inv n s \<Longrightarrow> slot_step c s s' \<Longrightarrow> slots_live_inv n s'" by (rule slots_live_inv_step)
  show "steps_left n c s' < steps_left n c s" if asm: "slots_live_inv n s" "busy_acquiring n c s" "slot_step c s s'"
  proof -
    obtain r where r: "client s c = Acquiring r" "0 < n" "n < 2 ^ 32 - 1" using asm(2) by (auto simp: busy_acquiring_def)
    from asm(3) show ?thesis
    proof cases
      case (access q a r')
      then have "accesses_left n r' < accesses_left n r"
        using acquire_access_left[of "shared s" r a r' n] asm(1) r slots_invD(1,6)[of n s] by (auto simp: slots_live_inv_def)
      then show ?thesis using access r by (cases r') (auto simp: steps_left_def)
    qed (use r in auto)
  qed
  show "steps_left n c s' = steps_left n c s" if "slots_live_inv n s" "d \<noteq> c" "slot_step d s s'"
    using that(3,2) by cases (auto simp: steps_left_def)
  show "\<exists>s'. slot_step c s s'" if inv: "slots_live_inv n s" and busy: "busy_acquiring n c s"
  proof -
    obtain r where r: "client s c = Acquiring r" "0 < n" "n < 2 ^ 32 - 1" using busy by (auto simp: busy_acquiring_def)
    have "\<exists>a r'. acquire_access (shared s, r) = Ret (a, r')"
      using acquire_access_progress[of r n "shared s"] inv r slots_invD(1,5,6)[of n s] by (fastforce simp: slots_live_inv_def)
    then show ?thesis using slot_step.access[OF r(1)] by blast
  qed
qed


section \<open>An undisturbed acquisition\<close>

lemma unat_add_1_64: "unat (w :: 64 word) + 1 < 2 ^ 64 \<Longrightarrow> unat (w + 1) = Suc (unat w)"
  by (simp add: unat_word_ariths)

lemma acquire_loop:
  assumes "length (ca_buffer a) = n" "n < 2 ^ 32 - 1" "unat l + j = n" "unat (claimed_sequence a) = m + unat l"
    "m + n + 1 < 2 ^ 64" "0 < n" "2 * j + 1 < fuel"
  shows "\<exists>a' r. while_run fuel (\<lambda>s. Ret (acquiring (snd s))) acquire_access (a, Looping l) = Some (Ret (a', r)) \<and>
    ((r = GaveUp \<and> ca_buffer a' = ca_buffer a \<and>
        (\<forall>k. unat l \<le> k \<longrightarrow> k < n \<longrightarrow> slot_in_use (ca_buffer a ! ((m + k) mod n)))) \<or>
     (\<exists>i<n. r = Acquired i \<and> \<not> slot_in_use (ca_buffer a ! i) \<and>
        ca_buffer a' = (ca_buffer a)[i := (ca_buffer a ! i)\<lparr>slot_in_use := True\<rparr>]))"
  using assms
proof (induction j arbitrary: a l fuel)
  case 0
  then obtain f where "fuel = Suc (Suc f)" by (cases fuel; cases "fuel - 1") auto
  moreover have "unat (l + 1) = Suc (unat l)" using unat_add_1[of l n] 0 by simp
  ultimately show ?case using 0 by (auto simp: acquire_access_def claim_index_def Let_def)
next
  case (Suc j)
  then obtain f where f: "fuel = Suc (Suc f)" "2 * j + 1 < f" by (cases fuel; cases "fuel - 1") auto
  let ?i = "(m + unat l) mod n" and ?a = "a\<lparr>claimed_sequence := claimed_sequence a + 1\<rparr>"
  have l: "unat (l + 1) = Suc (unat l)" using unat_add_1[of l n] Suc.prems by simp
  have seq: "unat (claimed_sequence a + 1) = Suc (m + unat l)"
    using unat_add_1_64[of "claimed_sequence a"] Suc.prems(3-5) by simp
  have claim: "acquire_access (a, Looping l) = Ret (?a, Claimed (l + 1) ?i)"
    using Suc.prems l by (auto simp: acquire_access_def claim_index_def Let_def)
  have i: "?i < n" using Suc.prems(6) by simp
  show ?case
  proof (cases "slot_in_use (ca_buffer a ! ?i)")
    case False
    then have "acquire_access (?a, Claimed (l + 1) ?i) =
      Ret (?a\<lparr>ca_buffer := (ca_buffer a)[?i := (ca_buffer a ! ?i)\<lparr>slot_in_use := True\<rparr>]\<rparr>, Acquired ?i)"
      using i Suc.prems(1) by (simp add: acquire_access_def try_index_def TryUse_def)
    moreover obtain g where "f = Suc g" using f(2) by (cases f) auto
    ultimately show ?thesis using claim f(1) i False by auto
  next
    case True
    then have "acquire_access (?a, Claimed (l + 1) ?i) = Ret (?a, Looping (l + 1))"
      using i Suc.prems(1) by (simp add: acquire_access_def try_index_def TryUse_def)
    then have run: "while_run fuel (\<lambda>s. Ret (acquiring (snd s))) acquire_access (a, Looping l) =
      while_run f (\<lambda>s. Ret (acquiring (snd s))) acquire_access (?a, Looping (l + 1))"
      using claim f(1) by simp
    have "\<exists>a' r. while_run f (\<lambda>s. Ret (acquiring (snd s))) acquire_access (?a, Looping (l + 1)) = Some (Ret (a', r)) \<and>
      ((r = GaveUp \<and> ca_buffer a' = ca_buffer ?a \<and>
          (\<forall>k. unat (l + 1) \<le> k \<longrightarrow> k < n \<longrightarrow> slot_in_use (ca_buffer ?a ! ((m + k) mod n)))) \<or>
       (\<exists>i<n. r = Acquired i \<and> \<not> slot_in_use (ca_buffer ?a ! i) \<and>
          ca_buffer a' = (ca_buffer ?a)[i := (ca_buffer ?a ! i)\<lparr>slot_in_use := True\<rparr>]))"
      by (rule Suc.IH) (use Suc.prems l seq f(2) in auto)
    moreover have "\<forall>k. unat l \<le> k \<longrightarrow> k < n \<longrightarrow> slot_in_use (ca_buffer a ! ((m + k) mod n))"
      if "\<forall>k. unat (l + 1) \<le> k \<longrightarrow> k < n \<longrightarrow> slot_in_use (ca_buffer a ! ((m + k) mod n))"
      using that True l by (metis Suc_leI le_neq_implies_less)
    ultimately show ?thesis unfolding run by auto
  qed
qed

lemma mod_shift_onto: "(i::nat) < n \<Longrightarrow> \<exists>k<n. (m + k) mod n = i"
proof -
  assume i: "i < n"
  let ?k = "(i + (n - m mod n)) mod n"
  have "(m + ?k) mod n = (m mod n + (i + (n - m mod n))) mod n" by (simp add: mod_simps)
  also have "m mod n + (i + (n - m mod n)) = i + n" using i mod_less_divisor[of n m] by linarith
  also have "(i + n) mod n = i" using i by simp
  finally show ?thesis using i by (intro exI[of _ ?k]) simp
qed

lemma AcquireSlotToWrite_eq:
  assumes "length (ca_buffer a) = n" "0 < n" "n < 2 ^ 32 - 1" "unat (claimed_sequence a) + n + 1 < 2 ^ 64" "2 * n + 1 < fuel"
  shows "\<exists>a' r. AcquireSlotToWrite fuel a = Some (Ret (a', r)) \<and>
    ((r = None \<and> ca_buffer a' = ca_buffer a \<and> (\<forall>i<n. slot_in_use (ca_buffer a ! i))) \<or>
     (\<exists>i<n. r = Some i \<and> \<not> slot_in_use (ca_buffer a ! i) \<and>
        ca_buffer a' = (ca_buffer a)[i := (ca_buffer a ! i)\<lparr>slot_in_use := True\<rparr>]))"
proof -
  let ?m = "unat (claimed_sequence a)"
  obtain a' r where run: "while_run fuel (\<lambda>s. Ret (acquiring (snd s))) acquire_access (a, Looping 0) = Some (Ret (a', r))"
    and r: "(r = GaveUp \<and> ca_buffer a' = ca_buffer a \<and> (\<forall>k. k < n \<longrightarrow> slot_in_use (ca_buffer a ! ((?m + k) mod n)))) \<or>
     (\<exists>i<n. r = Acquired i \<and> \<not> slot_in_use (ca_buffer a ! i) \<and>
        ca_buffer a' = (ca_buffer a)[i := (ca_buffer a ! i)\<lparr>slot_in_use := True\<rparr>])"
    using acquire_loop[of a n 0 n ?m fuel] assms by auto
  have "\<forall>k<n. slot_in_use (ca_buffer a ! ((?m + k) mod n)) \<Longrightarrow> \<forall>i<n. slot_in_use (ca_buffer a ! i)"
    using mod_shift_onto[of _ n ?m] by metis
  then show ?thesis using run r by (auto simp: AcquireSlotToWrite_def)
qed

section \<open>Properties\<close>

lemma holder_operations:
  assumes "slots_inv n s" "client s c = Holding i"
  shows "GetUnderlyingBufferFor i (shared s) = Ret (slot_data (ca_buffer (shared s) ! i))"
    "\<exists>a. write_slot i d (shared s) = Ret a \<and> ca_buffer a = (ca_buffer (shared s))[i := (ca_buffer (shared s) ! i)\<lparr>slot_data := d\<rparr>]"
    "\<exists>a. ReleaseSlot i (shared s) = Ret a \<and> ca_buffer a = (ca_buffer (shared s))[i := (ca_buffer (shared s) ! i)\<lparr>slot_in_use := False\<rparr>]"
proof -
  have "i < n" "slot_in_use (ca_buffer (shared s) ! i)" using slots_invD(2,3)[OF assms(1)] assms(2) by blast+
  then show "GetUnderlyingBufferFor i (shared s) = Ret (slot_data (ca_buffer (shared s) ! i))"
    "\<exists>a. write_slot i d (shared s) = Ret a \<and> ca_buffer a = (ca_buffer (shared s))[i := (ca_buffer (shared s) ! i)\<lparr>slot_data := d\<rparr>]"
    "\<exists>a. ReleaseSlot i (shared s) = Ret a \<and> ca_buffer a = (ca_buffer (shared s))[i := (ca_buffer (shared s) ! i)\<lparr>slot_in_use := False\<rparr>]"
    using slots_invD(1)[OF assms(1)]
    by (simp_all add: GetUnderlyingBufferFor_def write_slot_def SetData_def ReleaseSlot_def Slot_Release_def)
qed

text \<open>
  C31: in every interleaving of any number of clients a slot has at most one holder, it is marked as in use
  exactly while it is held, and no step of another client changes its data or its mark. The holder can
  always read, write and release its slot: no call ends the program, a write changes the data of this slot
  only and a release its mark only.
\<close>

theorem slots_exclusive:
  assumes "reachable (slots_init n v) slot_step s"
  shows "(\<forall>i<n. slot_in_use (ca_buffer (shared s) ! i) \<longleftrightarrow> (\<exists>c. client s c = Holding i)) \<and>
    (\<forall>c i. client s c = Holding i \<longrightarrow>
      i < n \<and> (\<forall>d. client s d = Holding i \<longrightarrow> d = c) \<and>
      (\<forall>d s'. d \<noteq> c \<longrightarrow> slot_step d s s' \<longrightarrow>
         client s' c = Holding i \<and> ca_buffer (shared s') ! i = ca_buffer (shared s) ! i) \<and>
      GetUnderlyingBufferFor i (shared s) = Ret (slot_data (ca_buffer (shared s) ! i)) \<and>
      (\<forall>d. \<exists>a. write_slot i d (shared s) = Ret a \<and>
         ca_buffer a = (ca_buffer (shared s))[i := (ca_buffer (shared s) ! i)\<lparr>slot_data := d\<rparr>]) \<and>
      (\<exists>a. ReleaseSlot i (shared s) = Ret a \<and>
         ca_buffer a = (ca_buffer (shared s))[i := (ca_buffer (shared s) ! i)\<lparr>slot_in_use := False\<rparr>]))"
proof -
  have inv: "slots_inv n s" using exclusive.reachable_inv[OF assms(1)] .
  show ?thesis
  proof (intro conjI allI impI)
    fix c d i assume c: "client s c = Holding i"
    show "i < n" "client s d = Holding i \<Longrightarrow> d = c" using slots_invD(2,4)[OF inv] c by blast+
    show "client s' c = Holding i" "ca_buffer (shared s') ! i = ca_buffer (shared s) ! i" if "d \<noteq> c" "slot_step d s s'" for s'
      using held_slot_stable[OF inv c that(2,1)] by simp_all
  qed (use slots_invD(3)[OF inv] holder_operations[OF inv] in simp_all)
qed

text \<open>A client that takes the only slot.\<close>

definition one_slot :: "acquire_state \<Rightarrow> (nat, nat) slots_system" where
  "one_slot r = \<lparr>shared = \<lparr>claimed_sequence = (if r = Looping 0 then 0 else 1),
      ca_buffer = [\<lparr>slot_data = 0, slot_in_use = (r = Acquired 0)\<rparr>]\<rparr>, client = (\<lambda>_. Idle)(0 := after_access r)\<rparr>"

lemma one_slot_steps:
  "reachable (slots_init 1 0) slot_step (one_slot (Looping 0))"
  "slot_step 0 (one_slot (Looping 0)) (one_slot (Claimed 1 0))"
  "slot_step 0 (one_slot (Claimed 1 0)) (one_slot (Acquired 0))"
proof -
  let ?i = "\<lparr>shared = CircularAllocator_ctor 1 (0::nat), client = \<lambda>_::nat. Idle\<rparr>"
  have "slot_step 0 ?i (?i\<lparr>client := (client ?i)(0 := Acquiring (Looping 0))\<rparr>)" by (rule slot_step.start) simp
  moreover have "?i\<lparr>client := (client ?i)(0 := Acquiring (Looping 0))\<rparr> = one_slot (Looping 0)"
    by (simp add: one_slot_def CircularAllocator_ctor_def Slot_ctor_def SetData_def)
  moreover have "reachable (slots_init 1 0) slot_step ?i" by (rule reachable.initial) (simp add: slots_init_def)
  ultimately show "reachable (slots_init 1 0) slot_step (one_slot (Looping 0))" by (metis reachable.move)
  have upd: "((\<lambda>_. Idle)(0 := x))(0 := y) = (\<lambda>_. Idle)(0 := y)" for x y :: client_state by simp
  show "slot_step 0 (one_slot (Looping 0)) (one_slot (Claimed 1 0))"
    using slot_step.access[of "one_slot (Looping 0)" 0 "Looping 0" "shared (one_slot (Claimed 1 0))" "Claimed 1 0"]
    by (simp add: one_slot_def acquire_access_def claim_index_def)
  show "slot_step 0 (one_slot (Claimed 1 0)) (one_slot (Acquired 0))"
    using slot_step.access[of "one_slot (Claimed 1 0)" 0 "Claimed 1 0" "shared (one_slot (Acquired 0))" "Acquired 0"]
    by (simp add: one_slot_def acquire_access_def try_index_def TryUse_def)
qed

theorem slots_exclusive_witness:
  "client (one_slot (Acquired 0)) 0 = Holding 0 \<and> (\<exists>a. write_slot 0 7 (shared (one_slot (Acquired 0))) = Ret a) \<and>
   (\<exists>a. ReleaseSlot 0 (shared (one_slot (Acquired 0))) = Ret a)"
proof -
  have reach: "reachable (slots_init 1 0) slot_step (one_slot (Acquired 0))"
    using one_slot_steps by (metis reachable.move)
  have holder: "client (one_slot (Acquired 0)) 0 = Holding 0" by (simp add: one_slot_def)
  show ?thesis
    using holder slots_exclusive[OF reach, THEN conjunct2, THEN spec, THEN spec, THEN mp, OF holder] by blast
qed

text \<open>
  C32: an acquisition is wait-free: however the accesses of other clients fall in between, it returns after
  at most \<open>2 * n + 2\<close> accesses of its own for \<open>n\<close> slots, and until then it can always make the next one.
\<close>

theorem acquire_wait_free:
  assumes "reachable (slots_init n v) slot_step s" "0 < n" "n < 2 ^ 32 - 1" "client s c = Acquiring (Looping 0)"
    "busy_run slot_step (busy_acquiring n c) c s k s'"
  shows "k \<le> 2 * n + 2 \<and> ((\<exists>r. client s' c = Acquiring r) \<longrightarrow> k < 2 * n + 2 \<and> (\<exists>s''. slot_step c s' s''))"
proof -
  have inv: "slots_live_inv n s" using live.reachable_inv[OF assms(1)] .
  have bound: "k + steps_left n c s' \<le> 2 * n + 2"
    using live.busy_run_bound[OF assms(5) inv] assms(4) by (simp add: steps_left_def)
  have inv': "slots_live_inv n s'" using live.busy_run_inv[OF assms(5) inv] .
  have "k < 2 * n + 2 \<and> (\<exists>s''. slot_step c s' s'')" if "client s' c = Acquiring r" for r
  proof -
    have "busy_acquiring n c s'" using that assms(2,3) by (auto simp: busy_acquiring_def)
    then obtain s'' where "slot_step c s' s''" using live.not_stuck[OF inv'] by blast
    moreover from this have "steps_left n c s'' < steps_left n c s'"
      using live.own_step[OF inv' \<open>busy_acquiring n c s'\<close>] by blast
    ultimately show ?thesis using bound by auto
  qed
  then show ?thesis using bound by auto
qed

theorem acquire_wait_free_witness:
  "busy_run slot_step (busy_acquiring 1 0) 0 (one_slot (Looping 0)) 2 (one_slot (Acquired 0)) \<and> (2::nat) \<le> 2 * 1 + 2"
proof -
  have "busy_acquiring 1 0 (one_slot (Looping 0))" "busy_acquiring 1 0 (one_slot (Claimed 1 0))"
    by (simp_all add: busy_acquiring_def one_slot_def)
  then have "busy_run slot_step (busy_acquiring 1 0) 0 (one_slot (Looping 0)) (Suc (Suc 0)) (one_slot (Acquired 0))"
    using one_slot_steps(2,3) by (blast intro: busy_run.intros)
  moreover from this have "Suc (Suc 0) \<le> 2 * 1 + 2"
    using acquire_wait_free[OF one_slot_steps(1), of 0 "Suc (Suc 0)" "one_slot (Acquired 0)"] by (simp add: one_slot_def)
  ultimately show ?thesis by (simp add: numeral_2_eq_2)
qed

text \<open>
  C33: an acquisition that is not disturbed finds a slot whenever one is free: it returns the index of a
  slot that was not in use, marked now, and returns nothing only when all are in use. The counter of
  claims must not wrap around during the call.
\<close>

theorem AcquireSlotToWrite_complete:
  assumes "length (ca_buffer a) = n" "0 < n" "n < 2 ^ 32 - 1" "unat (claimed_sequence a) + n + 1 < 2 ^ 64" "2 * n + 1 < fuel"
  shows "\<exists>a' r. AcquireSlotToWrite fuel a = Some (Ret (a', r)) \<and>
    (r = None \<longleftrightarrow> (\<forall>i<n. slot_in_use (ca_buffer a ! i))) \<and> (r = None \<longrightarrow> ca_buffer a' = ca_buffer a) \<and>
    (\<forall>i. r = Some i \<longrightarrow> i < n \<and> \<not> slot_in_use (ca_buffer a ! i) \<and>
       ca_buffer a' = (ca_buffer a)[i := (ca_buffer a ! i)\<lparr>slot_in_use := True\<rparr>])"
  using AcquireSlotToWrite_eq[OF assms] by auto

theorem AcquireSlotToWrite_complete_witness:
  "\<exists>a'. AcquireSlotToWrite 6 (CircularAllocator_ctor 2 (0::nat)) = Some (Ret (a', Some 0)) \<or>
        AcquireSlotToWrite 6 (CircularAllocator_ctor 2 (0::nat)) = Some (Ret (a', Some 1))"
proof -
  let ?a = "CircularAllocator_ctor 2 (0::nat)"
  have a: "length (ca_buffer ?a) = 2" "unat (claimed_sequence ?a) + 2 + 1 < 2 ^ 64" "\<not> slot_in_use (ca_buffer ?a ! 0)"
    by (simp_all add: CircularAllocator_ctor_def Slot_ctor_def SetData_def)
  then obtain a' r where ar: "AcquireSlotToWrite 6 ?a = Some (Ret (a', r))" "r \<noteq> None" "\<And>i. r = Some i \<Longrightarrow> i < 2"
    using AcquireSlotToWrite_complete[of ?a 2 6] by auto
  then obtain i where "r = Some i" "i < 2" by auto
  then have "r = Some 0 \<or> r = Some 1" by auto
  then show ?thesis using ar(1) by auto
qed

end
