(* ===== verification/Wait_Free_Stack.thy ===== *)
theory Wait_Free_Stack
  imports Prelude Interleaving "HOL-Library.Word"
begin

text \<open>
  The push-only stack behind the loggers, src/score/mw/log/detail/wait_free_stack/wait_free_stack.h. Both
  operations are cut at their accesses to shared memory; the step relation interleaves the accesses of
  finitely many clients. The index counter is a machine word, and reading an empty element ends the program.
\<close>

section \<open>Memory and operations\<close>

record 'e stack_mem =
  elements :: "'e option list"
  elements_written :: "int list"
  write_index :: "64 word"
  capacity_full :: bool

definition WaitFreeStack_ctor :: "nat \<Rightarrow> 'e stack_mem" where
  "WaitFreeStack_ctor max_number_of_elements =
     \<lparr>elements = replicate max_number_of_elements None, elements_written = replicate max_number_of_elements 0,
      write_index = 0, capacity_full = False\<rparr>"

text \<open>Where an operation stands: its next access, or its result as an index of the stack.\<close>

datatype 'e op_state =
    Push_check 'e | Push_claim 'e | Push_full | Push_write 'e nat | Push_publish nat | Push_result nat
  | Find_check "'e \<Rightarrow> bool" nat | Find_written "'e \<Rightarrow> bool" nat | Find_test "'e \<Rightarrow> bool" nat
  | Done "nat option"

fun push_access :: "'e stack_mem \<Rightarrow> 'e op_state \<Rightarrow> ('e stack_mem \<times> 'e op_state) result" where
  "push_access m (Push_check e) = Ret (m, if capacity_full m then Done None else Push_claim e)"
| "push_access m (Push_claim e) = (
     let current_write_index = unat (write_index m)
     in Ret (m\<lparr>write_index := write_index m + 1\<rparr>,
             if current_write_index \<ge> length (elements m) then Push_full else Push_write e current_write_index))"
| "push_access m Push_full = Ret (m\<lparr>capacity_full := True\<rparr>, Done None)"
| "push_access m (Push_write e i) = (
     if i < length (elements m) then Ret (m\<lparr>elements := (elements m)[i := Some e]\<rparr>, Push_publish i) else Undefined)"
| "push_access m (Push_publish i) = (
     if i < length (elements_written m)
     then Ret (m\<lparr>elements_written := (elements_written m)[i := 1]\<rparr>, Push_result i) else Undefined)"
| "push_access m (Push_result i) = (
     if i < length (elements m)
     then (case elements m ! i of None \<Rightarrow> Abort | Some _ \<Rightarrow> Ret (m, Done (Some i))) else Undefined)"
| "push_access m r = Ret (m, r)"

fun find_access :: "'e stack_mem \<Rightarrow> 'e op_state \<Rightarrow> ('e stack_mem \<times> 'e op_state) result" where
  "find_access m (Find_check predicate i) =
     Ret (m, if i < length (elements m) \<and> i \<le> unat (write_index m) then Find_written predicate i else Done None)"
| "find_access m (Find_written predicate i) = (
     if i < length (elements_written m)
     then Ret (m, if elements_written m ! i \<noteq> 0 then Find_test predicate i else Find_check predicate (Suc i))
     else Undefined)"
| "find_access m (Find_test predicate i) = (
     if i < length (elements m)
     then (case elements m ! i of
             None \<Rightarrow> Abort
           | Some e \<Rightarrow> Ret (m, if predicate e then Done (Some i) else Find_check predicate (Suc i)))
     else Undefined)"
| "find_access m r = Ret (m, r)"

fun is_push :: "'e op_state \<Rightarrow> bool" where
  "is_push (Find_check _ _) = False"
| "is_push (Find_written _ _) = False"
| "is_push (Find_test _ _) = False"
| "is_push (Done _) = False"
| "is_push _ = True"

definition stack_access :: "'e stack_mem \<times> 'e op_state \<Rightarrow> ('e stack_mem \<times> 'e op_state) result" where
  "stack_access s = (if is_push (snd s) then push_access (fst s) (snd s) else find_access (fst s) (snd s))"

fun is_done :: "'e op_state \<Rightarrow> bool" where
  "is_done (Done _) = True"
| "is_done _ = False"

text \<open>The operations as they run when no other client interferes.\<close>

definition run_op :: "nat \<Rightarrow> 'e stack_mem \<Rightarrow> 'e op_state \<Rightarrow> ('e stack_mem \<times> nat option) run" where
  "run_op fuel m r = bind_run (while_run fuel (\<lambda>s. Ret (\<not> is_done (snd s))) stack_access (m, r)) (\<lambda>(m, r).
     Some (Ret (m, case r of Done i \<Rightarrow> i | _ \<Rightarrow> None)))"

definition TryPush :: "nat \<Rightarrow> 'e \<Rightarrow> 'e stack_mem \<Rightarrow> ('e stack_mem \<times> nat option) run" where
  "TryPush fuel element m = run_op fuel m (Push_check element)"

definition Find :: "nat \<Rightarrow> ('e \<Rightarrow> bool) \<Rightarrow> 'e stack_mem \<Rightarrow> ('e stack_mem \<times> nat option) run" where
  "Find fuel predicate m = run_op fuel m (Find_check predicate 0)"

section \<open>Clients\<close>

record ('c, 'e) stack_system =
  mem :: "'e stack_mem"
  op :: "'c \<Rightarrow> 'e op_state"

inductive stack_step :: "'c \<Rightarrow> ('c, 'e) stack_system \<Rightarrow> ('c, 'e) stack_system \<Rightarrow> bool" where
  call_push: "op s c = Done r \<Longrightarrow> stack_step c s (s\<lparr>op := (op s)(c := Push_check e)\<rparr>)"
| call_find: "op s c = Done r \<Longrightarrow> stack_step c s (s\<lparr>op := (op s)(c := Find_check q 0)\<rparr>)"
| access: "\<not> is_done (op s c) \<Longrightarrow> stack_access (mem s, op s c) = Ret (m, r) \<Longrightarrow>
    stack_step c s \<lparr>mem = m, op = (op s)(c := r)\<rparr>"

definition stack_init :: "nat \<Rightarrow> ('c, 'e) stack_system \<Rightarrow> bool" where
  "stack_init n s \<longleftrightarrow> s = \<lparr>mem = WaitFreeStack_ctor n, op = \<lambda>_. Done None\<rparr>"

section \<open>Assertions\<close>

definition mem_ok :: "nat \<Rightarrow> 'e stack_mem \<Rightarrow> bool" where
  "mem_ok n m \<longleftrightarrow> length (elements m) = n \<and> length (elements_written m) = n \<and>
     (\<forall>i<n. unat (write_index m) \<le> i \<longrightarrow> elements m ! i = None) \<and>
     (\<forall>i<n. elements_written m ! i \<noteq> 0 \<longrightarrow> elements m ! i \<noteq> None) \<and>
     (capacity_full m \<longrightarrow> n \<le> unat (write_index m))"

text \<open>What holds while an operation stands at an access, as far as it is about this operation alone.\<close>

fun op_ok :: "nat \<Rightarrow> 'e stack_mem \<Rightarrow> 'e op_state \<Rightarrow> bool" where
  "op_ok n m (Push_write e i) \<longleftrightarrow> i < n \<and> i < unat (write_index m) \<and> elements m ! i = None \<and> elements_written m ! i = 0"
| "op_ok n m (Push_publish i) \<longleftrightarrow> i < n \<and> i < unat (write_index m) \<and> elements m ! i \<noteq> None \<and> elements_written m ! i = 0"
| "op_ok n m Push_full \<longleftrightarrow> n \<le> unat (write_index m)"
| "op_ok n m (Push_result i) \<longleftrightarrow> i < n \<and> elements_written m ! i \<noteq> 0"
| "op_ok n m (Find_check q i) \<longleftrightarrow> i \<le> n"
| "op_ok n m (Find_written q i) \<longleftrightarrow> i < n"
| "op_ok n m (Find_test q i) \<longleftrightarrow> i < n \<and> elements_written m ! i \<noteq> 0"
| "op_ok n m _ \<longleftrightarrow> True"

text \<open>The element a push has claimed and not published yet.\<close>

fun owns :: "'e op_state \<Rightarrow> nat option" where
  "owns (Push_write e i) = Some i"
| "owns (Push_publish i) = Some i"
| "owns _ = None"

fun is_claiming :: "'e op_state \<Rightarrow> bool" where
  "is_claiming (Push_claim e) = True"
| "is_claiming _ = False"

text \<open>The counter can only pass the capacity by clients that have claimed or are about to.\<close>

definition index_ok :: "nat \<Rightarrow> ('c::finite, 'e) stack_system \<Rightarrow> bool" where
  "index_ok n s \<longleftrightarrow>
     unat (write_index (mem s)) + card {c. is_claiming (op s c)} \<le> n + card (UNIV :: 'c set) \<and>
     (\<not> capacity_full (mem s) \<longrightarrow> unat (write_index (mem s)) \<le> n + card {c. op s c = Push_full})"

definition stack_inv :: "nat \<Rightarrow> ('c::finite, 'e) stack_system \<Rightarrow> bool" where
  "stack_inv n s \<longleftrightarrow> n + card (UNIV :: 'c set) < 2 ^ 64 \<longrightarrow>
     mem_ok n (mem s) \<and> (\<forall>c. op_ok n (mem s) (op s c)) \<and> index_ok n s \<and>
     (\<forall>c d i. owns (op s c) = Some i \<longrightarrow> owns (op s d) = Some i \<longrightarrow> c = d)"


section \<open>One access\<close>

lemma unat_next: "unat (w :: 64 word) + 1 < 2 ^ 64 \<Longrightarrow> unat (w + 1) = Suc (unat w)"
  by (simp add: unat_word_ariths)

lemma mem_ok_unclaimed:
  "mem_ok n m \<Longrightarrow> unat (write_index m) \<le> i \<Longrightarrow> i < n \<Longrightarrow> elements m ! i = None \<and> elements_written m ! i = 0"
  unfolding mem_ok_def by metis

lemma access_own:
  assumes "mem_ok n m" "op_ok n m r" "is_claiming r \<Longrightarrow> unat (write_index m) + 1 < 2 ^ 64"
  shows "\<exists>m' r'. stack_access (m, r) = Ret (m', r') \<and> mem_ok n m' \<and> op_ok n m' r'"
proof (cases r)
  case (Push_claim e)
  then show ?thesis using assms unat_next[of "write_index m"] mem_ok_unclaimed[OF assms(1), of "unat (write_index m)"]
    by (auto simp: stack_access_def mem_ok_def Let_def)
next
  case (Find_check q i)
  then show ?thesis using assms by (auto simp: stack_access_def mem_ok_def)
next
  case (Find_test q i)
  then obtain e where "i < n" "elements_written m ! i \<noteq> 0" "elements m ! i = Some e" using assms by (auto simp: mem_ok_def)
  then show ?thesis using assms(1) Find_test by (auto simp: stack_access_def mem_ok_def)
next
  case (Push_result i)
  then obtain e where "i < n" "elements_written m ! i \<noteq> 0" "elements m ! i = Some e" using assms by (auto simp: mem_ok_def)
  then show ?thesis using assms(1) Push_result by (auto simp: stack_access_def mem_ok_def)
next
  case (Push_write e i)
  then show ?thesis using assms by (auto simp: stack_access_def mem_ok_def nth_list_update)
next
  case (Push_publish i)
  then show ?thesis using assms by (auto simp: stack_access_def mem_ok_def nth_list_update)
qed (use assms in \<open>auto simp: stack_access_def mem_ok_def\<close>)

text \<open>What an access guarantees to the other clients.\<close>

definition grows :: "nat \<Rightarrow> nat option \<Rightarrow> 'e stack_mem \<Rightarrow> 'e stack_mem \<Rightarrow> bool" where
  "grows n own m m' \<longleftrightarrow> unat (write_index m) \<le> unat (write_index m') \<and>
     (\<forall>i<n. elements_written m ! i \<noteq> 0 \<longrightarrow> elements_written m' ! i \<noteq> 0 \<and> elements m' ! i = elements m ! i) \<and>
     (\<forall>i<n. own \<noteq> Some i \<longrightarrow> elements_written m' ! i = elements_written m ! i \<and> elements m' ! i = elements m ! i)"

lemma access_grows:
  assumes "stack_access (m, r) = Ret (m', r')" "mem_ok n m" "op_ok n m r" "is_claiming r \<Longrightarrow> unat (write_index m) + 1 < 2 ^ 64"
  shows "grows n (owns r) m m'"
  using assms unat_next[of "write_index m"]
  by (cases r) (auto simp: stack_access_def mem_ok_def grows_def Let_def nth_list_update split: if_splits option.splits)

lemma grows_op_ok:
  assumes "grows n own m m'" "op_ok n m r" "\<And>i. own = Some i \<Longrightarrow> owns r \<noteq> Some i" "mem_ok n m"
  shows "op_ok n m' r"
  using assms by (cases r) (auto simp: grows_def mem_ok_def)

lemma access_owns:
  assumes "stack_access (m, r) = Ret (m', r')" "owns r' = Some i"
  shows "owns r = Some i \<or> (i = unat (write_index m) \<and> is_claiming r)"
  using assms by (cases r) (auto simp: stack_access_def Let_def split: if_splits option.splits)

lemma access_states:
  assumes "stack_access (m, r) = Ret (m', r')" "\<not> is_done r"
  shows "is_claiming r' \<longleftrightarrow> (\<exists>e. r = Push_check e) \<and> \<not> capacity_full m"
    "capacity_full m' \<longleftrightarrow> capacity_full m \<or> r = Push_full"
    "write_index m' = (if is_claiming r then write_index m + 1 else write_index m)"
    "r' = Push_full \<longleftrightarrow> is_claiming r \<and> length (elements m) \<le> unat (write_index m)"
  using assms by (cases r; simp add: stack_access_def Let_def split: if_splits option.splits; auto)+

section \<open>Invariant\<close>

lemma card_upd:
  fixes f :: "'c::finite \<Rightarrow> 'a"
  shows "card {d. P ((f(c := x)) d)} + (if P (f c) then 1 else 0) = card {d. P (f d)} + (if P x then 1 else 0)"
proof -
  let ?A = "{d. d \<noteq> c \<and> P (f d)}"
  have "{d. P ((f(c := x)) d)} = ?A \<union> (if P x then {c} else {})" "{d. P (f d)} = ?A \<union> (if P (f c) then {c} else {})"
    by auto
  then show ?thesis by (simp add: card_insert_if)
qed

lemma claiming_full_bound:
  fixes f :: "'c::finite \<Rightarrow> 'e op_state"
  assumes "f c = Push_check e"
  shows "card {d. is_claiming (f d)} + card {d. f d = Push_full} < card (UNIV :: 'c set)"
proof -
  have "card {d. is_claiming (f d)} + card {d. f d = Push_full} = card ({d. is_claiming (f d)} \<union> {d. f d = Push_full})"
    by (subst card_Un_disjoint) auto
  also have "c \<notin> {d. is_claiming (f d)} \<union> {d. f d = Push_full}" using assms by simp
  then have "card ({d. is_claiming (f d)} \<union> {d. f d = Push_full}) < card (UNIV :: 'c set)"
    by (intro psubset_card_mono) auto
  finally show ?thesis .
qed

lemma index_ok_access:
  fixes s :: "('c::finite, 'e) stack_system"
  assumes "index_ok n s" "length (elements (mem s)) = n" "\<not> is_done (op s c)" "stack_access (mem s, op s c) = Ret (m, r)"
    "n + card (UNIV :: 'c set) < 2 ^ 64"
  shows "index_ok n \<lparr>mem = m, op = (op s)(c := r)\<rparr>"
proof -
  note st = access_states[OF assms(4,3)]
  let ?claiming = "{d. is_claiming (op s d)}" and ?full = "{d. op s d = Push_full}"
  have cl: "card {d. is_claiming (((op s)(c := r)) d)} + (if is_claiming (op s c) then 1 else 0) =
      card ?claiming + (if is_claiming r then 1 else 0)"
    by (rule card_upd)
  have fu: "card {d. ((op s)(c := r)) d = Push_full} + (if op s c = Push_full then 1 else 0) =
      card ?full + (if r = Push_full then 1 else 0)"
    using card_upd[of "\<lambda>r. r = Push_full" "op s" c r] by simp
  have pos: "is_claiming (op s c) \<Longrightarrow> 0 < card ?claiming" by (auto simp: card_gt_0_iff)
  consider (check) e where "op s c = Push_check e" | (claim) e where "op s c = Push_claim e" | (full) "op s c = Push_full"
    | (other) "\<not> is_claiming (op s c)" "op s c \<noteq> Push_full" "\<And>e. op s c \<noteq> Push_check e"
    by (cases "op s c") auto
  then show ?thesis
  proof cases
    case check
    then show ?thesis using claiming_full_bound[of "op s" c, OF check] cl fu st assms(1)
      by (auto simp: index_ok_def split: if_splits)
  next
    case claim
    have "unat (write_index (mem s)) + 1 < 2 ^ 64" using assms(1,5) pos claim by (simp add: index_ok_def)
    then have "unat (write_index (mem s) + 1) = Suc (unat (write_index (mem s)))" by (rule unat_next)
    then show ?thesis using cl fu st assms(1,2) claim by (auto simp: index_ok_def split: if_splits)
  next
    case full
    then show ?thesis using cl fu st assms(1) by (auto simp: index_ok_def)
  next
    case other
    then show ?thesis using cl fu st assms(1) by (auto simp: index_ok_def split: if_splits)
  qed
qed

lemma stack_inv_init: "stack_init n s \<Longrightarrow> stack_inv n s"
  by (simp add: stack_init_def stack_inv_def WaitFreeStack_ctor_def mem_ok_def index_ok_def)

text \<open>The parts of the invariant, for systems small enough for the counter.\<close>

lemma stack_invD:
  fixes s :: "('c::finite, 'e) stack_system"
  assumes "stack_inv n s" "n + card (UNIV :: 'c set) < 2 ^ 64"
  shows "mem_ok n (mem s)" "op_ok n (mem s) (op s c)" "index_ok n s"
    "owns (op s c) = Some i \<Longrightarrow> owns (op s d) = Some i \<Longrightarrow> c = d"
    "is_claiming (op s c) \<Longrightarrow> unat (write_index (mem s)) + 1 < 2 ^ 64"
proof -
  show parts: "mem_ok n (mem s)" "op_ok n (mem s) (op s c)" "index_ok n s"
    "owns (op s c) = Some i \<Longrightarrow> owns (op s d) = Some i \<Longrightarrow> c = d"
    using assms by (auto simp: stack_inv_def)
  assume "is_claiming (op s c)"
  then have "0 < card {d. is_claiming (op s d)}" by (auto simp: card_gt_0_iff)
  then show "unat (write_index (mem s)) + 1 < 2 ^ 64" using parts(3) assms(2) by (simp add: index_ok_def)
qed

lemma stack_inv_call:
  fixes s :: "('c::finite, 'e) stack_system"
  assumes "stack_inv n s" "op s c = Done r" "r' = Push_check e \<or> r' = Find_check q 0"
  shows "stack_inv n (s\<lparr>op := (op s)(c := r')\<rparr>)"
proof -
  have "{d. is_claiming (((op s)(c := r')) d)} = {d. is_claiming (op s d)}"
    "{d. ((op s)(c := r')) d = Push_full} = {d. op s d = Push_full}"
    using assms(2,3) by auto
  moreover have "owns r' = None" "op_ok n (mem s) r'" using assms(3) by auto
  ultimately show ?thesis using assms(1) unfolding stack_inv_def index_ok_def by (auto split: if_splits)
qed

lemma stack_inv_step:
  fixes s :: "('c::finite, 'e) stack_system"
  assumes "stack_inv n s" "stack_step c s s'"
  shows "stack_inv n s'"
  using assms(2)
proof cases
  case (access m r)
  show ?thesis
    unfolding stack_inv_def
  proof (intro impI)
    assume small: "n + card (UNIV :: 'c set) < 2 ^ 64"
    note inv = stack_invD[OF assms(1) small]
    have own: "mem_ok n m" "op_ok n m r"
      using access_own[OF inv(1,2) inv(5), of c] access(3) by auto
    have g: "grows n (owns (op s c)) (mem s) m" by (rule access_grows[OF access(3) inv(1,2) inv(5)])
    have "op_ok n m (op s d)" if "d \<noteq> c" for d
      using grows_op_ok[OF g inv(2) _ inv(1)] inv(4) that by metis
    then have ops: "op_ok n m (((op s)(c := r)) d)" for d using own(2) by simp
    have len: "length (elements (mem s)) = n" using inv(1) by (simp add: mem_ok_def)
    have claimed: "i < unat (write_index (mem s))" if "owns (op s d) = Some i" for d i
      using inv(2)[of d] that by (cases "op s d") auto
    have "a = b" if o: "owns (((op s)(c := r)) a) = Some i" "owns (((op s)(c := r)) b) = Some i" for a b i
    proof -
      have "a = b" if "a = c" "owns r = Some i" "b \<noteq> c" "owns (op s b) = Some i" for a b
        using access_owns[OF access(3) that(2)] claimed[OF that(4)] inv(4)[of c i b] that by auto
      then show ?thesis using o inv(4)[of a i b] by (auto split: if_splits)
    qed
    then show "mem_ok n (mem s') \<and> (\<forall>c. op_ok n (mem s') (op s' c)) \<and> index_ok n s' \<and>
      (\<forall>c d i. owns (op s' c) = Some i \<longrightarrow> owns (op s' d) = Some i \<longrightarrow> c = d)"
      using index_ok_access[OF inv(3) len access(2,3) small] own(1) ops unfolding access(1) stack_system.simps by blast
  qed
qed (use stack_inv_call[OF assms(1)] in auto)

interpretation stack: invariant_system "stack_init n" stack_step "stack_inv n" for n
  by unfold_locales (fact stack_inv_init, fact stack_inv_step)


section \<open>Progress\<close>

text \<open>The own accesses a client needs at most until its operation is done.\<close>

fun op_left :: "nat \<Rightarrow> 'e op_state \<Rightarrow> nat" where
  "op_left n (Push_check e) = 5"
| "op_left n (Push_claim e) = 4"
| "op_left n Push_full = 1"
| "op_left n (Push_write e i) = 3"
| "op_left n (Push_publish i) = 2"
| "op_left n (Push_result i) = 1"
| "op_left n (Find_check q i) = 3 * (n - i) + 1"
| "op_left n (Find_written q i) = 3 * (n - i)"
| "op_left n (Find_test q i) = 3 * (n - i) - 1"
| "op_left n (Done r) = 0"

lemma access_left:
  assumes "stack_access (m, r) = Ret (m', r')" "\<not> is_done r" "mem_ok n m" "op_ok n m r"
  shows "op_left n r' < op_left n r"
  using assms by (cases r) (auto simp: stack_access_def mem_ok_def Let_def split: if_splits option.splits)

definition stack_busy :: "'c \<Rightarrow> ('c, 'e) stack_system \<Rightarrow> bool" where
  "stack_busy c s \<longleftrightarrow> \<not> is_done (op s c)"

definition stack_left :: "nat \<Rightarrow> 'c::finite \<Rightarrow> ('c, 'e) stack_system \<Rightarrow> nat" where
  "stack_left n c s = op_left n (op s c)"

definition small_inv :: "nat \<Rightarrow> ('c::finite, 'e) stack_system \<Rightarrow> bool" where
  "small_inv n s \<longleftrightarrow> n + card (UNIV :: 'c set) < 2 ^ 64 \<and> stack_inv n s"

definition small_init :: "nat \<Rightarrow> ('c::finite, 'e) stack_system \<Rightarrow> bool" where
  "small_init n s \<longleftrightarrow> n + card (UNIV :: 'c set) < 2 ^ 64 \<and> stack_init n s"

lemma small_access:
  fixes s :: "('c::finite, 'e) stack_system"
  assumes "small_inv n s"
  shows "\<exists>m r. stack_access (mem s, op s c) = Ret (m, r)"
  using access_own[OF stack_invD(1,2) stack_invD(5), of n s] assms unfolding small_inv_def by blast

lemma small_grows:
  fixes s :: "('c::finite, 'e) stack_system"
  assumes "small_inv n s" "stack_access (mem s, op s c) = Ret (m, r)"
  shows "grows n (owns (op s c)) (mem s) m"
  using access_grows[OF assms(2) stack_invD(1,2) stack_invD(5), of n] assms(1) unfolding small_inv_def by blast

lemma stack_step_other:
  assumes "stack_step d s s'" "d \<noteq> c"
  shows "op s' c = op s c"
  using assms by cases auto

interpretation wait_free: wait_free_system "small_init n" stack_step "small_inv n" stack_busy "stack_left n" for n
proof
  show "small_inv n s" if "small_init n s" for s :: "('a, 'b) stack_system"
    using that stack_inv_init[of n s] unfolding small_init_def small_inv_def by blast
  show "small_inv n s'" if "small_inv n s" "stack_step c s s'" for c and s s' :: "('a, 'b) stack_system"
    using that stack_inv_step unfolding small_inv_def by blast
  show "stack_left n c s' < stack_left n c s" if "small_inv n s" "stack_busy c s" "stack_step c s s'"
    for c and s s' :: "('a, 'b) stack_system"
    using that(3)
  proof cases
    case (access m r)
    then show ?thesis using access_left[OF access(3,2)] stack_invD(1,2)[of n s] that(1)
      by (simp add: stack_left_def small_inv_def)
  qed (use that(2) in \<open>auto simp: stack_busy_def\<close>)
  show "stack_left n c s' = stack_left n c s" if "small_inv n s" "d \<noteq> c" "stack_step d s s'"
    for c d and s s' :: "('a, 'b) stack_system"
    using stack_step_other[OF that(3,2)] by (simp add: stack_left_def)
  show "\<exists>s'. stack_step c s s'" if "small_inv n s" "stack_busy c s" for c and s :: "('a, 'b) stack_system"
    using small_access[OF that(1), of c] that(2) stack_step.access[of s c] unfolding stack_busy_def by blast
qed

section \<open>Steps seen by one client\<close>

text \<open>No step changes a published element; a step of another client leaves an element alone that is owned.\<close>

lemma step_published:
  fixes s :: "('c::finite, 'e) stack_system"
  assumes "small_inv n s" "stack_step c s s'" "i < n" "elements_written (mem s) ! i \<noteq> 0"
  shows "elements_written (mem s') ! i \<noteq> 0 \<and> elements (mem s') ! i = elements (mem s) ! i"
  using assms(2)
proof cases
  case (access m r)
  then show ?thesis using small_grows[OF assms(1) access(3)] assms(3,4) access(1) by (auto simp: grows_def)
qed (use assms(4) in auto)

lemma step_index:
  fixes s :: "('c::finite, 'e) stack_system"
  assumes "small_inv n s" "stack_step c s s'"
  shows "unat (write_index (mem s)) \<le> unat (write_index (mem s'))"
  using assms(2)
proof cases
  case (access m r)
  then show ?thesis using small_grows[OF assms(1) access(3)] by (simp add: grows_def)
qed auto

lemma step_owned:
  fixes s :: "('c::finite, 'e) stack_system"
  assumes "small_inv n s" "stack_step d s s'" "d \<noteq> c" "i < n" "owns (op s c) = Some i"
  shows "elements (mem s') ! i = elements (mem s) ! i"
  using assms(2)
proof cases
  case (access m r)
  have "owns (op s d) \<noteq> Some i" using stack_invD(4)[of n s c i d] assms(1,3,5) by (auto simp: small_inv_def)
  then show ?thesis using small_grows[OF assms(1) access(3)] assms(4) access(1) by (auto simp: grows_def)
qed auto

text \<open>
  What a find has established that started when element \<open>j\<close> was published and satisfied \<open>q\<close>; without such an
  element \<open>j\<close> is the number \<open>n\<close> of elements.
\<close>

definition published :: "('e \<Rightarrow> bool) \<Rightarrow> nat \<Rightarrow> 'e stack_mem \<Rightarrow> bool" where
  "published q i m \<longleftrightarrow> elements_written m ! i \<noteq> 0 \<and> (\<exists>e. elements m ! i = Some e \<and> q e)"

fun find_progress :: "nat \<Rightarrow> ('e \<Rightarrow> bool) \<Rightarrow> nat \<Rightarrow> 'e stack_mem \<Rightarrow> 'e op_state \<Rightarrow> bool" where
  "find_progress n q j m (Find_check q' i) \<longleftrightarrow> q' = q \<and> i \<le> j"
| "find_progress n q j m (Find_written q' i) \<longleftrightarrow> q' = q \<and> i \<le> j"
| "find_progress n q j m (Find_test q' i) \<longleftrightarrow> q' = q \<and> i \<le> j"
| "find_progress n q j m (Done (Some i)) \<longleftrightarrow> i < n \<and> i \<le> j \<and> published q i m"
| "find_progress n q j m (Done None) \<longleftrightarrow> j = n"
| "find_progress n q j m _ \<longleftrightarrow> False"

lemma find_progress_access:
  assumes "find_progress n q j m r" "\<not> is_done r" "mem_ok n m" "op_ok n m r" "stack_access (m, r) = Ret (m', r')"
    "j \<le> n" "j < n \<Longrightarrow> published q j m"
  shows "find_progress n q j m' r'"
proof -
  have "j < unat (write_index m)" if "j < n"
    using that assms(3,7) by (metis mem_ok_unclaimed not_le option.distinct(1) published_def)
  then show ?thesis using assms
    by (cases r) (auto simp: stack_access_def mem_ok_def published_def Suc_le_eq le_eq_less_or_eq split: if_splits option.splits)
qed

lemma published_grows:
  fixes s :: "('c::finite, 'e) stack_system"
  assumes "small_inv n s" "stack_step d s s'" "i < n" "published q i (mem s)"
  shows "published q i (mem s')"
  using step_published[OF assms(1-3)] assms(4) by (auto simp: published_def)

lemma find_progress_grows:
  assumes "find_progress n q j m r" "\<And>i. i < n \<Longrightarrow> published q i m \<Longrightarrow> published q i m'"
  shows "find_progress n q j m' r"
  using assms by (cases "(n, q, j, m, r)" rule: find_progress.cases) auto

lemma find_run:
  fixes s :: "('c::finite, 'e) stack_system"
  assumes "busy_run stack_step (stack_busy c) c s k s'" "small_inv n s" "op s c = Find_check q 0"
    "j \<le> n" "j < n \<Longrightarrow> published q j (mem s)"
  shows "small_inv n s' \<and> find_progress n q j (mem s') (op s' c) \<and> (j < n \<longrightarrow> published q j (mem s'))"
  using assms(1)
proof (induction rule: busy_run.induct)
  case here
  then show ?case using assms by simp
next
  case (own k s1 s2)
  then have s1: "small_inv n s1" "find_progress n q j (mem s1) (op s1 c)" "j < n \<Longrightarrow> published q j (mem s1)" by simp_all
  have "find_progress n q j (mem s2) (op s2 c)"
    using own(3)
  proof cases
    case (access m r)
    show ?thesis
      using find_progress_access[OF s1(2) access(2) _ _ access(3) assms(4) s1(3)] s1(1) access(1)
        stack_invD(1,2)[of n s1] by (simp add: small_inv_def)
  qed (use own(2) in \<open>auto simp: stack_busy_def\<close>)
  then show ?case using wait_free.inv_step[OF s1(1) own(3)] published_grows[OF s1(1) own(3) _ s1(3)] by simp
next
  case (other k s1 d s2)
  then have s1: "small_inv n s1" "find_progress n q j (mem s1) (op s1 c)" "j < n \<Longrightarrow> published q j (mem s1)" by simp_all
  have "find_progress n q j (mem s2) (op s2 c)"
    using find_progress_grows[OF s1(2) published_grows[OF s1(1) other(3)]]
    by (simp add: stack_step_other[OF other(3,2)])
  then show ?case using wait_free.inv_step[OF s1(1) other(3)] published_grows[OF s1(1) other(3) _ s1(3)] by simp
qed

text \<open>What a push of \<open>e\<close> has established.\<close>

fun push_progress :: "nat \<Rightarrow> 'e \<Rightarrow> 'e stack_mem \<Rightarrow> 'e op_state \<Rightarrow> bool" where
  "push_progress n e m (Push_check e') \<longleftrightarrow> e' = e"
| "push_progress n e m (Push_claim e') \<longleftrightarrow> e' = e"
| "push_progress n e m Push_full \<longleftrightarrow> True"
| "push_progress n e m (Push_write e' i) \<longleftrightarrow> e' = e"
| "push_progress n e m (Push_publish i) \<longleftrightarrow> elements m ! i = Some e"
| "push_progress n e m (Push_result i) \<longleftrightarrow> elements m ! i = Some e"
| "push_progress n e m (Done (Some i)) \<longleftrightarrow> i < n \<and> elements m ! i = Some e \<and> elements_written m ! i \<noteq> 0"
| "push_progress n e m (Done None) \<longleftrightarrow> n \<le> unat (write_index m)"
| "push_progress n e m _ \<longleftrightarrow> False"

lemma push_progress_access:
  assumes "push_progress n e m r" "\<not> is_done r" "mem_ok n m" "op_ok n m r" "stack_access (m, r) = Ret (m', r')"
  shows "push_progress n e m' r'"
  using assms by (cases r) (auto simp: stack_access_def mem_ok_def Let_def split: if_splits option.splits)

lemma push_run:
  fixes s :: "('c::finite, 'e) stack_system"
  assumes "busy_run stack_step (stack_busy c) c s k s'" "small_inv n s" "op s c = Push_check e"
  shows "small_inv n s' \<and> push_progress n e (mem s') (op s' c)"
  using assms(1)
proof (induction rule: busy_run.induct)
  case here
  then show ?case using assms by simp
next
  case (own k s1 s2)
  then have s1: "small_inv n s1" "push_progress n e (mem s1) (op s1 c)" by simp_all
  have "push_progress n e (mem s2) (op s2 c)"
    using own(3)
  proof cases
    case (access m r)
    show ?thesis
      using push_progress_access[OF s1(2) access(2) _ _ access(3)] s1(1) access(1) stack_invD(1,2)[of n s1]
      by (simp add: small_inv_def)
  qed (use own(2) in \<open>auto simp: stack_busy_def\<close>)
  then show ?case using wait_free.inv_step[OF s1(1) own(3)] by simp
next
  case (other k s1 d s2)
  then have s1: "small_inv n s1" "push_progress n e (mem s1) (op s1 c)" by simp_all
  have same: "op s2 c = op s1 c" by (rule stack_step_other[OF other(3,2)])
  have ok: "op_ok n (mem s1) (op s1 c)" using stack_invD(2) s1(1) unfolding small_inv_def by blast
  have "push_progress n e (mem s2) (op s2 c)"
    using s1(2) ok step_published[OF s1(1) other(3)] step_owned[OF s1(1) other(3,2)] step_index[OF s1(1) other(3)]
    unfolding same by (cases "(n, e, mem s1, op s1 c)" rule: push_progress.cases) auto
  then show ?case using wait_free.inv_step[OF s1(1) other(3)] by simp
qed


section \<open>One client at a time\<close>

text \<open>The memory of a stack with elements \<open>xs\<close> when no operation is under way.\<close>

definition represents :: "nat \<Rightarrow> 'e list \<Rightarrow> 'e stack_mem \<Rightarrow> bool" where
  "represents n xs m \<longleftrightarrow> length xs \<le> n \<and> n + 1 < 2 ^ 64 \<and>
     elements m = map Some xs @ replicate (n - length xs) None \<and>
     elements_written m = replicate (length xs) 1 @ replicate (n - length xs) 0 \<and>
     (if capacity_full m then length xs = n \<and> n \<le> unat (write_index m) else unat (write_index m) = length xs)"

fun first_index :: "('e \<Rightarrow> bool) \<Rightarrow> 'e list \<Rightarrow> nat option" where
  "first_index q [] = None"
| "first_index q (x # xs) = (if q x then Some 0 else map_option Suc (first_index q xs))"

lemma first_index_None: "first_index q xs = None \<longleftrightarrow> (\<forall>x\<in>set xs. \<not> q x)"
  by (induction xs) auto

lemma first_index_Some:
  "first_index q xs = Some i \<longleftrightarrow> i < length xs \<and> q (xs ! i) \<and> (\<forall>j<i. \<not> q (xs ! j))"
proof (induction xs arbitrary: i)
  case (Cons x xs)
  then show ?case by (cases i) (auto simp: All_less_Suc2)
qed simp

lemma represents_ctor: "n + 1 < 2 ^ 64 \<Longrightarrow> represents n [] (WaitFreeStack_ctor n)"
  by (simp add: represents_def WaitFreeStack_ctor_def)

lemma represents_nth:
  assumes "represents n xs m" "i < n"
  shows "elements m ! i = (if i < length xs then Some (xs ! i) else None)"
    "elements_written m ! i = (if i < length xs then 1 else 0)" "length (elements m) = n" "length (elements_written m) = n"
  using assms by (auto simp: represents_def nth_append)

lemma replicate_head: "k < n \<Longrightarrow> replicate (n - k) x = x # replicate (n - Suc k) x"
  by (metis Suc_diff_Suc replicate_Suc)

lemma represents_update:
  assumes "represents n xs m" "length xs < n"
  shows "(elements m)[length xs := Some e] = map Some (xs @ [e]) @ replicate (n - Suc (length xs)) None"
    "(elements_written m)[length xs := 1] = replicate (Suc (length xs)) 1 @ replicate (n - Suc (length xs)) 0"
  using assms by (simp_all add: represents_def replicate_head list_update_append replicate_append_same replicate_app_Cons_same)

lemma run_op_done: "run_op (Suc fuel) m (Done i) = Some (Ret (m, i))"
  by (simp add: run_op_def)

lemma run_op_step:
  assumes "stack_access (m, r) = Ret (m', r')" "\<not> is_done r"
  shows "run_op (Suc fuel) m r = run_op fuel m' r'"
  using assms by (simp add: run_op_def)

lemma TryPush_room:
  assumes "represents n xs m" "length xs < n" "6 \<le> fuel"
  shows "\<exists>m'. TryPush fuel e m = Some (Ret (m', Some (length xs))) \<and> represents n (xs @ [e]) m'"
proof -
  obtain k where fuel: "fuel = Suc (Suc (Suc (Suc (Suc (Suc k)))))" by (rule that[of "fuel - 6"]) (use assms(3) in simp)
  have wi: "\<not> capacity_full m" "unat (write_index m) = length xs" using assms(1,2) by (auto simp: represents_def split: if_splits)
  note nth = represents_nth[OF assms(1,2)]
  let ?m = "m\<lparr>write_index := write_index m + 1, elements := (elements m)[length xs := Some e],
    elements_written := (elements_written m)[length xs := 1]\<rparr>"
  have "unat (write_index m + 1) = Suc (length xs)" using assms(1,2) wi(2) unat_next[of "write_index m"] by (simp add: represents_def)
  then have "represents n (xs @ [e]) ?m"
    using assms(1,2) wi(1) represents_update(1)[OF assms(1,2), of e] represents_update(2)[OF assms(1,2)] by (simp add: represents_def)
  moreover have "TryPush fuel e m = Some (Ret (?m, Some (length xs)))"
    using wi nth assms(2) by (simp add: TryPush_def fuel run_op_step run_op_done stack_access_def Let_def)
  ultimately show ?thesis by blast
qed

lemma TryPush_no_room:
  assumes "represents n xs m" "length xs = n" "6 \<le> fuel"
  shows "\<exists>m'. TryPush fuel e m = Some (Ret (m', None)) \<and> represents n xs m'"
proof (cases "capacity_full m")
  case True
  obtain k where fuel: "fuel = Suc (Suc k)" by (rule that[of "fuel - 2"]) (use assms(3) in simp)
  show ?thesis using True assms(1) by (simp add: TryPush_def fuel run_op_step run_op_done stack_access_def)
next
  case False
  obtain k where fuel: "fuel = Suc (Suc (Suc (Suc k)))" by (rule that[of "fuel - 4"]) (use assms(3) in simp)
  have wi: "unat (write_index m) = n" "length (elements m) = n" using False assms(1,2) by (auto simp: represents_def)
  let ?m = "m\<lparr>write_index := write_index m + 1, capacity_full := True\<rparr>"
  have "unat (write_index m + 1) = Suc n" using assms(1) wi(1) unat_next[of "write_index m"] by (simp add: represents_def)
  then have "represents n xs ?m" using assms(1,2) by (simp add: represents_def)
  moreover have "TryPush fuel e m = Some (Ret (?m, None))"
    using wi False by (simp add: TryPush_def fuel run_op_step run_op_done stack_access_def Let_def)
  ultimately show ?thesis by blast
qed

lemma Find_from:
  assumes "represents n xs m" "3 * (n - i) + 2 \<le> fuel"
  shows "run_op fuel m (Find_check q i) = Some (Ret (m, map_option ((+) i) (first_index q (drop i xs))))"
  using assms(2)
proof (induction "n - i" arbitrary: i fuel)
  case 0
  then obtain k where "fuel = Suc (Suc k)" using that[of "fuel - 2"] by simp
  moreover have "length (elements m) = n" "length xs \<le> i" using assms(1) 0 by (auto simp: represents_def)
  ultimately show ?case using 0 by (simp add: run_op_step run_op_done stack_access_def)
next
  case (Suc d)
  then have i: "i < n" "d = n - Suc i" by simp_all
  obtain k where fuel: "fuel = Suc (Suc (Suc k))" "3 * (n - Suc i) + 2 \<le> k"
    by (rule that[of "fuel - 3"]) (use Suc.prems i(1) in simp_all)
  note nth = represents_nth[OF assms(1) i(1)]
  have wi: "i \<le> unat (write_index m) \<or> length xs < i" if "i < n" using assms(1) that by (auto simp: represents_def split: if_splits)
  show ?case
  proof (cases "i < length xs")
    case True
    have "drop i xs = xs ! i # drop (Suc i) xs" using True by (rule Cons_nth_drop_Suc[symmetric])
    moreover have "i \<le> unat (write_index m)" using wi[OF i(1)] True by simp
    moreover have "map_option ((+) i) (map_option Suc r) = map_option ((+) (Suc i)) r" for r by (cases r) auto
    moreover have "run_op k m (Done (Some i)) = Some (Ret (m, Some i))" using fuel(2) by (cases k) (simp_all add: run_op_done)
    ultimately show ?thesis
      using nth True i(1) Suc.hyps(1)[OF i(2) fuel(2)] by (simp add: fuel(1) run_op_step stack_access_def)
  next
    case False
    have next_i: "run_op k' m (Find_check q (Suc i)) = Some (Ret (m, None))" if "k \<le> k'" for k'
      using Suc.hyps(1)[OF i(2), of k'] fuel(2) that False by simp
    show ?thesis using False nth i(1) next_i[of "Suc k"]
      by (simp add: fuel(1) run_op_step run_op_done stack_access_def)
  qed
qed

lemma Find_sequential:
  "represents n xs m \<Longrightarrow> 3 * n + 2 \<le> fuel \<Longrightarrow> Find fuel q m = Some (Ret (m, first_index q xs))"
  using Find_from[of n xs m 0 fuel q] by (cases "first_index q xs") (simp_all add: Find_def)


section \<open>Concurrent clients\<close>

text \<open>The element an access writes, and the element it reads or writes.\<close>

fun writes_element :: "'e op_state \<Rightarrow> nat option" where
  "writes_element (Push_write e i) = Some i"
| "writes_element _ = None"

fun touches_element :: "'e op_state \<Rightarrow> nat option" where
  "touches_element (Push_write e i) = Some i"
| "touches_element (Push_result i) = Some i"
| "touches_element (Find_test q i) = Some i"
| "touches_element _ = None"

lemma reachable_small:
  fixes s :: "('c::finite, 'e) stack_system"
  assumes "reachable (stack_init n) stack_step s" "n + card (UNIV :: 'c set) < 2 ^ 64"
  shows "small_inv n s"
  using stack.reachable_inv[OF assms(1)] assms(2) by (simp add: small_inv_def)

lemma writes_exclusive:
  fixes s :: "('c::finite, 'e) stack_system"
  assumes "small_inv n s" "d \<noteq> c" "writes_element (op s c) = Some i"
  shows "touches_element (op s d) \<noteq> Some i"
proof -
  obtain e where e: "op s c = Push_write e i" using assms(3) by (cases "op s c") auto
  have "op_ok n (mem s) (op s c)" "op_ok n (mem s) (op s d)"
    using assms(1) stack_invD(2)[of n s] unfolding small_inv_def by blast+
  moreover have "owns (op s d) \<noteq> Some i"
    using assms(1,2) e stack_invD(4)[of n s d i c] by (auto simp: small_inv_def)
  ultimately show ?thesis using e by (cases "op s d") auto
qed

lemma small_index:
  fixes s :: "('c::finite, 'e) stack_system"
  shows "small_inv n s \<Longrightarrow> unat (write_index (mem s)) \<le> n + card (UNIV :: 'c set)"
  using stack_invD(3)[of n s] by (simp add: small_inv_def index_ok_def)

text \<open>
  C34: Whatever a finite number of clients have done to the stack before, the next access of an operation
  neither reads an empty element nor leaves the arrays, the counter does not wrap, an element is never written
  while another client reads or writes it, and what is published stays as it is.
\<close>

theorem stack_accesses_safe:
  fixes s :: "('c::finite, 'e) stack_system"
  assumes "reachable (stack_init n) stack_step s" "n + card (UNIV :: 'c set) < 2 ^ 64" "\<not> is_done (op s c)"
  shows "\<exists>m r. stack_access (mem s, op s c) = Ret (m, r) \<and>
    unat (write_index (mem s)) \<le> unat (write_index m) \<and> unat (write_index m) \<le> n + card (UNIV :: 'c set) \<and>
    (\<forall>d i. d \<noteq> c \<and> writes_element (op s c) = Some i \<longrightarrow> touches_element (op s d) \<noteq> Some i) \<and>
    (\<forall>i<n. elements_written (mem s) ! i \<noteq> 0 \<longrightarrow>
       elements_written m ! i \<noteq> 0 \<and> elements m ! i = elements (mem s) ! i \<and> elements m ! i \<noteq> None)"
proof -
  have inv: "small_inv n s" by (rule reachable_small[OF assms(1,2)])
  obtain m r where a: "stack_access (mem s, op s c) = Ret (m, r)" using small_access[OF inv] by blast
  define s' where "s' = \<lparr>mem = m, op = (op s)(c := r)\<rparr>"
  have step: "stack_step c s s'" unfolding s'_def by (rule stack_step.access[OF assms(3) a])
  have "mem_ok n (mem s)" using stack_invD(1)[of n s] inv by (simp add: small_inv_def)
  then have "\<forall>i<n. elements_written (mem s) ! i \<noteq> 0 \<longrightarrow>
      elements_written m ! i \<noteq> 0 \<and> elements m ! i = elements (mem s) ! i \<and> elements m ! i \<noteq> None"
    using step_published[OF inv step] by (simp add: s'_def mem_ok_def)
  moreover have "unat (write_index (mem s)) \<le> unat (write_index m)" "unat (write_index m) \<le> n + card (UNIV :: 'c set)"
    using step_index[OF inv step] small_index[OF wait_free.inv_step[OF inv step]] by (simp_all add: s'_def)
  ultimately show ?thesis using a writes_exclusive[OF inv] by blast
qed

lemma own_access:
  assumes "busy_run stack_step (stack_busy c) c s k s1" "\<not> is_done (op s1 c)" "stack_access (mem s1, op s1 c) = Ret (m, r)"
  shows "busy_run stack_step (stack_busy c) c s (Suc k) \<lparr>mem = m, op = (op s1)(c := r)\<rparr>"
  using busy_run.own[OF assms(1) _ stack_step.access[OF assms(2,3)]] assms(2) by (simp add: stack_busy_def)

text \<open>Client \<open>True\<close> pushes to a new stack of two elements, then client \<open>False\<close> calls Find.\<close>

definition example_called :: "(bool, nat) stack_system" where
  "example_called = \<lparr>mem = WaitFreeStack_ctor 2, op = (\<lambda>_. Done None)(True := Push_check 7)\<rparr>"

definition example_pushed :: "(bool, nat) stack_system" where
  "example_pushed = \<lparr>mem = \<lparr>elements = [Some 7, None], elements_written = [1, 0], write_index = 1, capacity_full = False\<rparr>,
     op = (\<lambda>_. Done None)(True := Done (Some 0))\<rparr>"

definition example_searching :: "(bool, nat) stack_system" where
  "example_searching = \<lparr>mem = mem example_pushed, op = (op example_pushed)(False := Find_check (\<lambda>e. e = 7) 0)\<rparr>"

lemma reachable_called: "reachable (stack_init 2) stack_step example_called"
proof -
  let ?s = "\<lparr>mem = WaitFreeStack_ctor 2, op = \<lambda>_. Done None\<rparr> :: (bool, nat) stack_system"
  have "reachable (stack_init 2) stack_step ?s" by (rule reachable.initial) (simp add: stack_init_def)
  moreover have "stack_step True ?s example_called"
    using stack_step.call_push[of ?s True None 7] by (simp add: example_called_def)
  ultimately show ?thesis by (rule reachable.move)
qed

lemma run_pushed: "busy_run stack_step (stack_busy True) True example_called 5 example_pushed"
proof -
  let ?run = "\<lambda>k m r. busy_run stack_step (stack_busy True) True example_called k \<lparr>mem = m, op = (\<lambda>_. Done None)(True := r)\<rparr>"
  have "?run 0 (WaitFreeStack_ctor 2) (Push_check 7)"
    using busy_run.here[of stack_step "stack_busy True" True example_called] by (simp add: example_called_def)
  from own_access[OF this] have "?run 1 (WaitFreeStack_ctor 2) (Push_claim 7)"
    by (simp add: stack_access_def WaitFreeStack_ctor_def)
  from own_access[OF this] have "?run 2 ((WaitFreeStack_ctor 2)\<lparr>write_index := 1\<rparr>) (Push_write 7 0)"
    by (simp add: stack_access_def WaitFreeStack_ctor_def numeral_2_eq_2)
  from own_access[OF this] have "?run 3 (mem example_pushed\<lparr>elements_written := [0, 0]\<rparr>) (Push_publish 0)"
    by (simp add: stack_access_def WaitFreeStack_ctor_def example_pushed_def numeral_2_eq_2 numeral_3_eq_3)
  from own_access[OF this] have "?run 4 (mem example_pushed) (Push_result 0)"
    by (simp add: stack_access_def example_pushed_def eval_nat_numeral)
  from own_access[OF this] have "?run 5 (mem example_pushed) (Done (Some 0))"
    by (simp add: stack_access_def example_pushed_def eval_nat_numeral)
  then show ?thesis by (simp add: example_pushed_def)
qed

lemma reachable_searching: "reachable (stack_init 2) stack_step example_searching"
proof -
  have "reachable (stack_init 2) stack_step example_pushed"
    by (rule stack.busy_run_reachable[OF run_pushed reachable_called])
  moreover have "stack_step False example_pushed example_searching"
    using stack_step.call_find[of example_pushed False None "\<lambda>e. e = 7"]
    by (simp add: example_searching_def example_pushed_def)
  ultimately show ?thesis by (rule reachable.move)
qed

theorem stack_accesses_safe_witness:
  "\<exists>m r. stack_access (WaitFreeStack_ctor 2, Push_check (7 :: nat)) = Ret (m, r) \<and>
     unat (write_index m) \<le> 2 + card (UNIV :: bool set)"
  using stack_accesses_safe[OF reachable_called, of True] by (auto simp: example_called_def)

text \<open>
  C35: A TryPush that a client has called comes back after at most five own accesses, whatever the other clients
  do in between. It then returns the element it was called with, published for every client, or nothing,
  and nothing only when all elements of the stack have been claimed. Until then it can go on.
\<close>

theorem TryPush_wait_free:
  fixes s :: "('c::finite, 'e) stack_system"
  assumes "reachable (stack_init n) stack_step s" "n + card (UNIV :: 'c set) < 2 ^ 64" "op s c = Push_check e"
    "busy_run stack_step (stack_busy c) c s k s'"
  shows "k \<le> 5 \<and> (case op s' c of
      Done (Some i) \<Rightarrow> i < n \<and> elements (mem s') ! i = Some e \<and> elements_written (mem s') ! i \<noteq> 0
    | Done None \<Rightarrow> n \<le> unat (write_index (mem s'))
    | _ \<Rightarrow> k < 5 \<and> (\<exists>s''. stack_step c s' s''))"
proof -
  have inv: "small_inv n s" by (rule reachable_small[OF assms(1,2)])
  have run: "small_inv n s'" "push_progress n e (mem s') (op s' c)" using push_run[OF assms(4) inv assms(3)] by simp_all
  have "k + stack_left n c s' \<le> 5" using wait_free.busy_run_bound[OF assms(4) inv] assms(3) by (simp add: stack_left_def)
  moreover have "is_done (op s' c) \<or> (\<exists>s''. stack_step c s' s'')" using wait_free.not_stuck[OF run(1), of c] by (auto simp: stack_busy_def)
  ultimately show ?thesis using run(2)
    by (cases "(n, e, mem s', op s' c)" rule: push_progress.cases) (auto simp: stack_left_def)
qed

theorem TryPush_wait_free_witness:
  "elements (mem example_pushed) ! 0 = Some 7 \<and> elements_written (mem example_pushed) ! 0 \<noteq> 0"
  using TryPush_wait_free[OF reachable_called _ _ run_pushed] by (simp add: example_called_def example_pushed_def)

text \<open>
  C36: A Find that a client has called comes back after at most three own accesses per element and one more, and
  until then it can go on, whatever the other clients do in between. An element that it returns is published and
  satisfies the predicate. If an element that satisfies the predicate was published when it was called, it
  returns this one or an earlier one.
\<close>

theorem Find_wait_free:
  fixes s :: "('c::finite, 'e) stack_system"
  assumes "reachable (stack_init n) stack_step s" "n + card (UNIV :: 'c set) < 2 ^ 64" "op s c = Find_check q 0"
    "busy_run stack_step (stack_busy c) c s k s'"
  shows "k \<le> 3 * n + 1 \<and>
    (case op s' c of
      Done (Some i) \<Rightarrow> i < n \<and> elements_written (mem s') ! i \<noteq> 0 \<and> (\<exists>e. elements (mem s') ! i = Some e \<and> q e)
    | Done None \<Rightarrow> True
    | _ \<Rightarrow> k < 3 * n + 1 \<and> (\<exists>s''. stack_step c s' s'')) \<and>
    (\<forall>j e. j < n \<and> elements_written (mem s) ! j \<noteq> 0 \<and> elements (mem s) ! j = Some e \<and> q e \<longrightarrow>
      (\<forall>r. op s' c = Done r \<longrightarrow> (\<exists>i\<le>j. r = Some i)))"
proof -
  have inv: "small_inv n s" by (rule reachable_small[OF assms(1,2)])
  have run: "small_inv n s'" "find_progress n q n (mem s') (op s' c)" using find_run[OF assms(4) inv assms(3), of n] by simp_all
  have "k + stack_left n c s' \<le> 3 * n + 1" using wait_free.busy_run_bound[OF assms(4) inv] assms(3) by (simp add: stack_left_def)
  moreover have "op_ok n (mem s') (op s' c)" using stack_invD(2)[of n s'] run(1) by (simp add: small_inv_def)
  moreover have "is_done (op s' c) \<or> (\<exists>s''. stack_step c s' s'')" using wait_free.not_stuck[OF run(1), of c] by (auto simp: stack_busy_def)
  moreover have "\<exists>i\<le>j. r = Some i" if "j < n" "published q j (mem s)" "op s' c = Done r" for j r
    using find_run[OF assms(4) inv assms(3), of j] that by (cases r) simp_all
  ultimately show ?thesis using run(2)
    by (cases "(n, q, n, mem s', op s' c)" rule: find_progress.cases) (auto simp: stack_left_def published_def)
qed

theorem Find_wait_free_witness:
  "\<exists>s. busy_run stack_step (stack_busy False) False example_searching 3 s \<and> op s False = Done (Some 0) \<and>
     elements_written (mem s) ! 0 \<noteq> 0 \<and> (3::nat) \<le> 3 * 2 + 1"
proof -
  let ?s = "\<lambda>r. \<lparr>mem = mem example_pushed, op = (op example_pushed)(False := r)\<rparr>"
  let ?run = "\<lambda>k r. busy_run stack_step (stack_busy False) False example_searching k (?s r)"
  let ?q = "\<lambda>e. e = 7"
  have "?run 0 (Find_check ?q 0)"
    using busy_run.here[of stack_step "stack_busy False" False example_searching] by (simp add: example_searching_def)
  from own_access[OF this] have "?run 1 (Find_written ?q 0)" by (simp add: stack_access_def example_pushed_def)
  from own_access[OF this] have "?run 2 (Find_test ?q 0)" by (simp add: stack_access_def example_pushed_def eval_nat_numeral)
  from own_access[OF this] have run: "?run 3 (Done (Some 0))" by (simp add: stack_access_def example_pushed_def eval_nat_numeral)
  have "elements_written (mem example_pushed) ! 0 \<noteq> 0 \<and> (3::nat) \<le> 3 * 2 + 1"
    using Find_wait_free[OF reachable_searching _ _ run, of ?q] by (simp add: example_searching_def example_pushed_def)
  then show ?thesis using run by fastforce
qed


section \<open>The stack as its users see it\<close>

text \<open>
  What a user that is alone with a stack relies on: \<open>rep xs m\<close> says that memory \<open>m\<close> holds the elements
  \<open>xs\<close> in the order they were pushed.
\<close>

locale push_stack =
  fixes rep :: "'e list \<Rightarrow> 'm \<Rightarrow> bool" and capacity :: nat
    and push :: "'e \<Rightarrow> 'm \<Rightarrow> ('m \<times> nat option) run" and find :: "('e \<Rightarrow> bool) \<Rightarrow> 'm \<Rightarrow> ('m \<times> nat option) run"
  assumes push_room: "rep xs m \<Longrightarrow> length xs < capacity \<Longrightarrow> \<exists>m'. push e m = Some (Ret (m', Some (length xs))) \<and> rep (xs @ [e]) m'"
    and push_no_room: "rep xs m \<Longrightarrow> capacity \<le> length xs \<Longrightarrow> \<exists>m'. push e m = Some (Ret (m', None)) \<and> rep xs m'"
    and find_first: "rep xs m \<Longrightarrow> find q m = Some (Ret (m, first_index q xs))"
begin

lemma push_cases:
  assumes "rep xs m"
  obtains m' where "length xs < capacity" "push e m = Some (Ret (m', Some (length xs)))" "rep (xs @ [e]) m'"
  | m' where "capacity \<le> length xs" "push e m = Some (Ret (m', None))" "rep xs m'"
  using push_room[OF assms, of e] push_no_room[OF assms, of e] by (cases "length xs < capacity") auto

text \<open>Looking an element up and pushing it when it is not there.\<close>

lemma find_or_push:
  assumes "rep xs m"
  shows "\<exists>m' r xs'. bind_run (find q m) (\<lambda>(m, i). case i of Some i \<Rightarrow> Some (Ret (m, Some i)) | None \<Rightarrow> push e m) = Some (Ret (m', r)) \<and>
    rep xs' m' \<and>
    (case first_index q xs of
       Some i \<Rightarrow> r = Some i \<and> xs' = xs
     | None \<Rightarrow> if length xs < capacity then r = Some (length xs) \<and> xs' = xs @ [e] else r = None \<and> xs' = xs)"
  by (cases rule: push_cases[OF assms, of e]; cases "first_index q xs") (use assms in \<open>auto simp: find_first\<close>)

end

text \<open>Accesses that are enough for every operation on a stack of \<open>n\<close> elements.\<close>

definition stack_fuel :: "nat \<Rightarrow> nat" where
  "stack_fuel n = 3 * n + 6"

interpretation wfs: push_stack "represents n" n "TryPush (stack_fuel n)" "Find (stack_fuel n)" for n
proof
  show "\<exists>m'. TryPush (stack_fuel n) e m = Some (Ret (m', Some (length xs))) \<and> represents n (xs @ [e]) m'"
    if "represents n xs m" "length xs < n" for xs m and e :: 'a
    using TryPush_room[OF that] by (simp add: stack_fuel_def)
  show "\<exists>m'. TryPush (stack_fuel n) e m = Some (Ret (m', None)) \<and> represents n xs m'"
    if "represents n xs m" "n \<le> length xs" for xs m and e :: 'a
    using TryPush_no_room[OF that(1)] that by (simp add: stack_fuel_def represents_def)
  show "Find (stack_fuel n) q m = Some (Ret (m, first_index q xs))" if "represents n xs m" for xs m and q :: "'a \<Rightarrow> bool"
    using Find_sequential[OF that] by (simp add: stack_fuel_def)
qed

end
