(* ===== verification/Log_Identifier.thy ===== *)
theory Log_Identifier
  imports Prelude
begin

text \<open>
  The identifiers of applications and contexts, src/score/mw/log/detail/logging_identifier.cpp: four bytes, filled
  up with zero characters. Shared by the loggers and the log records.
\<close>

definition kMaxLength :: nat where
  "kMaxLength = 4"

definition LoggingIdentifier_ctor :: "string \<Rightarrow> string" where
  "LoggingIdentifier_ctor identifier = (
     let filled = replicate kMaxLength (CHR 0x00); n = min (length identifier) (length filled)
     in take n identifier @ drop n filled)"

text \<open>strnlen ends at the first zero character.\<close>

definition GetStringView :: "string \<Rightarrow> string" where
  "GetStringView id_data = takeWhile (\<lambda>c. c \<noteq> CHR 0x00) (take kMaxLength id_data)"

definition identifier_eq :: "string \<Rightarrow> string \<Rightarrow> bool" where
  "identifier_eq lhs rhs = list_all2 (=) lhs rhs"

text \<open>A string that an identifier keeps: at most four characters and no zero among them.\<close>

definition fits :: "string \<Rightarrow> bool" where
  "fits cs \<longleftrightarrow> length cs \<le> kMaxLength \<and> CHR 0x00 \<notin> set cs"

lemma takeWhile_id_iff: "takeWhile P xs = xs \<longleftrightarrow> (\<forall>x\<in>set xs. P x)"
  by (metis set_takeWhileD takeWhile_eq_all_conv)

lemma id_takeWhile_iff: "xs = takeWhile P xs \<longleftrightarrow> (\<forall>x\<in>set xs. P x)"
  using takeWhile_id_iff by metis

lemma GetStringView_ctor:
  "GetStringView (LoggingIdentifier_ctor v) = takeWhile (\<lambda>c. c \<noteq> CHR 0x00) (take kMaxLength v)"
  by (simp add: GetStringView_def LoggingIdentifier_ctor_def Let_def min_def takeWhile_append takeWhile_replicate id_takeWhile_iff)

lemma kept_iff: "GetStringView (LoggingIdentifier_ctor cs) = cs \<longleftrightarrow> fits cs"
proof
  assume kept: "GetStringView (LoggingIdentifier_ctor cs) = cs"
  then have "length cs \<le> length (take kMaxLength cs)"
    using length_takeWhile_le[of "\<lambda>c. c \<noteq> CHR 0x00" "take kMaxLength cs"] by (simp add: GetStringView_ctor)
  then have "take kMaxLength cs = cs" by simp
  with kept show "fits cs" by (auto simp: GetStringView_ctor fits_def takeWhile_id_iff)
next
  assume "fits cs"
  then show "GetStringView (LoggingIdentifier_ctor cs) = cs"
    by (auto simp: GetStringView_ctor fits_def takeWhile_id_iff)
qed

lemma length_ctor: "length (LoggingIdentifier_ctor s) = kMaxLength"
  by (simp add: LoggingIdentifier_ctor_def Let_def min_def)

lemma identifier_eq_iff: "identifier_eq (LoggingIdentifier_ctor s) (LoggingIdentifier_ctor t) \<longleftrightarrow> LoggingIdentifier_ctor s = LoggingIdentifier_ctor t"
  by (simp add: identifier_eq_def list.rel_eq)

end
