(* ===== verification/Logger_Container.thy ===== *)
theory Logger_Container
  imports Wait_Free_Stack Log_Identifier
begin

text \<open>
  The loggers of a process by their context, src/score/mw/log/logger_container.cpp, with the part of logger.cpp
  that sets up a logger. The container keeps its loggers in a stack of fixed capacity; a reference to a logger is its place there or the default logger.
\<close>

section \<open>Loggers\<close>

text \<open>A view is a pointer, possibly null, and the characters behind it; a null view has none.\<close>

type_synonym string_view = "string option"

definition view_chars :: "string_view \<Rightarrow> string" where
  "view_chars v = (case v of None \<Rightarrow> [] | Some cs \<Rightarrow> cs)"

record Logger =
  context_id :: string

definition GetDefaultContextId :: string where
  "GetDefaultContextId = ''DFLT''"

definition Logger_ctor :: "string_view \<Rightarrow> Logger" where
  "Logger_ctor view =
     \<lparr>context_id = LoggingIdentifier_ctor (if view = None then GetDefaultContextId else view_chars view)\<rparr>"

definition GetContext :: "Logger \<Rightarrow> string" where
  "GetContext l = GetStringView (context_id l)"

section \<open>Container\<close>

definition kMaxLoggersSize :: nat where
  "kMaxLoggersSize = 32"

record LoggerContainer =
  lc_stack :: "Logger stack_mem"
  default_logger :: Logger

datatype logger_ref = In_stack nat | Default_logger

definition LoggerContainer_ctor :: LoggerContainer where
  "LoggerContainer_ctor =
     \<lparr>lc_stack = WaitFreeStack_ctor kMaxLoggersSize, default_logger = Logger_ctor (Some GetDefaultContextId)\<rparr>"

definition FindExistingLogger :: "string_view \<Rightarrow> LoggerContainer \<Rightarrow> (LoggerContainer \<times> nat option) run" where
  "FindExistingLogger view lc =
     bind_run (Find (stack_fuel kMaxLoggersSize) (\<lambda>logger. GetContext logger = view_chars view) (lc_stack lc)) (\<lambda>(m, r).
       Some (Ret (lc\<lparr>lc_stack := m\<rparr>, r)))"

definition InsertNewLogger :: "string_view \<Rightarrow> LoggerContainer \<Rightarrow> (LoggerContainer \<times> logger_ref) run" where
  "InsertNewLogger view lc =
     bind_run (TryPush (stack_fuel kMaxLoggersSize) (Logger_ctor view) (lc_stack lc)) (\<lambda>(m, r).
       Some (Ret (lc\<lparr>lc_stack := m\<rparr>, case r of Some i \<Rightarrow> In_stack i | None \<Rightarrow> Default_logger)))"

definition GetLogger :: "string_view \<Rightarrow> LoggerContainer \<Rightarrow> (LoggerContainer \<times> logger_ref) run" where
  "GetLogger view lc =
     bind_run (FindExistingLogger view lc) (\<lambda>(lc, logger).
       case logger of Some i \<Rightarrow> Some (Ret (lc, In_stack i)) | None \<Rightarrow> InsertNewLogger view lc)"

definition GetCapacity :: nat where
  "GetCapacity = kMaxLoggersSize"

text \<open>The logger behind a reference.\<close>

definition deref_logger :: "LoggerContainer \<Rightarrow> logger_ref \<Rightarrow> Logger option" where
  "deref_logger lc r = (case r of
     In_stack i \<Rightarrow> if i < length (elements (lc_stack lc)) then elements (lc_stack lc) ! i else None
   | Default_logger \<Rightarrow> Some (default_logger lc))"

text \<open>A process asks for one logger after another.\<close>

primrec GetLoggers :: "string_view list \<Rightarrow> LoggerContainer \<Rightarrow> (LoggerContainer \<times> logger_ref list) run" where
  "GetLoggers [] lc = Some (Ret (lc, []))"
| "GetLoggers (v # vs) lc =
     bind_run (GetLogger v lc) (\<lambda>(lc, r). bind_run (GetLoggers vs lc) (\<lambda>(lc, rs). Some (Ret (lc, r # rs))))"

section \<open>Contexts\<close>

lemma GetContext_ctor: "GetContext (Logger_ctor (Some cs)) = cs \<longleftrightarrow> fits cs"
  by (simp add: GetContext_def Logger_ctor_def view_chars_def kept_iff)

section \<open>Calls on the container\<close>

text \<open>The container with loggers \<open>xs\<close>, in the order they were made.\<close>

definition container_rep :: "Logger list \<Rightarrow> LoggerContainer \<Rightarrow> bool" where
  "container_rep xs lc \<longleftrightarrow> represents kMaxLoggersSize xs (lc_stack lc) \<and>
     default_logger lc = Logger_ctor (Some GetDefaultContextId)"

definition context_index :: "string \<Rightarrow> Logger list \<Rightarrow> nat option" where
  "context_index cs xs = first_index (\<lambda>l. GetContext l = cs) xs"

text \<open>What a call does to the loggers, and the reference it returns.\<close>

definition logger_after :: "string_view \<Rightarrow> Logger list \<Rightarrow> Logger list" where
  "logger_after v xs =
     (if context_index (view_chars v) xs = None \<and> length xs < kMaxLoggersSize then xs @ [Logger_ctor v] else xs)"

definition logger_ref_of :: "string_view \<Rightarrow> Logger list \<Rightarrow> logger_ref" where
  "logger_ref_of v xs = (case context_index (view_chars v) xs of
     Some i \<Rightarrow> In_stack i
   | None \<Rightarrow> if length xs < kMaxLoggersSize then In_stack (length xs) else Default_logger)"

lemma container_ctor: "container_rep [] LoggerContainer_ctor"
  by (simp add: container_rep_def LoggerContainer_ctor_def represents_ctor kMaxLoggersSize_def)

lemma GetLogger_refines:
  assumes "container_rep xs lc"
  shows "\<exists>lc'. GetLogger v lc = Some (Ret (lc', logger_ref_of v xs)) \<and> container_rep (logger_after v xs) lc'"
proof -
  let ?find = "Find (stack_fuel kMaxLoggersSize) (\<lambda>l. GetContext l = view_chars v) (lc_stack lc)"
  have rep: "represents kMaxLoggersSize xs (lc_stack lc)" using assms by (simp add: container_rep_def)
  have found: "?find = Some (Ret (lc_stack lc, context_index (view_chars v) xs))"
    using wfs.find_first[OF rep] by (simp add: context_index_def)
  show ?thesis
  proof (cases "context_index (view_chars v) xs")
    case None
    show ?thesis
      by (cases rule: wfs.push_cases[OF rep, of "Logger_ctor v"])
         (use None assms found in \<open>auto simp: GetLogger_def FindExistingLogger_def InsertNewLogger_def
            logger_ref_of_def logger_after_def container_rep_def\<close>)
  next
    case (Some i)
    then show ?thesis using assms found
      by (simp add: GetLogger_def FindExistingLogger_def logger_ref_of_def logger_after_def container_rep_def)
  qed
qed

primrec loggers_after :: "string_view list \<Rightarrow> Logger list \<Rightarrow> Logger list" where
  "loggers_after [] xs = xs"
| "loggers_after (v # vs) xs = loggers_after vs (logger_after v xs)"

primrec logger_refs :: "string_view list \<Rightarrow> Logger list \<Rightarrow> logger_ref list" where
  "logger_refs [] xs = []"
| "logger_refs (v # vs) xs = logger_ref_of v xs # logger_refs vs (logger_after v xs)"

lemma GetLoggers_refines:
  assumes "container_rep xs lc"
  shows "\<exists>lc'. GetLoggers vs lc = Some (Ret (lc', logger_refs vs xs)) \<and> container_rep (loggers_after vs xs) lc'"
  using assms
proof (induction vs arbitrary: xs lc)
  case (Cons v vs)
  obtain lc1 where first: "GetLogger v lc = Some (Ret (lc1, logger_ref_of v xs))" "container_rep (logger_after v xs) lc1"
    using GetLogger_refines[OF Cons.prems] by blast
  show ?case using Cons.IH[OF first(2)] first(1) by auto
qed simp

lemma length_logger_refs [simp]: "length (logger_refs vs xs) = length vs"
  by (induction vs arbitrary: xs) auto

section \<open>Stability\<close>

lemma first_index_append: "first_index q xs = Some i \<Longrightarrow> first_index q (xs @ ys) = Some i"
  by (auto simp: first_index_Some nth_append)

lemma first_index_snoc: "first_index q xs = None \<Longrightarrow> q x \<Longrightarrow> first_index q (xs @ [x]) = Some (length xs)"
  by (auto simp: first_index_None first_index_Some nth_append)

lemma loggers_after_keep: "context_index cs xs = Some i \<Longrightarrow> context_index cs (loggers_after vs xs) = Some i"
proof (induction vs arbitrary: xs)
  case (Cons v vs)
  have "context_index cs (logger_after v xs) = Some i"
    using Cons.prems by (auto simp: context_index_def logger_after_def intro: first_index_append)
  then show ?case using Cons.IH by simp
qed simp

lemma loggers_after_full: "kMaxLoggersSize \<le> length xs \<Longrightarrow> loggers_after vs xs = xs"
  by (induction vs) (auto simp: logger_after_def)

lemma logger_ref_of_final:
  assumes "fits cs"
  shows "logger_ref_of (Some cs) xs =
    (case context_index cs (loggers_after vs (logger_after (Some cs) xs)) of Some k \<Rightarrow> In_stack k | None \<Rightarrow> Default_logger)"
proof (cases "context_index cs xs")
  case None
  show ?thesis
  proof (cases "length xs < kMaxLoggersSize")
    case True
    have "context_index cs (logger_after (Some cs) xs) = Some (length xs)"
      using None True assms by (simp add: logger_after_def context_index_def first_index_snoc GetContext_ctor view_chars_def)
    then show ?thesis using None True by (simp add: logger_ref_of_def loggers_after_keep view_chars_def)
  next
    case False
    then show ?thesis using None by (simp add: logger_ref_of_def logger_after_def loggers_after_full view_chars_def)
  qed
next
  case (Some k)
  then show ?thesis by (simp add: logger_ref_of_def logger_after_def loggers_after_keep view_chars_def)
qed

lemma logger_refs_final:
  assumes "i < length vs" "vs ! i = Some cs" "fits cs"
  shows "logger_refs vs xs ! i =
    (case context_index cs (loggers_after vs xs) of Some k \<Rightarrow> In_stack k | None \<Rightarrow> Default_logger)"
  using assms(1,2)
proof (induction vs arbitrary: i xs)
  case (Cons v vs)
  then show ?case using logger_ref_of_final[OF assms(3), of xs vs] by (cases i) auto
qed simp

lemma default_full: "i < length vs \<Longrightarrow> logger_refs vs xs ! i = Default_logger \<Longrightarrow> kMaxLoggersSize \<le> length (loggers_after vs xs)"
proof (induction vs arbitrary: i xs)
  case (Cons v vs)
  show ?case
  proof (cases i)
    case 0
    then have "kMaxLoggersSize \<le> length xs" using Cons.prems by (auto simp: logger_ref_of_def split: option.splits if_splits)
    then show ?thesis by (simp add: loggers_after_full logger_after_def)
  next
    case (Suc j)
    then show ?thesis using Cons.IH[of j] Cons.prems by simp
  qed
qed simp

text \<open>The contexts of the loggers that were made are different and come from the calls.\<close>

lemma loggers_after_contexts:
  assumes "\<And>v. v \<in> set vs \<Longrightarrow> \<exists>cs. v = Some cs \<and> fits cs" "distinct (map GetContext xs)"
  shows "distinct (map GetContext (loggers_after vs xs)) \<and>
    Some ` set (map GetContext (loggers_after vs xs)) \<subseteq> Some ` set (map GetContext xs) \<union> set vs"
  using assms
proof (induction vs arbitrary: xs)
  case (Cons v vs)
  obtain cs where v: "v = Some cs" "fits cs" using Cons.prems(1) by auto
  have ctx: "GetContext (Logger_ctor v) = cs" using v GetContext_ctor[of cs] by simp
  have step: "distinct (map GetContext (logger_after v xs))" "Some ` set (map GetContext (logger_after v xs)) \<subseteq> Some ` set (map GetContext xs) \<union> {v}"
    using Cons.prems(2) v ctx by (auto simp: logger_after_def context_index_def first_index_None view_chars_def)
  have rest: "\<exists>cs. w = Some cs \<and> fits cs" if "w \<in> set vs" for w using Cons.prems(1)[of w] that by simp
  show ?case using Cons.IH[OF rest step(1)] step(2) by (simp only: loggers_after.simps list.set) blast
qed simp

lemma logger_refs_no_default:
  assumes "\<And>v. v \<in> set vs \<Longrightarrow> \<exists>cs. v = Some cs \<and> fits cs" "card (set vs) \<le> kMaxLoggersSize"
  shows "Default_logger \<notin> set (logger_refs vs [])"
proof
  let ?xs = "loggers_after vs []"
  let ?C = "Some ` set (map GetContext ?xs)"
  assume "Default_logger \<in> set (logger_refs vs [])"
  then obtain i where i: "i < length vs" "logger_refs vs [] ! i = Default_logger" by (auto simp: in_set_conv_nth)
  obtain cs where cs: "vs ! i = Some cs" "fits cs" using assms(1)[OF nth_mem[OF i(1)]] by blast
  have missing: "context_index cs ?xs = None" using logger_refs_final[OF i(1) cs] i(2) by (simp split: option.splits)
  have c: "distinct (map GetContext ?xs)" "?C \<subseteq> set vs" using loggers_after_contexts[of vs "[]", OF assms(1)] by simp_all
  have "Some cs \<notin> ?C" using missing by (auto simp: context_index_def first_index_None)
  then have "?C \<subset> set vs" using c(2) cs(1) nth_mem[OF i(1)] by auto
  then have "card ?C < card (set vs)" by (simp add: psubset_card_mono)
  moreover have "card ?C = length ?xs" using distinct_card[OF c(1)] card_image[OF inj_Some, of "set (map GetContext ?xs)"] by simp
  ultimately have "length ?xs < kMaxLoggersSize" using assms(2) by simp
  moreover have "kMaxLoggersSize \<le> length ?xs" using default_full[OF i(1)] i(2) by simp
  ultimately show False by simp
qed

section \<open>Correctness\<close>

lemma context_index_inj: "context_index cs xs = Some k \<Longrightarrow> context_index ds xs = Some k \<Longrightarrow> cs = ds"
  by (auto simp: context_index_def first_index_Some)

lemma deref_In_stack: "container_rep xs lc \<Longrightarrow> k < length xs \<Longrightarrow> deref_logger lc (In_stack k) = Some (xs ! k)"
proof -
  assume rep: "container_rep xs lc" and k: "k < length xs"
  have "represents kMaxLoggersSize xs (lc_stack lc)" "k < kMaxLoggersSize"
    using rep k by (simp_all add: container_rep_def represents_def)
  then show "deref_logger lc (In_stack k) = Some (xs ! k)" using represents_nth(1,3)[of kMaxLoggersSize xs "lc_stack lc" k] k by (simp add: deref_logger_def)
qed

text \<open>
  C37: A call of GetLogger returns the oldest logger that has the context. If there is none it makes
  one in the next free place, and if there is no free place either it returns the default logger. All loggers
  that were made before keep their places.
\<close>

theorem GetLogger_correct:
  assumes "container_rep xs lc"
  shows "\<exists>lc' r xs'. GetLogger v lc = Some (Ret (lc', r)) \<and> container_rep xs' lc' \<and>
    (if \<exists>l\<in>set xs. GetContext l = view_chars v
     then xs' = xs \<and> (\<exists>i<length xs. r = In_stack i \<and> GetContext (xs ! i) = view_chars v \<and>
       (\<forall>j<i. GetContext (xs ! j) \<noteq> view_chars v))
     else if length xs < GetCapacity then xs' = xs @ [Logger_ctor v] \<and> r = In_stack (length xs)
     else xs' = xs \<and> r = Default_logger)"
proof -
  obtain lc' where call: "GetLogger v lc = Some (Ret (lc', logger_ref_of v xs))" "container_rep (logger_after v xs) lc'"
    using GetLogger_refines[OF assms] by blast
  show ?thesis
  proof (cases "context_index (view_chars v) xs")
    case None
    then have "\<not> (\<exists>l\<in>set xs. GetContext l = view_chars v)" by (auto simp: context_index_def first_index_None)
    then show ?thesis using call None
      by (cases "length xs < kMaxLoggersSize") (simp_all add: logger_ref_of_def logger_after_def GetCapacity_def)
  next
    case (Some i)
    then have i: "i < length xs" "GetContext (xs ! i) = view_chars v" "\<forall>j<i. GetContext (xs ! j) \<noteq> view_chars v"
      by (simp_all add: context_index_def first_index_Some)
    then have "\<exists>l\<in>set xs. GetContext l = view_chars v" using nth_mem by blast
    moreover have "logger_ref_of v xs = In_stack i" "logger_after v xs = xs" using Some by (simp_all add: logger_ref_of_def logger_after_def)
    ultimately show ?thesis using call i by auto
  qed
qed

theorem GetLogger_correct_witness:
  "\<exists>lc'. GetLogger (Some ''CTX'') LoggerContainer_ctor = Some (Ret (lc', In_stack 0)) \<and> container_rep [Logger_ctor (Some ''CTX'')] lc'"
  using GetLogger_correct[OF container_ctor, of "Some ''CTX''"] by (auto simp: GetCapacity_def kMaxLoggersSize_def)

text \<open>
  C38: Whatever loggers a process asks for, every call returns. Contexts of at most four characters that are not
  zero keep their loggers: the same context gets the same logger in all calls and that logger has
  this context, different contexts get different loggers unless the container is full, and with at
  most 32 such contexts and no others nobody gets the default logger.
\<close>

theorem GetLoggers_stable:
  "\<exists>lc rs. GetLoggers vs LoggerContainer_ctor = Some (Ret (lc, rs)) \<and> length rs = length vs \<and>
    (\<forall>i<length vs. \<forall>cs. vs ! i = Some cs \<and> fits cs \<longrightarrow>
       rs ! i = Default_logger \<or> map_option GetContext (deref_logger lc (rs ! i)) = Some cs) \<and>
    (\<forall>i<length vs. \<forall>j<length vs. \<forall>cs ds. vs ! i = Some cs \<and> vs ! j = Some ds \<and> fits cs \<and> fits ds \<longrightarrow>
       (rs ! i = rs ! j \<longleftrightarrow> cs = ds \<or> rs ! i = Default_logger \<and> rs ! j = Default_logger)) \<and>
    ((\<forall>v\<in>set vs. \<exists>cs. v = Some cs \<and> fits cs) \<and> card (set vs) \<le> GetCapacity \<longrightarrow> Default_logger \<notin> set rs)"
proof -
  let ?xs = "loggers_after vs []"
  define rs where "rs = logger_refs vs []"
  define ref where "ref cs = (case context_index cs ?xs of Some k \<Rightarrow> In_stack k | None \<Rightarrow> Default_logger)" for cs
  obtain lc where run: "GetLoggers vs LoggerContainer_ctor = Some (Ret (lc, rs))" "container_rep ?xs lc"
    using GetLoggers_refines[OF container_ctor] unfolding rs_def by blast
  have rs: "rs ! i = ref cs" if "i < length vs" "vs ! i = Some cs" "fits cs" for i cs
    using logger_refs_final[OF that] by (simp add: rs_def ref_def)
  have "ref cs = Default_logger \<or> map_option GetContext (deref_logger lc (ref cs)) = Some cs" for cs
    using deref_In_stack[OF run(2)] by (auto simp: ref_def context_index_def first_index_Some split: option.splits)
  then have kept: "rs ! i = Default_logger \<or> map_option GetContext (deref_logger lc (rs ! i)) = Some cs"
    if "i < length vs" "vs ! i = Some cs" "fits cs" for i cs
    by (simp add: rs[OF that])
  have "ref cs = ref ds \<longleftrightarrow> cs = ds \<or> ref cs = Default_logger \<and> ref ds = Default_logger" for cs ds
    by (auto simp: ref_def split: option.splits dest: context_index_inj)
  then have inj: "rs ! i = rs ! j \<longleftrightarrow> cs = ds \<or> rs ! i = Default_logger \<and> rs ! j = Default_logger"
    if "i < length vs" "vs ! i = Some cs" "fits cs" "j < length vs" "vs ! j = Some ds" "fits ds" for i j cs ds
    by (simp add: rs[OF that(1-3)] rs[OF that(4-6)])
  show ?thesis
  proof (rule exI[of _ lc], rule exI[of _ rs], intro conjI)
    show "GetLoggers vs LoggerContainer_ctor = Some (Ret (lc, rs))" by (rule run(1))
    show "length rs = length vs" by (simp add: rs_def)
    show "\<forall>i<length vs. \<forall>cs. vs ! i = Some cs \<and> fits cs \<longrightarrow>
       rs ! i = Default_logger \<or> map_option GetContext (deref_logger lc (rs ! i)) = Some cs"
      using kept by metis
    show "\<forall>i<length vs. \<forall>j<length vs. \<forall>cs ds. vs ! i = Some cs \<and> vs ! j = Some ds \<and> fits cs \<and> fits ds \<longrightarrow>
       (rs ! i = rs ! j \<longleftrightarrow> cs = ds \<or> rs ! i = Default_logger \<and> rs ! j = Default_logger)"
      by (intro allI impI, elim conjE) (rule inj)
    show "(\<forall>v\<in>set vs. \<exists>cs. v = Some cs \<and> fits cs) \<and> card (set vs) \<le> GetCapacity \<longrightarrow> Default_logger \<notin> set rs"
      using logger_refs_no_default[of vs] by (simp add: GetCapacity_def rs_def)
  qed
qed

theorem GetLoggers_stable_witness:
  "\<exists>lc a b. GetLoggers [Some ''ABC'', Some ''X'', Some ''ABC''] LoggerContainer_ctor = Some (Ret (lc, [a, b, a])) \<and>
     a \<noteq> b \<and> a \<noteq> Default_logger \<and> map_option GetContext (deref_logger lc a) = Some ''ABC''"
proof -
  let ?vs = "[Some ''ABC'', Some ''X'', Some ''ABC'']"
  have fit: "fits ''ABC''" "fits ''X''" by (simp_all add: fits_def kMaxLength_def)
  have all: "(\<forall>v\<in>set ?vs. \<exists>cs. v = Some cs \<and> fits cs) \<and> card (set ?vs) \<le> GetCapacity"
    using fit card_length[of ?vs] by (simp add: GetCapacity_def kMaxLoggersSize_def)
  from GetLoggers_stable[of ?vs] obtain lc rs where
    run: "GetLoggers ?vs LoggerContainer_ctor = Some (Ret (lc, rs))" and len: "length rs = length ?vs" and
    kept: "\<forall>i<length ?vs. \<forall>cs. ?vs ! i = Some cs \<and> fits cs \<longrightarrow>
       rs ! i = Default_logger \<or> map_option GetContext (deref_logger lc (rs ! i)) = Some cs" and
    inj: "\<forall>i<length ?vs. \<forall>j<length ?vs. \<forall>cs ds. ?vs ! i = Some cs \<and> ?vs ! j = Some ds \<and> fits cs \<and> fits ds \<longrightarrow>
       (rs ! i = rs ! j \<longleftrightarrow> cs = ds \<or> rs ! i = Default_logger \<and> rs ! j = Default_logger)" and
    default: "(\<forall>v\<in>set ?vs. \<exists>cs. v = Some cs \<and> fits cs) \<and> card (set ?vs) \<le> GetCapacity \<longrightarrow> Default_logger \<notin> set rs"
    by (elim exE conjE) (rule that)
  obtain a b c where rs: "rs = [a, b, c]" using len by (auto simp: length_Suc_conv)
  have "a = c" using inj[rule_format, of 0 2 "''ABC''" "''ABC''"] fit by (simp add: rs)
  moreover have "a \<noteq> Default_logger" using default[rule_format, OF all] by (auto simp: rs)
  moreover from this have "a \<noteq> b" using inj[rule_format, of 0 1 "''ABC''" "''X''"] fit by (simp add: rs)
  ultimately show ?thesis using run kept[rule_format, of 0 "''ABC''"] fit by (simp add: rs)
qed

text \<open>
  Longer contexts are cut when the logger is made but not when it is looked up, so every call with such a context
  takes another place.
\<close>

lemma long_context_missing:
  assumes "kMaxLength < length cs"
  shows "context_index cs (replicate k (Logger_ctor (Some cs))) = None"
proof -
  have "GetContext (Logger_ctor (Some cs)) \<noteq> cs" using assms GetContext_ctor[of cs] by (simp add: fits_def)
  then show ?thesis by (simp add: context_index_def first_index_None)
qed

lemma GetLogger_long_context:
  assumes "kMaxLength < length cs" "k \<le> GetCapacity"
  shows "\<exists>lc. GetLoggers (replicate k (Some cs)) LoggerContainer_ctor = Some (Ret (lc, map In_stack [0..<k])) \<and>
    container_rep (replicate k (Logger_ctor (Some cs))) lc"
proof -
  have "loggers_after (replicate k (Some cs)) (replicate n (Logger_ctor (Some cs))) = replicate (n + k) (Logger_ctor (Some cs)) \<and>
    logger_refs (replicate k (Some cs)) (replicate n (Logger_ctor (Some cs))) = map In_stack [n..<n + k]"
    if "n + k \<le> kMaxLoggersSize" for n
    using that
  proof (induction k arbitrary: n)
    case (Suc k)
    have "logger_after (Some cs) (replicate n (Logger_ctor (Some cs))) = replicate (Suc n) (Logger_ctor (Some cs))"
      "logger_ref_of (Some cs) (replicate n (Logger_ctor (Some cs))) = In_stack n"
      using Suc.prems long_context_missing[OF assms(1)]
      by (simp_all add: logger_after_def logger_ref_of_def view_chars_def replicate_append_same)
    then show ?case using Suc.IH[of "Suc n"] Suc.prems by (simp add: upt_conv_Cons)
  qed simp
  from this[of 0] show ?thesis using GetLoggers_refines[OF container_ctor, of "replicate k (Some cs)"] assms(2)
    by (auto simp: GetCapacity_def)
qed

end
