(* ===== verification/Log_Record.thy ===== *)
theory Log_Record
  imports Log_Payload Log_Identifier
begin

text \<open>
  What a log message consists of: the levels of src/score/mw/log/log_level.cpp, the handles of slot_handle.cpp, the
  records of detail/log_record.cpp and the decision of configuration.cpp whether a level is logged. A payload
  refers to the buffer of its own record, so a record holds the buffer.
\<close>

section \<open>Levels\<close>

type_synonym LogLevel = "8 word"

definition kOff :: LogLevel where "kOff = 0"
definition kFatal :: LogLevel where "kFatal = 1"
definition kError :: LogLevel where "kError = 2"
definition kWarn :: LogLevel where "kWarn = 3"
definition kInfo :: LogLevel where "kInfo = 4"
definition kDebug :: LogLevel where "kDebug = 5"
definition kVerbose :: LogLevel where "kVerbose = 6"

definition GetMaxLogLevelValue :: LogLevel where
  "GetMaxLogLevelValue = fold max [kInfo, kWarn, kError, kFatal, kDebug, kOff] kVerbose"

definition GetLogLevelFromU8 :: "8 word \<Rightarrow> LogLevel" where
  "GetLogLevelFromU8 candidate_log_level =
     (if candidate_log_level \<le> GetMaxLogLevelValue then candidate_log_level else kOff)"

definition TryGetLogLevelFromU8 :: "8 word \<Rightarrow> LogLevel option" where
  "TryGetLogLevelFromU8 candidate_log_level =
     (if candidate_log_level \<le> GetMaxLogLevelValue then Some candidate_log_level else None)"

text \<open>The levels of the contexts are found by their identifiers.\<close>

record log_configuration =
  cfg_app_id :: string
  context_log_level :: "string \<rightharpoonup> LogLevel"
  default_log_level :: LogLevel
  default_console_log_level :: LogLevel

definition IsLogLevelEnabled :: "log_configuration \<Rightarrow> LogLevel \<Rightarrow> string \<Rightarrow> bool \<Rightarrow> bool" where
  "IsLogLevelEnabled cfg log_level ctx check_for_console = (
     let max_log_level = (case context_log_level cfg (LoggingIdentifier_ctor ctx) of
           Some l \<Rightarrow> l
         | None \<Rightarrow> if \<not> check_for_console then default_log_level cfg else default_console_log_level cfg)
     in log_level \<le> max_log_level)"

section \<open>Handles\<close>

definition kMaxRecorders :: nat where
  "kMaxRecorders = 4"

record slot_handle =
  recorder_to_slot :: "16 word list"
  recorder_slot_available :: "bool list"
  selected_recorder :: nat

definition SlotHandle_default :: slot_handle where
  "SlotHandle_default =
     \<lparr>recorder_to_slot = replicate kMaxRecorders 0, recorder_slot_available = replicate kMaxRecorders False, selected_recorder = 0\<rparr>"

definition IsRecorderValid :: "nat \<Rightarrow> bool" where
  "IsRecorderValid recorder \<longleftrightarrow> recorder < kMaxRecorders"

definition SetSlot :: "16 word \<Rightarrow> nat \<Rightarrow> slot_handle \<Rightarrow> slot_handle" where
  "SetSlot slot_index recorder h = (
     if \<not> IsRecorderValid recorder then h
     else h\<lparr>recorder_slot_available := (recorder_slot_available h)[recorder := True],
            recorder_to_slot := (recorder_to_slot h)[recorder := slot_index]\<rparr>)"

definition SlotHandle_ctor :: "16 word \<Rightarrow> slot_handle" where
  "SlotHandle_ctor slot_index = SetSlot slot_index 0 SlotHandle_default"

definition GetSlotOfSelectedRecorder :: "slot_handle \<Rightarrow> 16 word" where
  "GetSlotOfSelectedRecorder h = recorder_to_slot h ! selected_recorder h"

definition GetSlot :: "nat \<Rightarrow> slot_handle \<Rightarrow> 16 word" where
  "GetSlot recorder h = (if \<not> IsRecorderValid recorder then 0 else recorder_to_slot h ! recorder)"

definition SetSelectedRecorder :: "nat \<Rightarrow> slot_handle \<Rightarrow> slot_handle" where
  "SetSelectedRecorder recorder h = (if \<not> IsRecorderValid recorder then h else h\<lparr>selected_recorder := recorder\<rparr>)"

definition IsRecorderActive :: "nat \<Rightarrow> slot_handle \<Rightarrow> bool" where
  "IsRecorderActive recorder h = (if \<not> IsRecorderValid recorder then False else recorder_slot_available h ! recorder)"

definition slot_handle_eq :: "slot_handle \<Rightarrow> slot_handle \<Rightarrow> bool" where
  "slot_handle_eq l_value r_value \<longleftrightarrow>
     selected_recorder l_value = selected_recorder r_value \<and>
     list_all2 (=) (recorder_to_slot l_value) (recorder_to_slot r_value)"

text \<open>The class invariant: the arrays have their length and the selected recorder is valid.\<close>

definition handle_wf :: "slot_handle \<Rightarrow> bool" where
  "handle_wf h \<longleftrightarrow> length (recorder_to_slot h) = kMaxRecorders \<and> length (recorder_slot_available h) = kMaxRecorders \<and>
     selected_recorder h < kMaxRecorders"

lemma handle_wf_operations:
  "handle_wf SlotHandle_default" "handle_wf (SlotHandle_ctor i)"
  "handle_wf h \<Longrightarrow> handle_wf (SetSlot i r h)" "handle_wf h \<Longrightarrow> handle_wf (SetSelectedRecorder r h)"
  by (simp_all add: handle_wf_def SlotHandle_default_def SlotHandle_ctor_def SetSlot_def SetSelectedRecorder_def
      IsRecorderValid_def kMaxRecorders_def)

lemma GetSlot_SetSlot:
  "handle_wf h \<Longrightarrow> r < kMaxRecorders \<Longrightarrow>
   GetSlot q (SetSlot i r h) = (if q = r then i else GetSlot q h) \<and>
   IsRecorderActive q (SetSlot i r h) = (q = r \<or> IsRecorderActive q h)"
  by (auto simp: handle_wf_def GetSlot_def SetSlot_def IsRecorderActive_def IsRecorderValid_def nth_list_update)

lemma GetSlotOfSelectedRecorder_ctor [simp]: "GetSlotOfSelectedRecorder (SlotHandle_ctor i) = i"
  by (simp add: GetSlotOfSelectedRecorder_def SlotHandle_ctor_def SetSlot_def IsRecorderValid_def SlotHandle_default_def kMaxRecorders_def)

section \<open>Records\<close>

record log_record =
  rec_app_id :: string
  rec_ctx_id :: string
  rec_payload :: byte_vector
  num_of_args :: "8 word"
  rec_log_level :: LogLevel

definition LogRecord_ctor :: "nat \<Rightarrow> log_record result" where
  "LogRecord_ctor max_payload_size_bytes =
     bind_outcome (VerbosePayload_ctor max_payload_size_bytes \<lparr>bv_bytes = [], bv_capacity = 0\<rparr>) (\<lambda>buffer.
     Ret \<lparr>rec_app_id = LoggingIdentifier_ctor [], rec_ctx_id = LoggingIdentifier_ctor [], rec_payload = buffer,
          num_of_args = 0, rec_log_level = 0\<rparr>)"

text \<open>
  Assigning a vector copies its elements but no spare capacity; shrinking and reserving gives the target the
  capacity of the source again.
\<close>

definition SetupBuffer :: "nat \<Rightarrow> log_record \<Rightarrow> log_record result" where
  "SetupBuffer n dst =
     bind_outcome (vector_reserve n ((rec_payload dst)\<lparr>bv_capacity := vector_size (rec_payload dst)\<rparr>)) (\<lambda>buffer.
     Ret (dst\<lparr>rec_payload := buffer\<rparr>))"

definition vector_copy :: "byte_vector \<Rightarrow> byte_vector" where
  "vector_copy v = v\<lparr>bv_capacity := vector_size v\<rparr>"

definition CopyConstruct :: "log_record \<Rightarrow> log_record result" where
  "CopyConstruct src = SetupBuffer (bv_capacity (rec_payload src)) (src\<lparr>rec_payload := vector_copy (rec_payload src)\<rparr>)"

lemma CopyConstruct_same: "payload_wf (rec_payload r) \<Longrightarrow> CopyConstruct r = Ret r"
  using size_bounds by (auto simp: CopyConstruct_def SetupBuffer_def vector_copy_def vector_reserve_def payload_wf_def vector_size_def)

end
