(* ===== verification/Log_Drain.thy ===== *)
theory Log_Drain
  imports Circular_Buffer Log_Record Log_Slots
begin

text \<open>
  The way of a log message from its slot to the file: src/score/mw/log/detail/text_recorder, with
  text_message_builder.cpp, non_blocking_writer.cpp and slot_drainer.cpp.
  The operations of the drainer run under its mutex, one at a time. The operating system is the parameter
  \<open>env\<close>: a write takes some of the bytes or fails, and the clock gives the texts of the time. Spans and
  references point into the memory of the model and are read when the code reads them.
\<close>

section \<open>Environment\<close>

text \<open>A time is the text of the local time, if there is one, the milliseconds and the time stamp.\<close>

type_synonym clock_reading = "string option \<times> nat \<times> 32 word"

record 'os environment =
  sys_write :: "'os \<Rightarrow> string \<Rightarrow> 'os \<times> nat option"
  sys_clock :: "'os \<Rightarrow> 'os \<times> clock_reading"

section \<open>State\<close>

datatype ParsingPhase = kHeader | kPayload | kReinitialize

text \<open>The log record of the builder is a reference to the record in a slot.\<close>

record message_builder =
  mb_log_record :: "nat option"
  header_payload :: byte_vector
  parsing_phase :: ParsingPhase
  ecu_id :: string

text \<open>The spans point to the first bytes of the header or of the payload in a slot.\<close>

datatype span = Span_null | Span_header nat | Span_payload nat nat

fun span_size :: "span \<Rightarrow> nat" where
  "span_size Span_null = 0"
| "span_size (Span_header n) = n"
| "span_size (Span_payload i n) = n"

datatype write_result = kWouldBlock | kDone

record non_blocking_writer =
  number_of_flushed_bytes :: nat
  nw_buffer :: span
  buffer_flushed :: write_result
  max_chunk_size :: nat

text \<open>
  Destroying a handle does nothing, so the bytes of a popped handle stay in their cell until a new handle is
  constructed there: \<open>cells\<close>. The reference to the current slot is such a cell.
\<close>

record 'os drainer =
  dr_allocator :: "log_record allocator"
  builder :: message_builder
  handles :: "slot_handle circular_buffer"
  cells :: "nat \<Rightarrow> slot_handle"
  current_slot :: "nat option"
  writer :: non_blocking_writer
  limit_slots_in_one_cycle :: nat
  os :: 'os

section \<open>Message builder\<close>

definition kMaxHeaderSize :: nat where
  "kMaxHeaderSize = 512"

definition LogLevelToString :: "LogLevel \<Rightarrow> byte_vector \<Rightarrow> byte_vector result" where
  "LogLevelToString level payload =
     (if level = kOff then TextFormat_Log (Arg_string ''off'') payload
      else if level = kFatal then TextFormat_Log (Arg_string ''fatal'') payload
      else if level = kError then TextFormat_Log (Arg_string ''error'') payload
      else if level = kWarn then TextFormat_Log (Arg_string ''warn'') payload
      else if level = kInfo then TextFormat_Log (Arg_string ''info'') payload
      else if level = kDebug then TextFormat_Log (Arg_string ''debug'') payload
      else if level = kVerbose then TextFormat_Log (Arg_string ''verbose'') payload
      else TextFormat_Log (Arg_string ''undefined'') payload)"

definition TextMessageBuilder_ctor :: "string \<Rightarrow> message_builder result" where
  "TextMessageBuilder_ctor ecu =
     bind_outcome (VerbosePayload_ctor kMaxHeaderSize \<lparr>bv_bytes = [], bv_capacity = 0\<rparr>) (\<lambda>header.
     Ret \<lparr>mb_log_record = None, header_payload = header, parsing_phase = kHeader, ecu_id = LoggingIdentifier_ctor ecu\<rparr>)"

definition put_header :: "clock_reading \<Rightarrow> string \<Rightarrow> log_record \<Rightarrow> byte_vector \<Rightarrow> byte_vector result" where
  "put_header now ecu log_entry payload = (case now of (time_str, milliseconds, timestamp) \<Rightarrow>
     bind_outcome (PutFormattedTime time_str milliseconds payload) (\<lambda>payload.
     bind_outcome (TextFormat_Log (Arg_u32 timestamp) payload) (\<lambda>payload.
     bind_outcome (TextFormat_Log (Arg_string ''000'') payload) (\<lambda>payload.
     bind_outcome (TextFormat_Log (Arg_string (GetStringView ecu)) payload) (\<lambda>payload.
     bind_outcome (TextFormat_Log (Arg_string (GetStringView (rec_app_id log_entry))) payload) (\<lambda>payload.
     bind_outcome (TextFormat_Log (Arg_string (GetStringView (rec_ctx_id log_entry))) payload) (\<lambda>payload.
     bind_outcome (TextFormat_Log (Arg_string ''log'') payload) (\<lambda>payload.
     bind_outcome (LogLevelToString (rec_log_level log_entry) payload) (\<lambda>payload.
     bind_outcome (TextFormat_Log (Arg_string ''verbose'') payload) (\<lambda>payload.
     TextFormat_Log (Arg_u8 (num_of_args log_entry)) payload))))))))))"

definition SetNextMessage :: "'os environment \<Rightarrow> nat \<Rightarrow> 'os drainer \<Rightarrow> 'os drainer result" where
  "SetNextMessage env i d =
     bind_outcome (GetUnderlyingBufferFor i (dr_allocator d)) (\<lambda>log_entry.
     case sys_clock env (os d) of (os', now) \<Rightarrow>
     bind_outcome (put_header now (ecu_id (builder d)) log_entry (header_payload (builder d))) (\<lambda>header.
     Ret (d\<lparr>os := os', builder := (builder d)\<lparr>mb_log_record := Some i, header_payload := header, parsing_phase := kHeader\<rparr>\<rparr>)))"

definition update_payload :: "nat \<Rightarrow> byte_vector \<Rightarrow> 'os drainer \<Rightarrow> 'os drainer result" where
  "update_payload i payload d =
     bind_outcome (GetUnderlyingBufferFor i (dr_allocator d)) (\<lambda>r.
     bind_outcome (write_slot i (r\<lparr>rec_payload := payload\<rparr>) (dr_allocator d)) (\<lambda>a. Ret (d\<lparr>dr_allocator := a\<rparr>)))"

definition GetNextSpan :: "'os drainer \<Rightarrow> ('os drainer \<times> span option) result" where
  "GetNextSpan d = (case mb_log_record (builder d) of
     None \<Rightarrow> Ret (d, None)
   | Some i \<Rightarrow>
       bind_outcome (GetUnderlyingBufferFor i (dr_allocator d)) (\<lambda>r.
       case parsing_phase (builder d) of
         kHeader \<Rightarrow>
           Ret (d\<lparr>builder := (builder d)\<lparr>parsing_phase := kPayload\<rparr>\<rparr>,
                Some (Span_header (length (GetSpan (header_payload (builder d))))))
       | kPayload \<Rightarrow>
           bind_outcome (TerminateLog (rec_payload r)) (\<lambda>payload.
           bind_outcome (update_payload i payload d) (\<lambda>d.
           Ret (d\<lparr>builder := (builder d)\<lparr>parsing_phase := kReinitialize\<rparr>\<rparr>, Some (Span_payload i (length (GetSpan payload))))))
       | kReinitialize \<Rightarrow>
           bind_outcome (update_payload i (payload_Reset (rec_payload r)) d) (\<lambda>d.
           Ret (d\<lparr>builder := (builder d)\<lparr>parsing_phase := kHeader, header_payload := payload_Reset (header_payload (builder d)),
                    mb_log_record := None\<rparr>\<rparr>, None))))"

section \<open>Writer\<close>

definition GetMaxChunkSize :: nat where
  "GetMaxChunkSize = 2 ^ 63 - 1"

definition NonBlockingWriter_ctor :: "nat \<Rightarrow> non_blocking_writer" where
  "NonBlockingWriter_ctor chunk =
     \<lparr>number_of_flushed_bytes = 0, nw_buffer = Span_null, buffer_flushed = kWouldBlock, max_chunk_size = min chunk GetMaxChunkSize\<rparr>"

definition SetSpan :: "span \<Rightarrow> non_blocking_writer \<Rightarrow> non_blocking_writer" where
  "SetSpan s w = w\<lparr>buffer_flushed := kWouldBlock, number_of_flushed_bytes := 0, nw_buffer := s\<rparr>"

text \<open>The bytes behind a span; a span that is longer than its buffer by now reads out of bounds.\<close>

definition read_span :: "span \<Rightarrow> 'os drainer \<Rightarrow> string result" where
  "read_span s d = (case s of
     Span_null \<Rightarrow> Ret []
   | Span_header n \<Rightarrow>
       let bytes = bv_bytes (header_payload (builder d)) in if n \<le> length bytes then Ret (take n bytes) else Undefined
   | Span_payload i n \<Rightarrow>
       bind_outcome (GetUnderlyingBufferFor i (dr_allocator d)) (\<lambda>r.
       let bytes = bv_bytes (rec_payload r) in if n \<le> length bytes then Ret (take n bytes) else Undefined))"

definition InternalFlush :: "'os environment \<Rightarrow> nat \<Rightarrow> 'os drainer \<Rightarrow> ('os drainer \<times> bool) result" where
  "InternalFlush env size_to_flush d = (
     let w = writer d
     in if number_of_flushed_bytes w < span_size (nw_buffer w)
        then bind_outcome (read_span (nw_buffer w) d) (\<lambda>bytes.
             if length bytes < number_of_flushed_bytes w + size_to_flush then Undefined
             else case sys_write env (os d) (take size_to_flush (drop (number_of_flushed_bytes w) bytes)) of
               (os', None) \<Rightarrow> Ret (d\<lparr>os := os'\<rparr>, False)
             | (os', Some k) \<Rightarrow>
                 Ret (d\<lparr>os := os', writer := w\<lparr>number_of_flushed_bytes := (number_of_flushed_bytes w + k) mod 2 ^ 64\<rparr>\<rparr>, True))
        else Ret (d, True))"

text \<open>The error of a write is \<open>Inl\<close>.\<close>

definition FlushIntoFile :: "'os environment \<Rightarrow> 'os drainer \<Rightarrow> ('os drainer \<times> (unit + write_result)) result" where
  "FlushIntoFile env d = (
     let w = writer d;
         buffer_size = span_size (nw_buffer w);
         left_over = nat ((int buffer_size - int (number_of_flushed_bytes w)) mod 2 ^ 64);
         bytes_to_write = (if max_chunk_size w \<le> left_over then max_chunk_size w else left_over)
     in bind_outcome (InternalFlush env bytes_to_write d) (\<lambda>(d, ok).
        if \<not> ok then Ret (d, Inl ())
        else let w = writer d;
                 w = (if number_of_flushed_bytes w = buffer_size then w\<lparr>buffer_flushed := kDone\<rparr> else w)
             in Ret (d\<lparr>writer := w\<rparr>, Inr (buffer_flushed w))))"

section \<open>Drainer\<close>

datatype FlushResult = kAllDataProcessed | kPartiallyProcessed | kNumberOfProcessedSlotsExceeded

definition kMaxCircularBufferSize :: nat where
  "kMaxCircularBufferSize = 1024"

definition SlotDrainer_ctor :: "message_builder \<Rightarrow> log_record allocator \<Rightarrow> 'os \<Rightarrow> nat \<Rightarrow> 'os drainer" where
  "SlotDrainer_ctor mb a system limit =
     \<lparr>dr_allocator = a, builder = mb, handles = make_circular_buffer kMaxCircularBufferSize, cells = \<lambda>_. SlotHandle_default,
      current_slot = None, writer = NonBlockingWriter_ctor GetMaxChunkSize, limit_slots_in_one_cycle = limit, os = system\<rparr>"

definition MoreSpansAvailableAndLoaded :: "'os drainer \<Rightarrow> ('os drainer \<times> bool) result" where
  "MoreSpansAvailableAndLoaded d =
     bind_outcome (GetNextSpan d) (\<lambda>(d, s). case s of
       Some s \<Rightarrow> Ret (d\<lparr>writer := SetSpan s (writer d)\<rparr>, True)
     | None \<Rightarrow> Ret (d, False))"

text \<open>A loop that ends with a result; the result of its body is \<open>None\<close> when the loop goes on.\<close>

primrec loop_run :: "nat \<Rightarrow> ('s \<Rightarrow> ('s \<times> 'r option) run) \<Rightarrow> 's \<Rightarrow> ('s \<times> 'r) run" where
  "loop_run 0 body s = None"
| "loop_run (Suc fuel) body s =
     bind_run (body s) (\<lambda>(s, r). case r of Some r \<Rightarrow> Some (Ret (s, r)) | None \<Rightarrow> loop_run fuel body s)"

definition flush_span :: "'os environment \<Rightarrow> 'os drainer \<Rightarrow> ('os drainer \<times> (unit + FlushResult) option) result" where
  "flush_span env d =
     bind_outcome (FlushIntoFile env d) (\<lambda>(d, status). case status of
       Inl e \<Rightarrow> Ret (d, Some (Inl e))
     | Inr r \<Rightarrow>
         if r \<noteq> kDone then Ret (d, Some (Inr kPartiallyProcessed))
         else bind_outcome (MoreSpansAvailableAndLoaded d) (\<lambda>(d, more).
              Ret (d, if more then None else Some (Inr kAllDataProcessed))))"

definition TryFlushSpans :: "nat \<Rightarrow> 'os environment \<Rightarrow> 'os drainer \<Rightarrow> ('os drainer \<times> (unit + FlushResult)) run" where
  "TryFlushSpans fuel env d = loop_run fuel (\<lambda>d. Some (flush_span env d)) d"

definition slot_of :: "slot_handle \<Rightarrow> nat" where
  "slot_of h = unat (GetSlotOfSelectedRecorder h)"

definition MoreSlotsAvailableAndLoaded :: "'os environment \<Rightarrow> 'os drainer \<Rightarrow> ('os drainer \<times> bool) result" where
  "MoreSlotsAvailableAndLoaded env d = (
     if cb_empty (handles d) then Ret (d, False)
     else bind_outcome (cb_front (handles d)) (\<lambda>reference_to_slot.
          bind_outcome (pop_front (handles d)) (\<lambda>b.
          let d = d\<lparr>handles := b, current_slot := Some reference_to_slot\<rparr>
          in bind_outcome (SetNextMessage env (slot_of (cells d reference_to_slot)) d) (\<lambda>d. Ret (d, True)))))"

definition release_current :: "'os drainer \<Rightarrow> 'os drainer result" where
  "release_current d = (case current_slot d of
     None \<Rightarrow> Ret d
   | Some c \<Rightarrow> bind_outcome (ReleaseSlot (slot_of (cells d c)) (dr_allocator d)) (\<lambda>a.
       Ret (d\<lparr>dr_allocator := a, current_slot := None\<rparr>)))"

definition flush_slot ::
  "nat \<Rightarrow> 'os environment \<Rightarrow> 'os drainer \<times> nat \<Rightarrow> (('os drainer \<times> nat) \<times> (unit + FlushResult) option) run" where
  "flush_slot fuel env s = (case s of (d, number_of_processed_slots) \<Rightarrow>
     bind_run (TryFlushSpans fuel env d) (\<lambda>(d, status).
     if status = Inl () \<or> status = Inr kPartiallyProcessed then Some (Ret ((d, number_of_processed_slots), Some status))
     else bind_run (Some (release_current d)) (\<lambda>d.
          if number_of_processed_slots > limit_slots_in_one_cycle d
          then Some (Ret ((d, number_of_processed_slots), Some (Inr kNumberOfProcessedSlotsExceeded)))
          else bind_run (Some (MoreSlotsAvailableAndLoaded env d)) (\<lambda>(d, more).
               Some (Ret ((d, Suc number_of_processed_slots), if more then None else Some (Inr kAllDataProcessed)))))))"

definition TryFlushSlots :: "nat \<Rightarrow> 'os environment \<Rightarrow> 'os drainer \<Rightarrow> ('os drainer \<times> (unit + FlushResult)) run" where
  "TryFlushSlots fuel env d = bind_run (loop_run fuel (flush_slot fuel env) (d, 0)) (\<lambda>((d, _), r). Some (Ret (d, r)))"

definition PushBack :: "slot_handle \<Rightarrow> 'os drainer \<Rightarrow> 'os drainer result" where
  "PushBack h d =
     bind_outcome (push_back (handles d) (External h)) (\<lambda>b.
     Ret (d\<lparr>handles := b, cells := (cells d)(tail (handles d) := h)\<rparr>))"

definition Flush :: "nat \<Rightarrow> 'os environment \<Rightarrow> 'os drainer \<Rightarrow> 'os drainer run" where
  "Flush fuel env d = bind_run (TryFlushSlots fuel env d) (\<lambda>(d, _). Some (Ret d))"

definition SlotDrainer_dtor :: "nat \<Rightarrow> 'os environment \<Rightarrow> 'os drainer \<Rightarrow> 'os drainer run" where
  "SlotDrainer_dtor fuel env d = Flush fuel env d"

section \<open>What is still to be written\<close>

text \<open>The documented behaviour of the operating system: \<open>output\<close> is what the file holds.\<close>

definition env_ok :: "'os environment \<Rightarrow> ('os \<Rightarrow> string) \<Rightarrow> bool" where
  "env_ok env output \<longleftrightarrow>
     (\<forall>s bytes. case sys_write env s bytes of
        (s', None) \<Rightarrow> output s' = output s
      | (s', Some k) \<Rightarrow> k \<le> length bytes \<and> output s' = output s @ take k bytes) \<and>
     (\<forall>s. output (fst (sys_clock env s)) = output s)"

definition payload_of :: "'os drainer \<Rightarrow> nat \<Rightarrow> byte_vector" where
  "payload_of d i = rec_payload (slot_data (ca_buffer (dr_allocator d) ! i))"

definition header_bytes :: "'os drainer \<Rightarrow> string" where
  "header_bytes d = bv_bytes (header_payload (builder d))"

text \<open>
  The text of a message: its header for some reading of the clock, its payload and the line feed, which is dropped
  when there is no room for it.
\<close>

definition record_of :: "'os drainer \<Rightarrow> nat \<Rightarrow> log_record" where
  "record_of d i = slot_data (ca_buffer (dr_allocator d) ! i)"

definition record_text :: "log_record \<Rightarrow> string" where
  "record_text r = bv_bytes (rec_payload r) @ take (RemainingCapacity (rec_payload r)) [CHR 0x0A]"

definition message_text :: "string \<Rightarrow> log_record \<Rightarrow> string \<Rightarrow> bool" where
  "message_text ecu r m \<longleftrightarrow> (\<exists>now header.
     put_header now ecu r \<lparr>bv_bytes = [], bv_capacity = kMaxHeaderSize\<rparr> = Ret header \<and> m = bv_bytes header @ record_text r)"

definition body :: "'os drainer \<Rightarrow> nat \<Rightarrow> string" where
  "body d i = bv_bytes (payload_of d i) @ take (RemainingCapacity (payload_of d i)) [CHR 0x0A]"

lemma body_text: "body d i = record_text (record_of d i)"
  by (simp add: body_def record_text_def record_of_def payload_of_def)

definition rest :: "'os drainer \<Rightarrow> string" where
  "rest d = (case mb_log_record (builder d) of
     None \<Rightarrow> []
   | Some i \<Rightarrow> (case parsing_phase (builder d) of
       kHeader \<Rightarrow> header_bytes d @ body d i
     | kPayload \<Rightarrow> drop (number_of_flushed_bytes (writer d)) (header_bytes d) @ body d i
     | kReinitialize \<Rightarrow> drop (number_of_flushed_bytes (writer d)) (bv_bytes (payload_of d i))))"

definition all_flushed :: "'os drainer \<Rightarrow> bool" where
  "all_flushed d \<longleftrightarrow> number_of_flushed_bytes (writer d) = span_size (nw_buffer (writer d))"

definition span_ok :: "'os drainer \<Rightarrow> bool" where
  "span_ok d \<longleftrightarrow> (buffer_flushed (writer d) = kDone \<longrightarrow> all_flushed d) \<and> (case mb_log_record (builder d) of
     None \<Rightarrow> all_flushed d \<and> header_bytes d = []
   | Some i \<Rightarrow> (case parsing_phase (builder d) of
       kHeader \<Rightarrow> all_flushed d
     | kPayload \<Rightarrow> nw_buffer (writer d) = Span_header (length (header_bytes d)) \<and>
         number_of_flushed_bytes (writer d) \<le> length (header_bytes d)
     | kReinitialize \<Rightarrow> nw_buffer (writer d) = Span_payload i (length (bv_bytes (payload_of d i))) \<and>
         number_of_flushed_bytes (writer d) \<le> length (bv_bytes (payload_of d i))))"

definition cur_slots :: "'os drainer \<Rightarrow> nat list" where
  "cur_slots d = (case current_slot d of None \<Rightarrow> [] | Some c \<Rightarrow> [slot_of (cells d c)])"

text \<open>The drainer owns the slots of its queue and the current one.\<close>

definition queue_ok :: "nat \<Rightarrow> 'os drainer \<Rightarrow> slot_handle list \<Rightarrow> bool" where
  "queue_ok n d hs \<longleftrightarrow>
     Circular_Buffer.represents (handles d) hs \<and> capacity (handles d) = kMaxCircularBufferSize \<and>
     (\<forall>j<length hs. cells d (idx (handles d) j) = hs ! j) \<and>
     distinct (cur_slots d @ map slot_of hs) \<and>
     (\<forall>i\<in>set (cur_slots d @ map slot_of hs). i < n \<and> slot_in_use (ca_buffer (dr_allocator d) ! i)) \<and>
     (\<forall>c. current_slot d = Some c \<longrightarrow> c = idx (handles d) (kMaxCircularBufferSize - 1)) \<and>
     (\<forall>i. mb_log_record (builder d) = Some i \<longrightarrow> cur_slots d = [i])"

definition memory_ok :: "nat \<Rightarrow> 'os drainer \<Rightarrow> bool" where
  "memory_ok n d \<longleftrightarrow>
     length (ca_buffer (dr_allocator d)) = n \<and> (\<forall>i<n. payload_wf (payload_of d i)) \<and>
     payload_wf (header_payload (builder d)) \<and> bv_capacity (header_payload (builder d)) = kMaxHeaderSize \<and>
     0 < max_chunk_size (writer d)"

definition drain_wf :: "nat \<Rightarrow> 'os drainer \<Rightarrow> slot_handle list \<Rightarrow> bool" where
  "drain_wf n d hs \<longleftrightarrow> memory_ok n d \<and> queue_ok n d hs \<and> span_ok d"

lemma payload_wf_length: "payload_wf v \<Longrightarrow> length (bv_bytes v) \<le> int32_max"
  by (simp add: payload_wf_def vector_size_def)

lemma GetSpan_wf: "payload_wf v \<Longrightarrow> GetSpan v = bv_bytes v"
  using payload_wf_length[of v] size_bounds by (simp add: GetSpan_def)

lemma int32_max_64: "int32_max < 2 ^ 64"
  by (simp add: int32_max_def)

section \<open>Writing a span\<close>

definition with_writer :: "'os \<Rightarrow> nat \<Rightarrow> write_result \<Rightarrow> 'os drainer \<Rightarrow> 'os drainer" where
  "with_writer system k r d =
     d\<lparr>os := system, writer := (writer d)\<lparr>number_of_flushed_bytes := k, buffer_flushed := r\<rparr>\<rparr>"

lemma with_writer_same [simp]:
  "dr_allocator (with_writer s k r d) = dr_allocator d" "builder (with_writer s k r d) = builder d"
  "handles (with_writer s k r d) = handles d" "cells (with_writer s k r d) = cells d"
  "current_slot (with_writer s k r d) = current_slot d" "os (with_writer s k r d) = s"
  "nw_buffer (writer (with_writer s k r d)) = nw_buffer (writer d)" "number_of_flushed_bytes (writer (with_writer s k r d)) = k"
  "buffer_flushed (writer (with_writer s k r d)) = r" "max_chunk_size (writer (with_writer s k r d)) = max_chunk_size (writer d)"
  "limit_slots_in_one_cycle (with_writer s k r d) = limit_slots_in_one_cycle d"
  by (simp_all add: with_writer_def)

lemma with_writer_frame [simp]:
  "payload_of (with_writer s k r d) = payload_of d" "header_bytes (with_writer s k r d) = header_bytes d"
  "body (with_writer s k r d) = body d" "cur_slots (with_writer s k r d) = cur_slots d"
  "queue_ok n (with_writer s k r d) hs = queue_ok n d hs" "memory_ok n (with_writer s k r d) = memory_ok n d"
proof -
  show p: "payload_of (with_writer s k r d) = payload_of d" by (rule ext) (simp add: payload_of_def)
  show "header_bytes (with_writer s k r d) = header_bytes d" by (simp add: header_bytes_def)
  show c: "cur_slots (with_writer s k r d) = cur_slots d" by (simp add: cur_slots_def split: option.split)
  show "body (with_writer s k r d) = body d" by (rule ext) (simp add: body_def p)
  show "queue_ok n (with_writer s k r d) hs = queue_ok n d hs" by (simp add: queue_ok_def c)
  show "memory_ok n (with_writer s k r d) = memory_ok n d" by (simp add: memory_ok_def p)
qed

text \<open>The bytes of the span that is being written, when not all of them are out.\<close>

definition span_bytes :: "'os drainer \<Rightarrow> string" where
  "span_bytes d = (case nw_buffer (writer d) of
     Span_null \<Rightarrow> [] | Span_header n \<Rightarrow> header_bytes d | Span_payload i n \<Rightarrow> bv_bytes (payload_of d i))"

lemma read_span_ok:
  assumes "drain_wf n d hs" "\<not> all_flushed d"
  shows "read_span (nw_buffer (writer d)) d = Ret (span_bytes d)" "span_size (nw_buffer (writer d)) = length (span_bytes d)"
    "number_of_flushed_bytes (writer d) < length (span_bytes d)" "length (span_bytes d) \<le> int32_max"
proof -
  have s: "span_ok d" "queue_ok n d hs" "memory_ok n d" using assms(1) by (simp_all add: drain_wf_def)
  obtain i where i: "mb_log_record (builder d) = Some i" using s(1) assms(2) by (auto simp: span_ok_def split: option.splits)
  then have "cur_slots d = [i]" "i < n" using s(2) by (auto simp: queue_ok_def)
  then have len: "i < length (ca_buffer (dr_allocator d))" "payload_wf (payload_of d i)" "payload_wf (header_payload (builder d))"
    using s(3) by (auto simp: memory_ok_def)
  have "parsing_phase (builder d) = kPayload \<or> parsing_phase (builder d) = kReinitialize"
    using s(1) i assms(2) by (cases "parsing_phase (builder d)") (auto simp: span_ok_def)
  then show "read_span (nw_buffer (writer d)) d = Ret (span_bytes d)" "span_size (nw_buffer (writer d)) = length (span_bytes d)"
    "number_of_flushed_bytes (writer d) < length (span_bytes d)" "length (span_bytes d) \<le> int32_max"
    using s(1) i assms(2) len payload_wf_length[OF len(2)] payload_wf_length[OF len(3)]
    by (auto simp: span_ok_def all_flushed_def span_bytes_def read_span_def GetUnderlyingBufferFor_def payload_of_def header_bytes_def)
qed

lemma flushed_bound:
  assumes "drain_wf n d hs"
  shows "number_of_flushed_bytes (writer d) \<le> span_size (nw_buffer (writer d))"
  using assms by (auto simp: drain_wf_def span_ok_def all_flushed_def split: option.splits ParsingPhase.splits)

text \<open>Moving the position of the writer on moves bytes out of the rest.\<close>

lemma rest_advance:
  assumes "drain_wf n d hs" "\<not> all_flushed d" "number_of_flushed_bytes (writer d) + k \<le> length (span_bytes d)"
    "r = kDone \<Longrightarrow> number_of_flushed_bytes (writer d) + k = length (span_bytes d)"
  shows "rest d = take k (drop (number_of_flushed_bytes (writer d)) (span_bytes d)) @
      rest (with_writer s (number_of_flushed_bytes (writer d) + k) r d)"
    "drain_wf n (with_writer s (number_of_flushed_bytes (writer d) + k) r d) hs"
proof -
  have s: "span_ok d" "queue_ok n d hs" "memory_ok n d" using assms(1) by (simp_all add: drain_wf_def)
  obtain i where i: "mb_log_record (builder d) = Some i" using s(1) assms(2) by (auto simp: span_ok_def split: option.splits)
  have phase: "parsing_phase (builder d) = kPayload \<or> parsing_phase (builder d) = kReinitialize"
    using s(1) i assms(2) by (cases "parsing_phase (builder d)") (auto simp: span_ok_def)
  have "drop f xs = take k (drop f xs) @ drop (f + k) xs" for f and xs :: string
    by (metis append_take_drop_id drop_drop add.commute)
  then show "rest d = take k (drop (number_of_flushed_bytes (writer d)) (span_bytes d)) @
      rest (with_writer s (number_of_flushed_bytes (writer d) + k) r d)"
    using phase s(1) i by (auto simp: rest_def span_ok_def span_bytes_def)
  show "drain_wf n (with_writer s (number_of_flushed_bytes (writer d) + k) r d) hs"
    using phase s i assms(3,4) by (auto simp: drain_wf_def span_ok_def span_bytes_def all_flushed_def)
qed

lemma FlushIntoFile_ok:
  assumes "env_ok env output" "drain_wf n d hs"
  shows "\<exists>s k r st W. FlushIntoFile env d = Ret (with_writer s k r d, st) \<and> drain_wf n (with_writer s k r d) hs \<and>
    output s = output (os d) @ W \<and> rest d = W @ rest (with_writer s k r d) \<and>
    (st = Inr kDone \<longrightarrow> all_flushed (with_writer s k r d)) \<and>
    ((\<forall>s bytes. snd (sys_write env s bytes) = Some (length bytes)) \<and> max_chunk_size (writer d) = GetMaxChunkSize \<longrightarrow> st = Inr kDone)"
proof (cases "all_flushed d")
  case True
  have same: "with_writer (os d) (number_of_flushed_bytes (writer d)) kDone d = d\<lparr>writer := (writer d)\<lparr>buffer_flushed := kDone\<rparr>\<rparr>"
    by (simp add: with_writer_def)
  have "FlushIntoFile env d = Ret (with_writer (os d) (number_of_flushed_bytes (writer d)) kDone d, Inr kDone)"
    using True unfolding same by (simp add: FlushIntoFile_def InternalFlush_def all_flushed_def Let_def)
  moreover have "drain_wf n (with_writer (os d) (number_of_flushed_bytes (writer d)) kDone d) hs"
    using assms(2) True by (simp add: drain_wf_def span_ok_def all_flushed_def split: option.splits ParsingPhase.splits)
  moreover have "rest (with_writer (os d) (number_of_flushed_bytes (writer d)) kDone d) = rest d"
    by (simp add: rest_def split: option.splits ParsingPhase.splits)
  ultimately show ?thesis using True
    by (intro exI[of _ "os d"] exI[of _ "number_of_flushed_bytes (writer d)"] exI[of _ kDone] exI[of _ "Inr kDone"] exI[of _ "[]"])
       (simp add: all_flushed_def)
next
  case False
  let ?f = "number_of_flushed_bytes (writer d)" and ?size = "length (span_bytes d)" and ?m = "max_chunk_size (writer d)"
  note sp = read_span_ok[OF assms(2) False]
  let ?w = "min ?m (?size - ?f)"
  have left: "nat ((int ?size - int ?f) mod 2 ^ 64) = ?size - ?f"
    using sp(3,4) int32_max_64 by (simp add: nat_mod_distrib nat_diff_distrib)
  have chunk: "(if ?m \<le> ?size - ?f then ?m else ?size - ?f) = ?w" by simp
  let ?bytes = "take ?w (drop ?f (span_bytes d))"
  have fit: "\<not> ?size < ?f + ?w" using sp(3) by simp
  have flush: "FlushIntoFile env d = bind_outcome (InternalFlush env ?w d) (\<lambda>(d, ok).
        if \<not> ok then Ret (d, Inl ())
        else let w = writer d; w = (if number_of_flushed_bytes w = ?size then w\<lparr>buffer_flushed := kDone\<rparr> else w)
             in Ret (d\<lparr>writer := w\<rparr>, Inr (buffer_flushed w)))"
    by (simp only: FlushIntoFile_def Let_def sp(2) left chunk)
  obtain s r where wr: "sys_write env (os d) ?bytes = (s, r)" by (cases "sys_write env (os d) ?bytes")
  then have contract: "case r of None \<Rightarrow> output s = output (os d) | Some k \<Rightarrow> k \<le> length ?bytes \<and> output s = output (os d) @ take k ?bytes"
    using assms(1) unfolding env_ok_def by (auto split: prod.splits option.splits)
  have open_flag: "buffer_flushed (writer d) \<noteq> kDone" using assms(2) False by (auto simp: drain_wf_def span_ok_def)
  show ?thesis
  proof (cases r)
    case None
    then have "FlushIntoFile env d = Ret (with_writer s ?f (buffer_flushed (writer d)) d, Inl ())"
      using wr sp(1-3) fit unfolding flush by (simp add: InternalFlush_def with_writer_def)
    moreover have "output s = output (os d)" using contract None by simp
    moreover have "\<not> (\<forall>s bytes. snd (sys_write env s bytes) = Some (length bytes))"
      using wr None by (metis option.distinct(1) snd_conv)
    ultimately show ?thesis
      using rest_advance[OF assms(2) False, where k = 0 and s = s and r = "buffer_flushed (writer d)"] sp(3) open_flag
      by (intro exI[of _ s] exI[of _ ?f] exI[of _ "buffer_flushed (writer d)"] exI[of _ "Inl ()"] exI[of _ "[]"]) simp
  next
    case (Some k)
    have k: "k \<le> ?w" "k \<le> ?size - ?f" "output s = output (os d) @ take k ?bytes" using contract Some by auto
    have small: "(?f + k) mod 2 ^ 64 = ?f + k" using k(2) sp(3,4) int32_max_64 by simp
    let ?r = "if ?f + k = ?size then kDone else buffer_flushed (writer d)"
    have call: "FlushIntoFile env d = Ret (with_writer s (?f + k) ?r d, Inr ?r)"
      using wr Some sp(1-3) fit small unfolding flush by (simp add: InternalFlush_def with_writer_def Let_def)
    have flag: "?r = kDone \<longleftrightarrow> ?f + k = ?size" using open_flag by simp
    have room: "?f + k \<le> ?size" using k(2) sp(3) by simp
    have adv: "rest d = take k (drop ?f (span_bytes d)) @ rest (with_writer s (?f + k) ?r d)" "drain_wf n (with_writer s (?f + k) ?r d) hs"
      by (rule rest_advance[OF assms(2) False room], use flag in blast)+
    have "all_flushed (with_writer s (?f + k) ?r d)" if "?f + k = ?size" using that sp(2) by (simp add: all_flushed_def)
    moreover have "take k ?bytes = take k (drop ?f (span_bytes d))" using k(1) by (simp add: min_def)
    moreover have "?f + k = ?size" if "\<forall>s bytes. snd (sys_write env s bytes) = Some (length bytes)" "?m = GetMaxChunkSize"
    proof -
      have "k = length ?bytes" using that(1) wr Some by (metis option.inject snd_conv)
      moreover have "?size - ?f \<le> GetMaxChunkSize" using sp(4) by (simp add: int32_max_def GetMaxChunkSize_def)
      ultimately show ?thesis using that(2) sp(3) by simp
    qed
    ultimately show ?thesis using call adv k(3) flag
      by (intro exI[of _ s] exI[of _ "?f + k"] exI[of _ ?r] exI[of _ "Inr ?r"] exI[of _ "take k ?bytes"]) auto
  qed
qed

section \<open>The next span\<close>

definition set_payload :: "nat \<Rightarrow> byte_vector \<Rightarrow> 'os drainer \<Rightarrow> 'os drainer" where
  "set_payload i p d = d\<lparr>dr_allocator := (dr_allocator d)\<lparr>ca_buffer := (ca_buffer (dr_allocator d))[i :=
     SetData ((slot_data (ca_buffer (dr_allocator d) ! i))\<lparr>rec_payload := p\<rparr>) (ca_buffer (dr_allocator d) ! i)]\<rparr>\<rparr>"

lemma update_payload_eq:
  "i < length (ca_buffer (dr_allocator d)) \<Longrightarrow> update_payload i p d = Ret (set_payload i p d)"
  by (simp add: update_payload_def GetUnderlyingBufferFor_def write_slot_def set_payload_def)

lemma set_payload_same [simp]:
  "builder (set_payload i p d) = builder d" "handles (set_payload i p d) = handles d" "cells (set_payload i p d) = cells d"
  "current_slot (set_payload i p d) = current_slot d" "writer (set_payload i p d) = writer d" "os (set_payload i p d) = os d"
  "limit_slots_in_one_cycle (set_payload i p d) = limit_slots_in_one_cycle d"
  "length (ca_buffer (dr_allocator (set_payload i p d))) = length (ca_buffer (dr_allocator d))"
  "header_bytes (set_payload i p d) = header_bytes d"
  by (simp_all add: set_payload_def header_bytes_def)

lemma set_payload_slots:
  "j \<noteq> i \<Longrightarrow> ca_buffer (dr_allocator (set_payload i p d)) ! j = ca_buffer (dr_allocator d) ! j"
  "slot_in_use (ca_buffer (dr_allocator (set_payload i p d)) ! j) = slot_in_use (ca_buffer (dr_allocator d) ! j)"
proof -
  show "j \<noteq> i \<Longrightarrow> ca_buffer (dr_allocator (set_payload i p d)) ! j = ca_buffer (dr_allocator d) ! j"
    by (simp add: set_payload_def)
  show "slot_in_use (ca_buffer (dr_allocator (set_payload i p d)) ! j) = slot_in_use (ca_buffer (dr_allocator d) ! j)"
    by (cases "j = i"; cases "i < length (ca_buffer (dr_allocator d))") (simp_all add: set_payload_def SetData_def list_update_beyond not_less)
qed

lemma payload_of_set_payload:
  "i < length (ca_buffer (dr_allocator d)) \<Longrightarrow> payload_of (set_payload i p d) j = (if j = i then p else payload_of d j)"
  by (simp add: payload_of_def set_payload_def SetData_def)

text \<open>What the operations on the current message leave as it was.\<close>

definition same_queue :: "'os drainer \<Rightarrow> 'os drainer \<Rightarrow> bool" where
  "same_queue d d' \<longleftrightarrow> handles d' = handles d \<and> cells d' = cells d \<and> current_slot d' = current_slot d \<and>
     limit_slots_in_one_cycle d' = limit_slots_in_one_cycle d \<and> max_chunk_size (writer d') = max_chunk_size (writer d) \<and> ecu_id (builder d') = ecu_id (builder d) \<and>
     (\<forall>i. slot_in_use (ca_buffer (dr_allocator d') ! i) = slot_in_use (ca_buffer (dr_allocator d) ! i)) \<and>
     (\<forall>i. i \<notin> set (cur_slots d) \<longrightarrow> ca_buffer (dr_allocator d') ! i = ca_buffer (dr_allocator d) ! i)"

lemma same_queue_refl [simp]: "same_queue d d"
  by (simp add: same_queue_def)

lemma same_queue_cur: "same_queue d d' \<Longrightarrow> cur_slots d' = cur_slots d"
  by (auto simp: same_queue_def cur_slots_def split: option.split)

lemma same_queue_trans: "same_queue d d' \<Longrightarrow> same_queue d' d'' \<Longrightarrow> same_queue d d''"
  using same_queue_cur[of d d'] by (simp add: same_queue_def)

lemma same_queue_writer [simp]: "same_queue d (with_writer s k r d)"
  by (simp add: same_queue_def)

lemma queue_ok_same:
  assumes "queue_ok n d hs" "same_queue d d'" "\<And>i. mb_log_record (builder d') = Some i \<Longrightarrow> mb_log_record (builder d) = Some i"
  shows "queue_ok n d' hs"
  using assms same_queue_cur[OF assms(2)] unfolding queue_ok_def same_queue_def by auto

fun spans_left :: "nat option \<times> ParsingPhase \<Rightarrow> nat" where
  "spans_left (None, _) = 0"
| "spans_left (Some i, kHeader) = 3"
| "spans_left (Some i, kPayload) = 2"
| "spans_left (Some i, kReinitialize) = 1"

definition left_of :: "'os drainer \<Rightarrow> nat" where
  "left_of d = spans_left (mb_log_record (builder d), parsing_phase (builder d))"

lemma payload_wf_reset: "payload_wf p \<Longrightarrow> payload_wf (payload_Reset p)" "bv_capacity (payload_Reset p) = bv_capacity p"
  by (simp_all add: payload_wf_def payload_Reset_def vector_size_def)

lemma MoreSpans_ok:
  assumes "drain_wf n d hs" "all_flushed d"
  shows "\<exists>d' more. MoreSpansAvailableAndLoaded d = Ret (d', more) \<and> drain_wf n d' hs \<and> same_queue d d' \<and>
    rest d' = rest d \<and> os d' = os d \<and> (more \<longrightarrow> left_of d' < left_of d) \<and> (\<not> more \<longrightarrow> mb_log_record (builder d') = None)"
proof -
  have s: "span_ok d" "queue_ok n d hs" "memory_ok n d" using assms(1) by (simp_all add: drain_wf_def)
  show ?thesis
  proof (cases "mb_log_record (builder d)")
    case None
    then have "MoreSpansAvailableAndLoaded d = Ret (d, False)" by (simp add: MoreSpansAvailableAndLoaded_def GetNextSpan_def)
    then show ?thesis using assms(1) None by auto
  next
    case (Some i)
    then have cur: "cur_slots d = [i]" "i < n" using s(2) by (auto simp: queue_ok_def)
    then have i: "i < length (ca_buffer (dr_allocator d))" "payload_wf (payload_of d i)" "payload_wf (header_payload (builder d))"
      using s(3) by (auto simp: memory_ok_def)
    have get: "GetUnderlyingBufferFor i (dr_allocator d) = Ret (slot_data (ca_buffer (dr_allocator d) ! i))"
      using i(1) by (simp add: GetUnderlyingBufferFor_def)
    show ?thesis
    proof (cases "parsing_phase (builder d)")
      case kHeader
      let ?d = "d\<lparr>builder := (builder d)\<lparr>parsing_phase := kPayload\<rparr>, writer := SetSpan (Span_header (length (header_bytes d))) (writer d)\<rparr>"
      have call: "MoreSpansAvailableAndLoaded d = Ret (?d, True)"
        using Some kHeader get GetSpan_wf[OF i(3)] by (simp add: MoreSpansAvailableAndLoaded_def GetNextSpan_def header_bytes_def)
      have frame: "payload_of ?d = payload_of d" "header_bytes ?d = header_bytes d" "same_queue d ?d"
        by (simp_all add: payload_of_def fun_eq_iff header_bytes_def same_queue_def SetSpan_def)
      have "drain_wf n ?d hs"
        using s frame(1,2) Some queue_ok_same[OF s(2) frame(3)] by (simp add: drain_wf_def span_ok_def memory_ok_def SetSpan_def)
      moreover have "rest ?d = rest d" "left_of ?d < left_of d"
        using Some kHeader frame(1,2) by (simp_all add: rest_def body_def left_of_def SetSpan_def)
      ultimately show ?thesis using call frame(3) by auto
    next
      case kPayload
      let ?p = "append_bytes (payload_of d i) (take (RemainingCapacity (payload_of d i)) [CHR 0x0A])"
      let ?d = "(set_payload i ?p d)\<lparr>builder := (builder d)\<lparr>parsing_phase := kReinitialize\<rparr>,
        writer := SetSpan (Span_payload i (length (bv_bytes ?p))) (writer d)\<rparr>"
      have wf: "payload_wf ?p" by (rule payload_wf_append[OF i(2)]) simp
      have call: "MoreSpansAvailableAndLoaded d = Ret (?d, True)"
        using Some kPayload get TerminateLog_eq[OF i(2)] GetSpan_wf[OF wf] update_payload_eq[OF i(1), of ?p]
        by (simp add: MoreSpansAvailableAndLoaded_def GetNextSpan_def flip: payload_of_def)
      have frame: "payload_of ?d = (payload_of d)(i := ?p)" "header_bytes ?d = header_bytes d" "same_queue d ?d"
        using payload_of_set_payload[OF i(1), of ?p] set_payload_slots(1)[of _ i ?p d] set_payload_slots(2)[of i ?p d] cur(1)
        by (simp_all add: payload_of_def fun_eq_iff header_bytes_def same_queue_def SetSpan_def)
      have "drain_wf n ?d hs"
        using s frame(1,2) Some wf queue_ok_same[OF s(2) frame(3)] by (simp add: drain_wf_def span_ok_def memory_ok_def SetSpan_def)
      moreover have "rest ?d = rest d" "left_of ?d < left_of d"
        using Some kPayload frame(1,2) s(1) assms(2) by (simp_all add: rest_def body_def left_of_def SetSpan_def span_ok_def all_flushed_def)
      ultimately show ?thesis using call frame(3) by auto
    next
      case kReinitialize
      let ?p = "payload_Reset (payload_of d i)"
      let ?d = "(set_payload i ?p d)\<lparr>builder := (builder d)\<lparr>parsing_phase := kHeader,
        header_payload := payload_Reset (header_payload (builder d)), mb_log_record := None\<rparr>\<rparr>"
      have call: "MoreSpansAvailableAndLoaded d = Ret (?d, False)"
        using Some kReinitialize get update_payload_eq[OF i(1), of ?p]
        by (simp add: MoreSpansAvailableAndLoaded_def GetNextSpan_def flip: payload_of_def)
      have frame: "payload_of ?d = (payload_of d)(i := ?p)" "header_bytes ?d = []" "same_queue d ?d"
        using payload_of_set_payload[OF i(1), of ?p] set_payload_slots(1)[of _ i ?p d] set_payload_slots(2)[of i ?p d] cur(1)
        by (simp_all add: payload_of_def fun_eq_iff header_bytes_def same_queue_def payload_Reset_def)
      have "drain_wf n ?d hs"
        using s frame(1,2) Some assms(2) payload_wf_reset i(2,3) queue_ok_same[OF s(2) frame(3)]
        by (simp add: drain_wf_def span_ok_def memory_ok_def all_flushed_def)
      moreover have "rest ?d = rest d"
        using Some kReinitialize s(1) assms(2) by (simp add: rest_def span_ok_def all_flushed_def)
      ultimately show ?thesis using call frame(3) by auto
    qed
  qed
qed

section \<open>Flushing one message\<close>

text \<open>A file that takes every byte at once.\<close>

definition takes_all :: "'os environment \<Rightarrow> bool" where
  "takes_all env \<longleftrightarrow> (\<forall>s bytes. snd (sys_write env s bytes) = Some (length bytes))"

lemma flush_span_ok:
  assumes "env_ok env output" "drain_wf n d hs"
  shows "\<exists>d' r W. flush_span env d = Ret (d', r) \<and> drain_wf n d' hs \<and> same_queue d d' \<and>
    output (os d') = output (os d) @ W \<and> rest d = W @ rest d' \<and>
    (case r of
       None \<Rightarrow> left_of d' < left_of d
     | Some st \<Rightarrow> (st = Inr kAllDataProcessed \<and> mb_log_record (builder d') = None) \<or>
         ((st = Inl () \<or> st = Inr kPartiallyProcessed) \<and> \<not> (takes_all env \<and> max_chunk_size (writer d) = GetMaxChunkSize)))"
proof -
  obtain s k r st W where call: "FlushIntoFile env d = Ret (with_writer s k r d, st)" "drain_wf n (with_writer s k r d) hs"
    "output s = output (os d) @ W" "rest d = W @ rest (with_writer s k r d)"
    "st = Inr kDone \<Longrightarrow> all_flushed (with_writer s k r d)"
    "takes_all env \<Longrightarrow> max_chunk_size (writer d) = GetMaxChunkSize \<Longrightarrow> st = Inr kDone"
    using FlushIntoFile_ok[OF assms] unfolding takes_all_def by blast
  show ?thesis
  proof (cases "st = Inr kDone")
    case True
    obtain d' more where spans: "MoreSpansAvailableAndLoaded (with_writer s k r d) = Ret (d', more)" "drain_wf n d' hs"
      "same_queue (with_writer s k r d) d'" "rest d' = rest (with_writer s k r d)" "os d' = s"
      "more \<Longrightarrow> left_of d' < left_of (with_writer s k r d)" "\<not> more \<Longrightarrow> mb_log_record (builder d') = None"
      using MoreSpans_ok[OF call(2) call(5)[OF True]] by auto
    have "flush_span env d = Ret (d', if more then None else Some (Inr kAllDataProcessed))"
      using call(1) spans(1) True by (simp add: flush_span_def)
    moreover have "same_queue d d'" using same_queue_trans[OF same_queue_writer spans(3)] .
    moreover have "left_of (with_writer s k r d) = left_of d" by (simp add: left_of_def)
    ultimately show ?thesis using spans call(3,4) by (intro exI[of _ d']) auto
  next
    case False
    then obtain r' where "flush_span env d = Ret (with_writer s k r d, Some r')" "r' = Inl () \<or> r' = Inr kPartiallyProcessed"
      using call(1) by (cases st) (auto simp: flush_span_def)
    then show ?thesis using call(2-4,6) False same_queue_writer[of d s k r]
      by (intro exI[of _ "with_writer s k r d"] exI[of _ "Some r'"] exI[of _ W]) auto
  qed
qed

lemma TryFlushSpans_ok:
  assumes "env_ok env output" "drain_wf n d hs" "left_of d < fuel"
  shows "\<exists>d' st W. TryFlushSpans fuel env d = Some (Ret (d', st)) \<and> drain_wf n d' hs \<and> same_queue d d' \<and>
    output (os d') = output (os d) @ W \<and> rest d = W @ rest d' \<and>
    ((st = Inr kAllDataProcessed \<and> mb_log_record (builder d') = None) \<or>
     ((st = Inl () \<or> st = Inr kPartiallyProcessed) \<and> \<not> (takes_all env \<and> max_chunk_size (writer d) = GetMaxChunkSize)))"
  using assms(2,3)
proof (induction fuel arbitrary: d)
  case (Suc fuel)
  obtain d1 r W where first: "flush_span env d = Ret (d1, r)" "drain_wf n d1 hs" "same_queue d d1"
    "output (os d1) = output (os d) @ W" "rest d = W @ rest d1"
    "case r of
       None \<Rightarrow> left_of d1 < left_of d
     | Some st \<Rightarrow> (st = Inr kAllDataProcessed \<and> mb_log_record (builder d1) = None) \<or>
         ((st = Inl () \<or> st = Inr kPartiallyProcessed) \<and> \<not> (takes_all env \<and> max_chunk_size (writer d) = GetMaxChunkSize))"
    using flush_span_ok[OF assms(1) Suc.prems(1)] by blast
  show ?case
  proof (cases r)
    case None
    then have "left_of d1 < fuel" using first(6) Suc.prems(2) by simp
    from Suc.IH[OF first(2) this] obtain d2 st W2 where
      "TryFlushSpans fuel env d1 = Some (Ret (d2, st))" "drain_wf n d2 hs" "same_queue d1 d2"
      "output (os d2) = output (os d1) @ W2" "rest d1 = W2 @ rest d2"
      "(st = Inr kAllDataProcessed \<and> mb_log_record (builder d2) = None) \<or>
       ((st = Inl () \<or> st = Inr kPartiallyProcessed) \<and> \<not> (takes_all env \<and> max_chunk_size (writer d1) = GetMaxChunkSize))"
      by blast
    moreover have "max_chunk_size (writer d1) = max_chunk_size (writer d)" using first(3) by (simp add: same_queue_def)
    ultimately show ?thesis using first(1,3,4,5) None same_queue_trans[of d d1 d2]
      by (intro exI[of _ d2] exI[of _ st] exI[of _ "W @ W2"]) (simp add: TryFlushSpans_def)
  next
    case (Some st)
    then show ?thesis using first by (intro exI[of _ d1] exI[of _ st] exI[of _ W]) (simp add: TryFlushSpans_def)
  qed
qed simp

section \<open>From message to message\<close>

lemma slot_of_bound: "queue_ok n d hs \<Longrightarrow> i \<in> set (cur_slots d @ map slot_of hs) \<Longrightarrow> i < n"
  by (simp add: queue_ok_def)

lemma release_current_ok:
  assumes "drain_wf n d hs" "mb_log_record (builder d) = None"
  shows "\<exists>a. release_current d = Ret (d\<lparr>dr_allocator := a, current_slot := None\<rparr>) \<and> length (ca_buffer a) = n \<and>
    (\<forall>i<n. ca_buffer a ! i = (if i \<in> set (cur_slots d) then Slot_Release (ca_buffer (dr_allocator d) ! i) else ca_buffer (dr_allocator d) ! i))"
proof -
  have s: "queue_ok n d hs" "length (ca_buffer (dr_allocator d)) = n" using assms(1) by (simp_all add: drain_wf_def memory_ok_def)
  show ?thesis
  proof (cases "current_slot d")
    case None
    then have "d\<lparr>dr_allocator := dr_allocator d, current_slot := None\<rparr> = d" by simp
    then show ?thesis using None s(2) by (intro exI[of _ "dr_allocator d"]) (simp add: release_current_def cur_slots_def)
  next
    case (Some c)
    then have "slot_of (cells d c) < n" using slot_of_bound[OF s(1)] by (simp add: cur_slots_def)
    then show ?thesis using Some s(2) by (auto simp: release_current_def cur_slots_def ReleaseSlot_def nth_list_update)
  qed
qed

lemma Slot_Release_data [simp]: "slot_data (Slot_Release s) = slot_data s" "\<not> slot_in_use (Slot_Release s)"
  by (simp_all add: Slot_Release_def)

lemma release_current_wf:
  assumes "drain_wf n d hs" "mb_log_record (builder d) = None" "release_current d = Ret d'"
  shows "drain_wf n d' hs \<and> current_slot d' = None \<and> rest d' = [] \<and> os d' = os d \<and> builder d' = builder d \<and> writer d' = writer d \<and>
    limit_slots_in_one_cycle d' = limit_slots_in_one_cycle d \<and> handles d' = handles d \<and> cells d' = cells d \<and>
    (\<forall>i<n. slot_data (ca_buffer (dr_allocator d') ! i) = slot_data (ca_buffer (dr_allocator d) ! i) \<and>
       (slot_in_use (ca_buffer (dr_allocator d') ! i) \<longleftrightarrow> slot_in_use (ca_buffer (dr_allocator d) ! i) \<and> i \<notin> set (cur_slots d)))"
proof -
  obtain a where a: "d' = d\<lparr>dr_allocator := a, current_slot := None\<rparr>" "length (ca_buffer a) = n"
    "\<And>i. i < n \<Longrightarrow> ca_buffer a ! i = (if i \<in> set (cur_slots d) then Slot_Release (ca_buffer (dr_allocator d) ! i) else ca_buffer (dr_allocator d) ! i)"
    using release_current_ok[OF assms(1,2)] assms(3) by auto
  have s: "queue_ok n d hs" "memory_ok n d" "span_ok d" using assms(1) by (simp_all add: drain_wf_def)
  have pay: "payload_of d' i = payload_of d i" if "i < n" for i using a(3)[OF that] by (simp add: a(1) payload_of_def)
  have "memory_ok n d'" using s(2) pay a(2) unfolding memory_ok_def by (simp add: a(1))
  moreover have "span_ok d'" using s(3) assms(2) by (simp add: a(1) span_ok_def all_flushed_def header_bytes_def)
  moreover have "queue_ok n d' hs"
    using s(1) a(3) assms(2) unfolding queue_ok_def by (auto simp: a(1) cur_slots_def)
  ultimately show ?thesis using a(3) assms(2) by (auto simp: drain_wf_def a(1) rest_def)
qed

text \<open>Functions that append some text to a payload.\<close>

definition appends :: "(byte_vector \<Rightarrow> byte_vector result) \<Rightarrow> bool" where
  "appends f \<longleftrightarrow> (\<forall>v. payload_wf v \<longrightarrow> (\<exists>s. f v = Ret (append_bytes v s) \<and> length s \<le> RemainingCapacity v))"

lemma appends_bind: "appends f \<Longrightarrow> appends g \<Longrightarrow> appends (\<lambda>v. bind_outcome (f v) g)"
proof -
  assume f: "appends f" and g: "appends g"
  show "appends (\<lambda>v. bind_outcome (f v) g)"
    unfolding appends_def
  proof (intro allI impI)
    fix v assume v: "payload_wf v"
    then obtain s where s: "f v = Ret (append_bytes v s)" "length s \<le> RemainingCapacity v" using f unfolding appends_def by blast
    then obtain t where "g (append_bytes v s) = Ret (append_bytes (append_bytes v s) t)" "length t \<le> RemainingCapacity (append_bytes v s)"
      using g payload_wf_append[OF v s(2)] unfolding appends_def by blast
    then show "\<exists>s. bind_outcome (f v) g = Ret (append_bytes v s) \<and> length s \<le> RemainingCapacity v"
      using s by (intro exI[of _ "s @ t"]) simp
  qed
qed

lemma appends_Log: "(\<And>room. \<exists>s. appended room a = Some s) \<Longrightarrow> appends (TextFormat_Log a)"
  unfolding appends_def using TextFormat_Log_eq appended_room by (metis option.simps(5))

lemma appends_text: "appends (TextFormat_Log (Arg_string s))" "appends (TextFormat_Log (Arg_u32 w))" "appends (TextFormat_Log (Arg_u8 b))"
  by (rule appends_Log, simp)+

lemma appends_header: "appends (put_header now ecu r)"
proof -
  obtain t ms stamp where now: "now = (t, ms, stamp)" by (cases now)
  have "appends (PutFormattedTime t ms)" using PutFormattedTime_eq by (simp add: appends_def)
  moreover have "appends (LogLevelToString l)" for l
    using appends_text(1) unfolding appends_def LogLevelToString_def by simp
  ultimately show ?thesis
    unfolding now put_header_def prod.case by (intro appends_bind appends_text)
qed

lemma push_back_head: "push_back b (External x) = Ret b' \<Longrightarrow> \<not> cb_full b \<Longrightarrow> head b' = head b"
  by (auto simp: push_back_def emplace_back_def construct_slot_def read_source_def split: if_splits)

lemma idx_wrap: "idx b (capacity b) = idx b 0"
  by (simp add: idx_def)

lemma MoreSlots_none:
  assumes "drain_wf n d []"
  shows "MoreSlotsAvailableAndLoaded env d = Ret (d, False)"
  using assms by (simp add: drain_wf_def queue_ok_def Circular_Buffer.represents_def MoreSlotsAvailableAndLoaded_def cb_empty_def)

lemma MoreSlots_some:
  assumes "env_ok env output" "drain_wf n d (h # hs)" "mb_log_record (builder d) = None" "current_slot d = None"
  shows "\<exists>d'. MoreSlotsAvailableAndLoaded env d = Ret (d', True) \<and> drain_wf n d' hs \<and> cur_slots d' = [slot_of h] \<and>
    message_text (ecu_id (builder d)) (record_of d (slot_of h)) (rest d') \<and> ecu_id (builder d') = ecu_id (builder d) \<and> output (os d') = output (os d) \<and>
    dr_allocator d' = dr_allocator d \<and> limit_slots_in_one_cycle d' = limit_slots_in_one_cycle d \<and>
    max_chunk_size (writer d') = max_chunk_size (writer d)"
proof -
  have s: "queue_ok n d (h # hs)" "memory_ok n d" "span_ok d" using assms(2) by (simp_all add: drain_wf_def)
  let ?b = "handles d" and ?i = "slot_of h"
  have rep: "Circular_Buffer.represents ?b (h # hs)" "capacity ?b = kMaxCircularBufferSize" "cells d (idx ?b 0) = h" "?i < n"
    using s(1) by (auto simp: queue_ok_def)
  obtain b where b: "pop_front ?b = Ret b" "Circular_Buffer.represents b hs" "capacity b = capacity ?b" "\<And>j. idx b j = idx ?b (Suc j)"
    using pop_front_represents[OF rep(1)] by blast
  let ?r = "slot_data (ca_buffer (dr_allocator d) ! ?i)" and ?v = "header_payload (builder d)"
  obtain system now where clock: "sys_clock env (os d) = (system, now)" by (cases "sys_clock env (os d)")
  then have out: "output system = output (os d)" using assms(1) unfolding env_ok_def by (metis fst_conv)
  have v: "payload_wf ?v" "bv_bytes ?v = []" "?v = \<lparr>bv_bytes = [], bv_capacity = kMaxHeaderSize\<rparr>"
    using s(2,3) assms(3) by (simp_all add: memory_ok_def span_ok_def header_bytes_def)
  obtain hd where hd: "put_header now (ecu_id (builder d)) ?r ?v = Ret (append_bytes ?v hd)" "length hd \<le> RemainingCapacity ?v"
    using appends_header v(1) unfolding appends_def by blast
  let ?d = "d\<lparr>handles := b, current_slot := Some (idx ?b 0), os := system,
    builder := (builder d)\<lparr>mb_log_record := Some ?i, header_payload := append_bytes ?v hd, parsing_phase := kHeader\<rparr>\<rparr>"
  have front: "cb_front ?b = Ret (idx ?b 0)" "\<not> cb_empty ?b"
    using cb_front_represents[OF rep(1)] rep(1) by (simp_all add: Circular_Buffer.represents_def cb_empty_def)
  have len: "length (ca_buffer (dr_allocator d)) = n" using s(2) by (simp add: memory_ok_def)
  have call: "MoreSlotsAvailableAndLoaded env d = Ret (?d, True)"
    using front b(1) rep(3,4) clock hd(1) len
    by (simp add: MoreSlotsAvailableAndLoaded_def SetNextMessage_def GetUnderlyingBufferFor_def)
  have pay: "payload_of ?d = payload_of d" by (simp add: payload_of_def fun_eq_iff)
  have cur: "cur_slots ?d = [?i]" using rep(3) by (simp add: cur_slots_def)
  have last_cell: "idx b (kMaxCircularBufferSize - 1) = idx ?b 0"
    using b(4) rep(2) idx_wrap[of ?b] by (simp add: kMaxCircularBufferSize_def)
  have cells: "cells d (idx b j) = hs ! j" if "j < length hs" for j
    using s(1) that b(4) by (auto simp: queue_ok_def)
  have "queue_ok n ?d hs"
    using s(1) b(2,3) rep(2) last_cell cells assms(4) unfolding queue_ok_def cur by (simp add: cur_slots_def)
  moreover have "memory_ok n ?d" using s(2) pay payload_wf_append[OF v(1) hd(2)] by (simp add: memory_ok_def)
  moreover have "span_ok ?d" using s(3) assms(3) by (simp add: span_ok_def all_flushed_def)
  moreover have "rest ?d = bv_bytes (append_bytes ?v hd) @ record_text ?r"
    using pay by (simp add: rest_def header_bytes_def body_def record_text_def payload_of_def)
  then have "message_text (ecu_id (builder d)) (record_of d ?i) (rest ?d)"
    using hd(1) v(3) unfolding message_text_def record_of_def by metis
  ultimately show ?thesis using call cur out by (intro exI[of _ ?d]) (simp add: drain_wf_def)
qed

section \<open>Flushing the queue\<close>

text \<open>
  What a call does when it loads the messages \<open>js\<close>: the bytes it writes and those still to be written are the
  old rest and the loaded messages, in order; the slots of the messages that are done are free, everything else is
  as before.
\<close>

definition drained ::
  "nat \<Rightarrow> ('os \<Rightarrow> string) \<Rightarrow> 'os drainer \<Rightarrow> slot_handle list \<Rightarrow> 'os drainer \<Rightarrow> slot_handle list \<Rightarrow> bool" where
  "drained n output d js d' hs \<longleftrightarrow>
     drain_wf n d' hs \<and> limit_slots_in_one_cycle d' = limit_slots_in_one_cycle d \<and>
     max_chunk_size (writer d') = max_chunk_size (writer d) \<and> ecu_id (builder d') = ecu_id (builder d) \<and>
     (\<exists>W ms. list_all2 (\<lambda>h. message_text (ecu_id (builder d)) (record_of d (slot_of h))) js ms \<and>
        output (os d') = output (os d) @ W \<and> W @ rest d' = rest d @ concat ms \<and> length (rest d') \<le> length (last (rest d # ms))) \<and>
     set (cur_slots d') \<subseteq> set (cur_slots d @ map slot_of js) \<and>
     (\<forall>i<n. i \<notin> set (cur_slots d @ map slot_of js) \<longrightarrow> ca_buffer (dr_allocator d') ! i = ca_buffer (dr_allocator d) ! i) \<and>
     (\<forall>i<n. slot_in_use (ca_buffer (dr_allocator d') ! i) \<longleftrightarrow> slot_in_use (ca_buffer (dr_allocator d) ! i) \<and>
        (i \<in> set (cur_slots d @ map slot_of js) \<longrightarrow> i \<in> set (cur_slots d')))"

lemma drainedD:
  assumes "drained n output d js d' hs"
  shows "drain_wf n d' hs" "limit_slots_in_one_cycle d' = limit_slots_in_one_cycle d"
    "max_chunk_size (writer d') = max_chunk_size (writer d)"
    "set (cur_slots d') \<subseteq> set (cur_slots d @ map slot_of js)"
    "i < n \<Longrightarrow> i \<notin> set (cur_slots d @ map slot_of js) \<Longrightarrow> ca_buffer (dr_allocator d') ! i = ca_buffer (dr_allocator d) ! i"
    "i < n \<Longrightarrow> slot_in_use (ca_buffer (dr_allocator d') ! i) \<longleftrightarrow> slot_in_use (ca_buffer (dr_allocator d) ! i) \<and>
        (i \<in> set (cur_slots d @ map slot_of js) \<longrightarrow> i \<in> set (cur_slots d'))"
    "ecu_id (builder d') = ecu_id (builder d)"
  using assms unfolding drained_def by blast+

lemma drained_trans:
  assumes "drain_wf n d (js @ js' @ hs)" "drained n output d js d1 (js' @ hs)" "drained n output d1 js' d2 hs"
  shows "drained n output d (js @ js') d2 hs"
proof -
  have q: "distinct (cur_slots d @ map slot_of (js @ js' @ hs))" "\<And>h. h \<in> set js' \<Longrightarrow> slot_of h < n"
    using assms(1) by (auto simp: drain_wf_def queue_ok_def)
  note one = drainedD[OF assms(2)] and two = drainedD[OF assms(3)]
  have fresh: "slot_of h \<notin> set (cur_slots d @ map slot_of js)" if "h \<in> set js'" for h using q(1) that by auto
  have same: "record_of d1 (slot_of h) = record_of d (slot_of h)" if "h \<in> set js'" for h
    using one(5)[OF q(2)[OF that] fresh[OF that]] by (simp add: record_of_def)
  obtain W1 m1 where w1: "list_all2 (\<lambda>h. message_text (ecu_id (builder d)) (record_of d (slot_of h))) js m1"
    "output (os d1) = output (os d) @ W1" "W1 @ rest d1 = rest d @ concat m1" "length (rest d1) \<le> length (last (rest d # m1))"
    using assms(2) unfolding drained_def by blast
  obtain W2 m2 where w2: "list_all2 (\<lambda>h. message_text (ecu_id (builder d1)) (record_of d1 (slot_of h))) js' m2"
    "output (os d2) = output (os d1) @ W2" "W2 @ rest d2 = rest d1 @ concat m2" "length (rest d2) \<le> length (last (rest d1 # m2))"
    using assms(3) unfolding drained_def by blast
  have "list_all2 (\<lambda>h. message_text (ecu_id (builder d)) (record_of d (slot_of h))) js' m2"
    using w2(1) same one(7) by (auto intro: list.rel_mono_strong)
  then have texts: "list_all2 (\<lambda>h. message_text (ecu_id (builder d)) (record_of d (slot_of h))) (js @ js') (m1 @ m2)"
    using w1(1) by (simp add: list_all2_appendI)
  have joined: "(W1 @ W2) @ rest d2 = rest d @ concat (m1 @ m2)" using w1(3) w2(3) by (metis append.assoc concat_append)
  have tail_bound: "length (rest d2) \<le> length (last (rest d # m1 @ m2))" using w1(4) w2(4) by (cases m2) auto
  define A B C1 C2 where sets: "A = set (cur_slots d @ map slot_of js)" "B = set (map slot_of js')" "C1 = set (cur_slots d1)"
    "C2 = set (cur_slots d2)"
  have all: "set (cur_slots d @ map slot_of (js @ js')) = A \<union> B" "set (cur_slots d1 @ map slot_of js') = C1 \<union> B"
    by (auto simp: sets)
  have sub: "C1 \<subseteq> A" "C2 \<subseteq> C1 \<union> B" "A \<inter> B = {}"
    using one(4) two(4) fresh unfolding all by (auto simp: sets)
  have "slot_in_use (ca_buffer (dr_allocator d2) ! i) \<longleftrightarrow> slot_in_use (ca_buffer (dr_allocator d) ! i) \<and> (i \<in> A \<union> B \<longrightarrow> i \<in> C2)"
    if "i < n" for i
    using one(6)[OF that] two(6)[OF that] sub unfolding all sets(1)[symmetric] sets(3,4)[symmetric] by blast
  moreover have "ca_buffer (dr_allocator d2) ! i = ca_buffer (dr_allocator d) ! i" if "i < n" "i \<notin> A \<union> B" for i
    using one(5)[OF that(1)] two(5)[OF that(1)] sub that(2) unfolding all sets(1)[symmetric] by (metis UnCI UnE subsetD)
  moreover have "C2 \<subseteq> A \<union> B" using sub by blast
  moreover have "\<exists>W ms. list_all2 (\<lambda>h. message_text (ecu_id (builder d)) (record_of d (slot_of h))) (js @ js') ms \<and>
      output (os d2) = output (os d) @ W \<and> W @ rest d2 = rest d @ concat ms \<and> length (rest d2) \<le> length (last (rest d # ms))"
    using w1(2) w2(2) texts joined tail_bound by (intro exI[of _ "W1 @ W2"] exI[of _ "m1 @ m2"]) simp
  ultimately show ?thesis using one(2,3,7) two(1-3,7) unfolding drained_def all sets(4)[symmetric] by simp
qed

lemma drained_same:
  assumes "drain_wf n d' hs" "same_queue d d'" "output (os d') = output (os d) @ W" "rest d = W @ rest d'"
  shows "drained n output d [] d' hs"
proof -
  have "\<exists>W ms. list_all2 (\<lambda>h. message_text (ecu_id (builder d)) (record_of d (slot_of h))) [] ms \<and>
      output (os d') = output (os d) @ W \<and> W @ rest d' = rest d @ concat ms \<and> length (rest d') \<le> length (last (rest d # ms))"
    using assms(3,4) by (intro exI[of _ W] exI[of _ "[]"]) simp
  then show ?thesis using assms(1,2) same_queue_cur[OF assms(2)] unfolding drained_def same_queue_def by simp
qed

lemma drained_released:
  assumes "drain_wf n d hs" "mb_log_record (builder d) = None"
  shows "\<exists>d'. release_current d = Ret d' \<and> drained n output d [] d' hs \<and> current_slot d' = None \<and>
    mb_log_record (builder d') = None \<and> rest d' = []"
proof -
  obtain d' where call: "release_current d = Ret d'" using release_current_ok[OF assms] by blast
  note r = release_current_wf[OF assms call]
  have rest: "rest d = []" using assms(2) by (simp add: rest_def)
  have "cur_slots d' = []" using r by (simp add: cur_slots_def)
  moreover have "ca_buffer (dr_allocator d') ! i = ca_buffer (dr_allocator d) ! i" if "i < n" "i \<notin> set (cur_slots d)" for i
    using release_current_ok[OF assms] call that by auto
  moreover have "\<exists>W ms. list_all2 (\<lambda>h. message_text (ecu_id (builder d)) (record_of d (slot_of h))) [] ms \<and>
      output (os d') = output (os d) @ W \<and> W @ rest d' = rest d @ concat ms \<and> length (rest d') \<le> length (last (rest d # ms))"
    using r rest by (intro exI[of _ "[]"] exI[of _ "[]"]) simp
  ultimately have "drained n output d [] d' hs" using r unfolding drained_def by auto
  then show ?thesis using call r assms(2) by (intro exI[of _ d']) auto
qed

lemma drained_loaded:
  assumes "env_ok env output" "drain_wf n d (h # hs)" "mb_log_record (builder d) = None" "current_slot d = None"
  shows "\<exists>d'. MoreSlotsAvailableAndLoaded env d = Ret (d', True) \<and> drained n output d [h] d' hs"
proof -
  obtain d' where m: "MoreSlotsAvailableAndLoaded env d = Ret (d', True)" "drain_wf n d' hs" "cur_slots d' = [slot_of h]"
    "message_text (ecu_id (builder d)) (record_of d (slot_of h)) (rest d')" "ecu_id (builder d') = ecu_id (builder d)" "output (os d') = output (os d)"
    "dr_allocator d' = dr_allocator d" "limit_slots_in_one_cycle d' = limit_slots_in_one_cycle d"
    "max_chunk_size (writer d') = max_chunk_size (writer d)"
    using MoreSlots_some[OF assms] by blast
  have old: "rest d = []" using assms(3) by (simp add: rest_def)
  have "\<exists>W ms. list_all2 (\<lambda>h. message_text (ecu_id (builder d)) (record_of d (slot_of h))) [h] ms \<and>
      output (os d') = output (os d) @ W \<and> W @ rest d' = rest d @ concat ms \<and> length (rest d') \<le> length (last (rest d # ms))"
    using m(4-6) old by (intro exI[of _ "[]"] exI[of _ "[rest d']"]) simp
  then have "drained n output d [h] d' hs" using m(2,3,5,7-9) assms(4) unfolding drained_def by (auto simp: cur_slots_def)
  then show ?thesis using m(1) by blast
qed

lemma left_of_bound: "left_of d \<le> 3"
  by (cases "(mb_log_record (builder d), parsing_phase (builder d))" rule: spans_left.cases) (simp_all add: left_of_def)

lemma flush_slot_ok:
  assumes "env_ok env output" "drain_wf n d hs" "3 < fuel"
  shows "\<exists>d' k' r js hs'. flush_slot fuel env (d, k) = Some (Ret ((d', k'), r)) \<and> hs = js @ hs' \<and> drained n output d js d' hs' \<and>
    (r = None \<longrightarrow> js \<noteq> [] \<and> k' = Suc k) \<and> (r = Some (Inr kAllDataProcessed) \<longrightarrow> hs' = [] \<and> cur_slots d' = [] \<and> rest d' = []) \<and>
    (takes_all env \<and> max_chunk_size (writer d) = GetMaxChunkSize \<and> k \<le> limit_slots_in_one_cycle d \<longrightarrow>
       r = None \<or> r = Some (Inr kAllDataProcessed))"
proof -
  obtain d1 st W where spans: "TryFlushSpans fuel env d = Some (Ret (d1, st))" "drain_wf n d1 hs" "same_queue d d1"
    "output (os d1) = output (os d) @ W" "rest d = W @ rest d1"
    "(st = Inr kAllDataProcessed \<and> mb_log_record (builder d1) = None) \<or>
     ((st = Inl () \<or> st = Inr kPartiallyProcessed) \<and> \<not> (takes_all env \<and> max_chunk_size (writer d) = GetMaxChunkSize))"
    using TryFlushSpans_ok[OF assms(1,2), of fuel] left_of_bound[of d] assms(3) by auto
  have one: "drained n output d [] d1 hs" by (rule drained_same[OF spans(2-5)])
  consider (stop) "st = Inl () \<or> st = Inr kPartiallyProcessed" "\<not> (takes_all env \<and> max_chunk_size (writer d) = GetMaxChunkSize)"
    | (finished) "st = Inr kAllDataProcessed" "mb_log_record (builder d1) = None"
    using spans(6) that by auto
  then show ?thesis
  proof cases
    case stop
    then have "flush_slot fuel env (d, k) = Some (Ret ((d1, k), Some st))" using spans(1) by (simp add: flush_slot_def)
    then show ?thesis using one stop by (intro exI[of _ d1] exI[of _ k] exI[of _ "Some st"] exI[of _ "[]"] exI[of _ hs]) auto
  next
    case finished
    obtain d2 where rel: "release_current d1 = Ret d2" "drained n output d1 [] d2 hs" "current_slot d2 = None"
      "mb_log_record (builder d2) = None" "rest d2 = []"
      using drained_released[OF spans(2) finished(2)] by blast
    have two: "drained n output d [] d2 hs" using drained_trans[of n d "[]" "[]" hs "output" d1 d2] assms(2) one rel(2) by simp
    have limit: "limit_slots_in_one_cycle d2 = limit_slots_in_one_cycle d" by (rule drainedD(2)[OF two])
    show ?thesis
    proof (cases "k > limit_slots_in_one_cycle d")
      case True
      then have "flush_slot fuel env (d, k) = Some (Ret ((d2, k), Some (Inr kNumberOfProcessedSlotsExceeded)))"
        using spans(1) finished(1) rel(1) limit by (simp add: flush_slot_def)
      then show ?thesis using two True
        by (intro exI[of _ d2] exI[of _ k] exI[of _ "Some (Inr kNumberOfProcessedSlotsExceeded)"] exI[of _ "[]"] exI[of _ hs]) auto
    next
      case False
      show ?thesis
      proof (cases hs)
        case Nil
        have "flush_slot fuel env (d, k) = Some (Ret ((d2, Suc k), Some (Inr kAllDataProcessed)))"
          using spans(1) finished(1) rel(1) limit False MoreSlots_none[of n d2 env] drainedD(1)[OF two] Nil by (simp add: flush_slot_def)
        then show ?thesis using two Nil rel(3,5)
          by (intro exI[of _ d2] exI[of _ "Suc k"] exI[of _ "Some (Inr kAllDataProcessed)"] exI[of _ "[]"] exI[of _ "[]"])
             (auto simp: cur_slots_def)
      next
        case (Cons h tl)
        obtain d3 where more: "MoreSlotsAvailableAndLoaded env d2 = Ret (d3, True)" "drained n output d2 [h] d3 tl"
          using drained_loaded[OF assms(1) _ rel(4,3)] drainedD(1)[OF two] Cons by blast
        have "drained n output d [h] d3 tl"
          using drained_trans[of n d "[]" "[h]" tl "output" d2 d3] assms(2) two more(2) Cons by simp
        moreover have "flush_slot fuel env (d, k) = Some (Ret ((d3, Suc k), None))"
          using spans(1) finished(1) rel(1) limit False more(1) by (simp add: flush_slot_def)
        ultimately show ?thesis using Cons
          by (intro exI[of _ d3] exI[of _ "Suc k"] exI[of _ None] exI[of _ "[h]"] exI[of _ tl]) auto
      qed
    qed
  qed
qed

lemma flush_slots_ok:
  assumes "env_ok env output" "3 < fuel'" "drain_wf n d hs" "length hs < fuel"
  shows "\<exists>d' k' r js hs'. loop_run fuel (flush_slot fuel' env) (d, k) = Some (Ret ((d', k'), r)) \<and> hs = js @ hs' \<and>
    drained n output d js d' hs' \<and> (r = Inr kAllDataProcessed \<longrightarrow> hs' = [] \<and> cur_slots d' = [] \<and> rest d' = []) \<and>
    (takes_all env \<and> max_chunk_size (writer d) = GetMaxChunkSize \<and> k + length hs \<le> limit_slots_in_one_cycle d \<longrightarrow>
       r = Inr kAllDataProcessed)"
  using assms(3,4)
proof (induction fuel arbitrary: d hs k)
  case (Suc fuel)
  obtain d1 k1 r js hs1 where first: "flush_slot fuel' env (d, k) = Some (Ret ((d1, k1), r))" "hs = js @ hs1"
    "drained n output d js d1 hs1" "r = None \<longrightarrow> js \<noteq> [] \<and> k1 = Suc k"
    "r = Some (Inr kAllDataProcessed) \<longrightarrow> hs1 = [] \<and> cur_slots d1 = [] \<and> rest d1 = []"
    "takes_all env \<and> max_chunk_size (writer d) = GetMaxChunkSize \<and> k \<le> limit_slots_in_one_cycle d \<longrightarrow>
       r = None \<or> r = Some (Inr kAllDataProcessed)"
    using flush_slot_ok[OF assms(1) Suc.prems(1) assms(2), of k] by blast
  note D = drainedD[OF first(3)]
  show ?case
  proof (cases r)
    case None
    then have shorter: "length hs1 < length hs" "k1 = Suc k" using first(2,4) by auto
    then have "length hs1 < fuel" using Suc.prems(2) by simp
    from Suc.IH[OF D(1) this, of k1] obtain d2 k2 r2 js2 hs2 where
      rest: "loop_run fuel (flush_slot fuel' env) (d1, k1) = Some (Ret ((d2, k2), r2))" "hs1 = js2 @ hs2"
      "drained n output d1 js2 d2 hs2" "r2 = Inr kAllDataProcessed \<longrightarrow> hs2 = [] \<and> cur_slots d2 = [] \<and> rest d2 = []"
      "takes_all env \<and> max_chunk_size (writer d1) = GetMaxChunkSize \<and> k1 + length hs1 \<le> limit_slots_in_one_cycle d1 \<longrightarrow>
         r2 = Inr kAllDataProcessed" by blast
    have "drained n output d (js @ js2) d2 hs2"
      by (rule drained_trans[of n d js js2 hs2 "output" d1 d2]) (use Suc.prems(1) first(2,3) rest(2,3) in simp_all)
    moreover have "loop_run (Suc fuel) (flush_slot fuel' env) (d, k) = Some (Ret ((d2, k2), r2))"
      using first(1) None rest(1) by simp
    moreover have "hs = (js @ js2) @ hs2" using first(2) rest(2) by simp
    moreover have "r2 = Inr kAllDataProcessed"
      if "takes_all env \<and> max_chunk_size (writer d) = GetMaxChunkSize \<and> k + length hs \<le> limit_slots_in_one_cycle d"
      using that rest(5) shorter D(2,3) by simp
    ultimately show ?thesis using rest(4) by blast
  next
    case (Some st)
    then have "loop_run (Suc fuel) (flush_slot fuel' env) (d, k) = Some (Ret ((d1, k1), st))" using first(1) by simp
    moreover have "st = Inr kAllDataProcessed"
      if "takes_all env \<and> max_chunk_size (writer d) = GetMaxChunkSize \<and> k + length hs \<le> limit_slots_in_one_cycle d"
      using that first(6) Some by auto
    ultimately show ?thesis using first(2,3,5) Some by blast
  qed
qed simp

lemma Flush_ok:
  assumes "env_ok env output" "drain_wf n d hs" "length hs + 3 < fuel"
  shows "\<exists>d' js hs'. Flush fuel env d = Some (Ret d') \<and> hs = js @ hs' \<and> drained n output d js d' hs' \<and>
    (takes_all env \<and> max_chunk_size (writer d) = GetMaxChunkSize \<and> length hs \<le> limit_slots_in_one_cycle d \<longrightarrow>
       hs' = [] \<and> cur_slots d' = [] \<and> rest d' = [])"
proof -
  have fuel: "3 < fuel" "length hs < fuel" using assms(3) by simp_all
  obtain d' k' r js hs' where run: "loop_run fuel (flush_slot fuel env) (d, 0) = Some (Ret ((d', k'), r))" "hs = js @ hs'"
    "drained n output d js d' hs'" "r = Inr kAllDataProcessed \<longrightarrow> hs' = [] \<and> cur_slots d' = [] \<and> rest d' = []"
    "takes_all env \<and> max_chunk_size (writer d) = GetMaxChunkSize \<and> 0 + length hs \<le> limit_slots_in_one_cycle d \<longrightarrow>
       r = Inr kAllDataProcessed"
    using flush_slots_ok[OF assms(1) fuel(1) assms(2) fuel(2), of 0] by blast
  have "Flush fuel env d = Some (Ret d')" using run(1) by (simp add: Flush_def TryFlushSlots_def)
  then show ?thesis using run(2-5) unfolding add_0 by blast
qed

end
