(* ===== verification/Log_Recorder.thy ===== *)
theory Log_Recorder
  imports Log_Drain Interleaving
begin

text \<open>
  The recorder of text messages with its backend, src/score/mw/log/detail/text_recorder/file_output_backend.cpp and
  text_recorder.cpp, on top of the slots and the drainer: starting a message reserves a slot, logging fills
  it, stopping it hands the slot to the drainer. The programs of the recorder are sequences of these calls.
\<close>

section \<open>Backend and recorder\<close>

definition ReserveSlot :: "nat \<Rightarrow> 'os environment \<Rightarrow> 'os drainer \<Rightarrow> ('os drainer \<times> slot_handle option) run" where
  "ReserveSlot fuel env d =
     bind_run (Flush fuel env d) (\<lambda>d.
     bind_run (AcquireSlotToWrite fuel (dr_allocator d)) (\<lambda>(a, i).
     Some (Ret (d\<lparr>dr_allocator := a\<rparr>, map_option (\<lambda>i. SlotHandle_ctor (word_of_nat i)) i))))"

definition FlushSlot :: "nat \<Rightarrow> 'os environment \<Rightarrow> slot_handle \<Rightarrow> 'os drainer \<Rightarrow> 'os drainer run" where
  "FlushSlot fuel env h d = bind_run (Some (PushBack h d)) (Flush fuel env)"

definition GetLogRecord :: "slot_handle \<Rightarrow> 'os drainer \<Rightarrow> log_record result" where
  "GetLogRecord h d = GetUnderlyingBufferFor (slot_of h) (dr_allocator d)"

definition StartRecord ::
  "nat \<Rightarrow> 'os environment \<Rightarrow> log_configuration \<Rightarrow> bool \<Rightarrow> string \<Rightarrow> LogLevel \<Rightarrow> 'os drainer \<Rightarrow> ('os drainer \<times> slot_handle option) run" where
  "StartRecord fuel env config check_log_level_for_console ctx log_level d = (
     if \<not> IsLogLevelEnabled config log_level ctx check_log_level_for_console then Some (Ret (d, None))
     else bind_run (ReserveSlot fuel env d) (\<lambda>(d, slot_handle). case slot_handle of
       None \<Rightarrow> Some (Ret (d, None))
     | Some h \<Rightarrow>
         bind_run (Some (GetLogRecord h d)) (\<lambda>r.
         bind_run (Some (write_slot (slot_of h)
           (r\<lparr>rec_app_id := LoggingIdentifier_ctor (cfg_app_id config), rec_ctx_id := LoggingIdentifier_ctor ctx,
              num_of_args := 0, rec_log_level := log_level, rec_payload := payload_Reset (rec_payload r)\<rparr>) (dr_allocator d))) (\<lambda>a.
         Some (Ret (d\<lparr>dr_allocator := a\<rparr>, Some h))))))"

definition GenericLog :: "slot_handle \<Rightarrow> log_arg \<Rightarrow> 'os drainer \<Rightarrow> 'os drainer result" where
  "GenericLog h data d =
     bind_outcome (GetLogRecord h d) (\<lambda>r.
     bind_outcome (TryAddArgument (\<lambda>payload.
         if RemainingCapacity payload > 0
         then bind_outcome (TextFormat_Log data payload) (\<lambda>payload. Ret (payload, kAdded))
         else Ret (payload, kNotAdded)) (num_of_args r) (rec_payload r)) (\<lambda>(counter, payload, _).
     bind_outcome (write_slot (slot_of h) (r\<lparr>num_of_args := counter, rec_payload := payload\<rparr>) (dr_allocator d)) (\<lambda>a.
     Ret (d\<lparr>dr_allocator := a\<rparr>))))"

definition StopRecord :: "nat \<Rightarrow> 'os environment \<Rightarrow> slot_handle \<Rightarrow> 'os drainer \<Rightarrow> 'os drainer run" where
  "StopRecord fuel env h d = FlushSlot fuel env h d"

section \<open>Recorder\<close>

text \<open>
  The program as the recorder sees it: the handles that clients hold and the records of the messages that were
  stopped, in order.
\<close>

record 'os recorder_system =
  drain :: "'os drainer"
  held :: "slot_handle set"
  sent :: "log_record list"

inductive record_step ::
  "nat \<Rightarrow> 'os environment \<Rightarrow> log_configuration \<Rightarrow> bool \<Rightarrow> unit \<Rightarrow> 'os recorder_system \<Rightarrow> 'os recorder_system \<Rightarrow> bool"
  for fuel env config console where
  start: "StartRecord fuel env config console ctx level (drain s) = Some (Ret (d, Some h)) \<Longrightarrow>
    record_step fuel env config console c s (s\<lparr>drain := d, held := insert h (held s)\<rparr>)"
| refused: "StartRecord fuel env config console ctx level (drain s) = Some (Ret (d, None)) \<Longrightarrow>
    record_step fuel env config console c s (s\<lparr>drain := d\<rparr>)"
| log: "h \<in> held s \<Longrightarrow> GenericLog h a (drain s) = Ret d \<Longrightarrow> record_step fuel env config console c s (s\<lparr>drain := d\<rparr>)"
| stop: "h \<in> held s \<Longrightarrow> StopRecord fuel env h (drain s) = Some (Ret d) \<Longrightarrow>
    record_step fuel env config console c s
      \<lparr>drain = d, held = held s - {h}, sent = sent s @ [record_of (drain s) (slot_of h)]\<rparr>"

definition recorder_init :: "nat \<Rightarrow> nat \<Rightarrow> string \<Rightarrow> nat \<Rightarrow> 'os \<Rightarrow> 'os recorder_system \<Rightarrow> bool" where
  "recorder_init n payload_size ecu limit system s \<longleftrightarrow>
     (\<exists>mb r. TextMessageBuilder_ctor ecu = Ret mb \<and> LogRecord_ctor payload_size = Ret r \<and>
        s = \<lparr>drain = SlotDrainer_ctor mb (CircularAllocator_ctor n r) system limit, held = {}, sent = []\<rparr>)"

definition queue_slots :: "'os drainer \<Rightarrow> slot_handle list \<Rightarrow> nat set" where
  "queue_slots d hs = set (cur_slots d @ map slot_of hs)"

definition rec_ok ::
  "nat \<Rightarrow> nat \<Rightarrow> string \<Rightarrow> ('os \<Rightarrow> string) \<Rightarrow> string \<Rightarrow> 'os recorder_system \<Rightarrow> slot_handle list \<Rightarrow> log_record list \<Rightarrow> string list \<Rightarrow> bool" where
  "rec_ok n limit ecu output begun s hs fin ms \<longleftrightarrow>
     drain_wf n (drain s) hs \<and> limit_slots_in_one_cycle (drain s) = limit \<and>
     max_chunk_size (writer (drain s)) = GetMaxChunkSize \<and> ecu_id (builder (drain s)) = ecu \<and>
     list_all2 (message_text ecu) fin ms \<and> sent s = fin @ map (\<lambda>h. record_of (drain s) (slot_of h)) hs \<and>
     output (os (drain s)) @ rest (drain s) = begun @ concat ms \<and> length (rest (drain s)) \<le> length (last ([] # ms)) \<and>
     inj_on slot_of (held s) \<and>
     (\<forall>h\<in>held s. slot_of h < n \<and> slot_in_use (ca_buffer (dr_allocator (drain s)) ! slot_of h) \<and>
        slot_of h \<notin> queue_slots (drain s) hs) \<and>
     (\<forall>i<n. slot_in_use (ca_buffer (dr_allocator (drain s)) ! i) \<longrightarrow> i \<in> queue_slots (drain s) hs \<union> slot_of ` held s)"

lemma rec_ok_drained:
  assumes "rec_ok n limit ecu output begun s (js @ hs) fin ms" "drained n output (drain s) js d' hs"
  shows "\<exists>fin' ms'. rec_ok n limit ecu output begun (s\<lparr>drain := d'\<rparr>) hs fin' ms'"
proof -
  let ?d = "drain s" and ?b = "\<lambda>h. record_of (drain s) (slot_of h)"
  have s: "drain_wf n ?d (js @ hs)" "ecu_id (builder ?d) = ecu" "list_all2 (message_text ecu) fin ms"
    "sent s = fin @ map ?b (js @ hs)" "output (os ?d) @ rest ?d = begun @ concat ms"
    "length (rest ?d) \<le> length (last ([] # ms))" "inj_on slot_of (held s)"
    "\<And>h. h \<in> held s \<Longrightarrow> slot_of h < n \<and> slot_in_use (ca_buffer (dr_allocator ?d) ! slot_of h) \<and> slot_of h \<notin> queue_slots ?d (js @ hs)"
    "limit_slots_in_one_cycle ?d = limit" "max_chunk_size (writer ?d) = GetMaxChunkSize"
    "\<And>i. i < n \<Longrightarrow> slot_in_use (ca_buffer (dr_allocator ?d) ! i) \<Longrightarrow> i \<in> queue_slots ?d (js @ hs) \<union> slot_of ` held s"
    using assms(1) unfolding rec_ok_def by blast+
  note D = drainedD[OF assms(2)]
  obtain W m where w: "list_all2 (\<lambda>h. message_text ecu (?b h)) js m" "output (os d') = output (os ?d) @ W"
    "W @ rest d' = rest ?d @ concat m" "length (rest d') \<le> length (last (rest ?d # m))"
    using assms(2) unfolding drained_def s(2) by blast
  have q: "distinct (cur_slots ?d @ map slot_of (js @ hs))" "\<And>h. h \<in> set hs \<Longrightarrow> slot_of h < n"
    using s(1) by (auto simp: drain_wf_def queue_ok_def)
  have same: "record_of d' (slot_of h) = ?b h" if "h \<in> set hs" for h
  proof -
    have "slot_of h \<notin> set (cur_slots ?d @ map slot_of js)" using q(1) that by auto
    then show ?thesis using D(5)[OF q(2)[OF that]] by (simp add: record_of_def)
  qed
  have "slot_of h < n \<and> slot_in_use (ca_buffer (dr_allocator d') ! slot_of h) \<and> slot_of h \<notin> queue_slots d' hs" if "h \<in> held s" for h
  proof -
    have "slot_of h \<notin> set (cur_slots ?d @ map slot_of js)" "slot_of h \<notin> slot_of ` set hs" "slot_of h < n"
      using s(8)[OF that] by (auto simp: queue_slots_def)
    then show ?thesis using D(4,5) s(8)[OF that] by (auto simp: queue_slots_def)
  qed
  moreover have "i \<in> queue_slots d' hs \<union> slot_of ` held s" if "i < n" "slot_in_use (ca_buffer (dr_allocator d') ! i)" for i
    using s(11)[OF that(1)] D(6)[OF that(1)] that(2) by (auto simp: queue_slots_def)
  moreover have "output (os d') @ rest d' = begun @ concat (ms @ m)"
    using w(2,3) s(5) by (metis append.assoc concat_append)
  moreover have "list_all2 (message_text ecu) (fin @ map ?b js) (ms @ m)"
    using w(1) s(3) by (simp add: list_all2_appendI list_all2_map1)
  moreover have "length (rest d') \<le> length (last ([] # ms @ m))" using w(4) s(6) by (cases m) auto
  ultimately have "rec_ok n limit ecu output begun (s\<lparr>drain := d'\<rparr>) hs (fin @ map ?b js) (ms @ m)"
    using D(1-3,7) s(2,4,7,9,10) same unfolding rec_ok_def by auto
  then show ?thesis by blast
qed

text \<open>Changes of the slots that are not in the queue.\<close>

lemma rec_ok_slots:
  assumes "rec_ok n limit ecu output begun s hs fin ms" "length (ca_buffer a) = n"
    "\<And>i. i \<in> queue_slots (drain s) hs \<Longrightarrow> ca_buffer a ! i = ca_buffer (dr_allocator (drain s)) ! i"
    "\<And>i. i < n \<Longrightarrow> payload_wf (rec_payload (slot_data (ca_buffer a ! i)))"
    "inj_on slot_of H" "\<And>h. h \<in> H \<Longrightarrow> slot_of h < n \<and> slot_in_use (ca_buffer a ! slot_of h) \<and> slot_of h \<notin> queue_slots (drain s) hs"
    "\<And>i. i < n \<Longrightarrow> slot_in_use (ca_buffer a ! i) \<Longrightarrow> i \<in> queue_slots (drain s) hs \<union> slot_of ` H"
  shows "rec_ok n limit ecu output begun (s\<lparr>drain := (drain s)\<lparr>dr_allocator := a\<rparr>, held := H\<rparr>) hs fin ms"
proof -
  let ?d = "drain s" and ?d' = "(drain s)\<lparr>dr_allocator := a\<rparr>"
  have wf: "drain_wf n ?d hs" using assms(1) by (simp add: rec_ok_def)
  have cur: "cur_slots ?d' = cur_slots ?d" by (simp add: cur_slots_def split: option.split)
  have pay: "payload_of ?d' i = payload_of ?d i" if "i \<in> queue_slots ?d hs" for i using assms(3)[OF that] by (simp add: payload_of_def)
  have rec_slot: "i \<in> queue_slots ?d hs" if "mb_log_record (builder ?d) = Some i" for i
    using wf that by (auto simp: drain_wf_def queue_ok_def queue_slots_def)
  have hb: "header_bytes ?d' = header_bytes ?d" by (simp add: header_bytes_def)
  have "span_ok ?d'" using wf pay rec_slot hb by (auto simp: drain_wf_def span_ok_def all_flushed_def split: option.splits ParsingPhase.splits)
  moreover have "memory_ok n ?d'" using wf assms(2,4) by (simp add: drain_wf_def memory_ok_def payload_of_def)
  moreover have "queue_ok n ?d' hs" using wf assms(3) unfolding drain_wf_def queue_ok_def cur queue_slots_def by auto
  ultimately have "drain_wf n ?d' hs" by (simp add: drain_wf_def)
  moreover have "rest ?d' = rest ?d" using pay rec_slot hb by (auto simp: rest_def body_def split: option.splits ParsingPhase.splits)
  moreover have "record_of ?d' (slot_of h) = record_of ?d (slot_of h)" if "h \<in> set hs" for h
    using assms(3)[of "slot_of h"] that by (simp add: record_of_def queue_slots_def)
  moreover have "queue_slots ?d' hs = queue_slots ?d hs" by (simp add: queue_slots_def cur)
  ultimately show ?thesis using assms(1,5,6,7) unfolding rec_ok_def by auto
qed

lemma reserve_loop:
  assumes "0 < n" "n < 2 ^ 32 - 1"
  shows "acquiring r \<Longrightarrow> limiter_ok n r \<Longrightarrow> length (ca_buffer a) = n \<Longrightarrow> (\<And>l i. r = Claimed l i \<Longrightarrow> i < n) \<Longrightarrow>
    accesses_left n r < fuel \<Longrightarrow>
    \<exists>a' r'. while_run fuel (\<lambda>s. Ret (acquiring (snd s))) acquire_access (a, r) = Some (Ret (a', r')) \<and>
      ((r' = GaveUp \<and> ca_buffer a' = ca_buffer a) \<or>
       (\<exists>i<n. r' = Acquired i \<and> \<not> slot_in_use (ca_buffer a ! i) \<and>
          ca_buffer a' = (ca_buffer a)[i := (ca_buffer a ! i)\<lparr>slot_in_use := True\<rparr>]))"
proof (induction fuel arbitrary: a r)
  case (Suc fuel)
  obtain a1 r1 where one: "acquire_access (a, r) = Ret (a1, r1)" "limiter_ok n r1" "accesses_left n r1 < accesses_left n r"
    "length (ca_buffer a1) = n" "\<And>l i. r1 = Claimed l i \<Longrightarrow> i < n"
    using acquire_access_progress[of r n a] Suc.prems(1-4) assms by blast
  have run: "while_run (Suc fuel) (\<lambda>s. Ret (acquiring (snd s))) acquire_access (a, r) =
      while_run fuel (\<lambda>s. Ret (acquiring (snd s))) acquire_access (a1, r1)"
    using Suc.prems(1) one(1) by simp
  have left: "accesses_left n r1 < fuel" using one(3) Suc.prems(5) by simp
  then obtain k where k: "fuel = Suc k" by (cases fuel) auto
  consider "acquiring r1" "ca_buffer a1 = ca_buffer a" | "r1 = GaveUp" "ca_buffer a1 = ca_buffer a"
    | i where "i < n" "r1 = Acquired i" "\<not> slot_in_use (ca_buffer a ! i)"
      "ca_buffer a1 = (ca_buffer a)[i := (ca_buffer a ! i)\<lparr>slot_in_use := True\<rparr>]"
    using acquire_access_cases[of a r a1 r1 n] one(1) Suc.prems(1,3,4) by auto
  then show ?case
  proof cases
    case 1
    then show ?thesis using Suc.IH[of r1 a1] one(2,4,5) left run by simp
  qed (use run k in auto)
qed simp

lemma AcquireSlotToWrite_returns:
  assumes "length (ca_buffer a) = n" "0 < n" "n < 2 ^ 32 - 1" "2 * n + 2 < fuel"
  shows "\<exists>a' r. AcquireSlotToWrite fuel a = Some (Ret (a', r)) \<and>
    (case r of None \<Rightarrow> ca_buffer a' = ca_buffer a
     | Some i \<Rightarrow> i < n \<and> \<not> slot_in_use (ca_buffer a ! i) \<and> ca_buffer a' = (ca_buffer a)[i := (ca_buffer a ! i)\<lparr>slot_in_use := True\<rparr>])"
proof -
  obtain a' r where "while_run fuel (\<lambda>s. Ret (acquiring (snd s))) acquire_access (a, Looping 0) = Some (Ret (a', r))"
    "(r = GaveUp \<and> ca_buffer a' = ca_buffer a) \<or>
       (\<exists>i<n. r = Acquired i \<and> \<not> slot_in_use (ca_buffer a ! i) \<and>
          ca_buffer a' = (ca_buffer a)[i := (ca_buffer a ! i)\<lparr>slot_in_use := True\<rparr>])"
    using reserve_loop[OF assms(2,3), of "Looping 0" a fuel] assms(1,4) by auto
  then show ?thesis by (auto simp: AcquireSlotToWrite_def)
qed

lemma word16_index: "i < n \<Longrightarrow> n \<le> kMaxCircularBufferSize \<Longrightarrow> slot_of (SlotHandle_ctor (word_of_nat i)) = i"
  by (simp add: slot_of_def kMaxCircularBufferSize_def unsigned_of_nat take_bit_nat_eq_self)

text \<open>The queue never holds more handles than there are slots.\<close>

lemma queue_room:
  assumes "drain_wf n d hs" "i < n" "i \<notin> queue_slots d hs"
  shows "length (cur_slots d) + length hs < n"
proof -
  have "distinct (cur_slots d @ map slot_of hs)" "set (cur_slots d @ map slot_of hs) \<subseteq> {..<n} - {i}"
    using assms by (auto simp: drain_wf_def queue_ok_def queue_slots_def)
  then have "length (cur_slots d @ map slot_of hs) \<le> card ({..<n} - {i})"
    by (metis card_mono distinct_card finite_Diff finite_lessThan)
  then show ?thesis using assms(2) by simp
qed

lemma PushBack_ok:
  assumes "drain_wf n d hs" "n \<le> kMaxCircularBufferSize" "slot_of h < n" "slot_in_use (ca_buffer (dr_allocator d) ! slot_of h)"
    "slot_of h \<notin> queue_slots d hs"
  shows "\<exists>b. PushBack h d = Ret (d\<lparr>handles := b, cells := (cells d)(tail (handles d) := h)\<rparr>) \<and>
    drain_wf n (d\<lparr>handles := b, cells := (cells d)(tail (handles d) := h)\<rparr>) (hs @ [h]) \<and>
    cur_slots (d\<lparr>handles := b, cells := (cells d)(tail (handles d) := h)\<rparr>) = cur_slots d"
proof -
  let ?b = "handles d"
  have s: "queue_ok n d hs" "memory_ok n d" "span_ok d" using assms(1) by (simp_all add: drain_wf_def)
  have q: "Circular_Buffer.represents ?b hs" "capacity ?b = kMaxCircularBufferSize" using s(1) by (simp_all add: queue_ok_def)
  have room: "length (cur_slots d) + length hs < kMaxCircularBufferSize" using queue_room[OF assms(1,3,5)] assms(2) by simp
  then have not_full: "\<not> cb_full ?b" using q by (simp add: cb_full_def Circular_Buffer.represents_def)
  obtain b where b: "push_back ?b (External h) = Ret b" "Circular_Buffer.represents b (hs @ [h])" "capacity b = capacity ?b"
    using emplace_back_external[OF q(1), of h] room q(2) by (auto simp: push_back_def push_list_def)
  have idx: "idx b j = idx ?b j" for j using push_back_head[OF b(1) not_full] b(3) by (simp add: idx_def)
  have tail: "tail ?b = idx ?b (length hs)" using q(1) by (simp add: Circular_Buffer.represents_def)
  let ?d = "d\<lparr>handles := b, cells := (cells d)(tail ?b := h)\<rparr>"
  have other: "((cells d)(tail ?b := h)) (idx ?b j) = (if j = length hs then h else cells d (idx ?b j))" if "j < kMaxCircularBufferSize" for j
    using idx_inj[of j ?b "length hs"] that room q(2) tail by auto
  have cur_cell: "c = idx ?b (kMaxCircularBufferSize - 1)" "length hs \<noteq> kMaxCircularBufferSize - 1" if "current_slot d = Some c" for c
    using s(1) that room by (auto simp: queue_ok_def cur_slots_def)
  have cur: "cur_slots ?d = cur_slots d"
    using cur_cell other[of "kMaxCircularBufferSize - 1"] by (auto simp: cur_slots_def kMaxCircularBufferSize_def split: option.split)
  have "cells ?d (idx b j) = (hs @ [h]) ! j" if "j < length (hs @ [h])" for j
    using other[of j] that room s(1) idx by (auto simp: queue_ok_def nth_append)
  then have "queue_ok n ?d (hs @ [h])"
    using s(1) b(2,3) idx assms(3-5) cur unfolding queue_ok_def queue_slots_def by auto
  moreover have pay: "payload_of ?d = payload_of d" by (simp add: payload_of_def fun_eq_iff)
  moreover have "memory_ok n ?d" using s(2) pay by (simp add: memory_ok_def)
  moreover have "span_ok ?d"
    using s(3) pay by (auto simp: span_ok_def all_flushed_def header_bytes_def split: option.splits ParsingPhase.splits)
  moreover have "PushBack h d = Ret ?d" using b(1) by (simp add: PushBack_def)
  ultimately show ?thesis using cur by (intro exI[of _ b]) (simp add: drain_wf_def)
qed

section \<open>Runs of the recorder\<close>

text \<open>The sizes for which everything fits: the slots fit into the queue, and the fuel is enough for all loops.\<close>

definition sizes_ok :: "nat \<Rightarrow> nat \<Rightarrow> bool" where
  "sizes_ok n fuel \<longleftrightarrow> 0 < n \<and> n \<le> kMaxCircularBufferSize \<and> 2 * n + 4 < fuel"

definition rec_inv :: "nat \<Rightarrow> nat \<Rightarrow> string \<Rightarrow> ('os \<Rightarrow> string) \<Rightarrow> string \<Rightarrow> 'os recorder_system \<Rightarrow> bool" where
  "rec_inv n limit ecu output begun s \<longleftrightarrow> (\<exists>hs fin ms. rec_ok n limit ecu output begun s hs fin ms)"

lemma queue_length:
  assumes "drain_wf n d hs"
  shows "length hs \<le> n"
proof -
  have "distinct (map slot_of hs)" "set (map slot_of hs) \<subseteq> {..<n}" using assms by (auto simp: drain_wf_def queue_ok_def)
  then show ?thesis by (metis card_lessThan card_mono distinct_card finite_lessThan length_map)
qed

lemma rec_Flush:
  assumes "env_ok env output" "sizes_ok n fuel" "rec_inv n limit ecu output begun s"
  shows "\<exists>d'. Flush fuel env (drain s) = Some (Ret d') \<and> rec_inv n limit ecu output begun (s\<lparr>drain := d'\<rparr>)"
proof -
  obtain hs fin ms where ok: "rec_ok n limit ecu output begun s hs fin ms" using assms(3) by (auto simp: rec_inv_def)
  then have wf: "drain_wf n (drain s) hs" by (simp add: rec_ok_def)
  then have "length hs + 3 < fuel" using queue_length[OF wf] assms(2) by (simp add: sizes_ok_def)
  then obtain d' js hs' where "Flush fuel env (drain s) = Some (Ret d')" "hs = js @ hs'" "drained n output (drain s) js d' hs'"
    using Flush_ok[OF assms(1) wf] by blast
  then show ?thesis using rec_ok_drained[of n limit ecu "output" begun s js hs' fin ms d'] ok by (auto simp: rec_inv_def)
qed

lemma rec_acquired:
  assumes "rec_inv n limit ecu output begun s" "n \<le> kMaxCircularBufferSize" "i < n" "\<not> slot_in_use (ca_buffer (dr_allocator (drain s)) ! i)"
    "ca_buffer a = (ca_buffer (dr_allocator (drain s)))[i := (ca_buffer (dr_allocator (drain s)) ! i)\<lparr>slot_in_use := True\<rparr>]"
  shows "rec_inv n limit ecu output begun (s\<lparr>drain := (drain s)\<lparr>dr_allocator := a\<rparr>, held := insert (SlotHandle_ctor (word_of_nat i)) (held s)\<rparr>)"
proof -
  let ?h = "SlotHandle_ctor (word_of_nat i)" and ?a = "dr_allocator (drain s)"
  obtain hs fin ms where ok: "rec_ok n limit ecu output begun s hs fin ms" using assms(1) by (auto simp: rec_inv_def)
  have h: "slot_of ?h = i" by (rule word16_index[OF assms(3,2)])
  have mem: "length (ca_buffer ?a) = n" "\<And>j. j < n \<Longrightarrow> payload_wf (rec_payload (slot_data (ca_buffer ?a ! j)))"
    using ok by (simp_all add: rec_ok_def drain_wf_def memory_ok_def payload_of_def)
  have used: "slot_in_use (ca_buffer ?a ! j)" if "j \<in> queue_slots (drain s) hs" for j
    using ok that unfolding rec_ok_def drain_wf_def queue_ok_def queue_slots_def by blast
  have held: "slot_of g < n" "slot_in_use (ca_buffer ?a ! slot_of g)" "slot_of g \<notin> queue_slots (drain s) hs" if "g \<in> held s" for g
    using ok that unfolding rec_ok_def by blast+
  have inj: "inj_on slot_of (held s)" using ok unfolding rec_ok_def by blast
  have "rec_ok n limit ecu output begun (s\<lparr>drain := (drain s)\<lparr>dr_allocator := a\<rparr>, held := insert ?h (held s)\<rparr>) hs fin ms"
  proof (rule rec_ok_slots[OF ok])
    show "length (ca_buffer a) = n" using assms(5) mem(1) by simp
    show "ca_buffer a ! j = ca_buffer ?a ! j" if "j \<in> queue_slots (drain s) hs" for j
      using used[OF that] assms(4,5) by (metis nth_list_update_neq)
    show "payload_wf (rec_payload (slot_data (ca_buffer a ! j)))" if "j < n" for j
      using mem that assms(5) by (cases "j = i") simp_all
    show "inj_on slot_of (insert ?h (held s))" using inj held(2) h assms(4) by (auto simp: inj_on_def)
    show "slot_of g < n \<and> slot_in_use (ca_buffer a ! slot_of g) \<and> slot_of g \<notin> queue_slots (drain s) hs"
      if "g \<in> insert ?h (held s)" for g
      using that held[of g] used[of i] h assms(3-5) mem(1) by (cases "slot_of g = i") auto
    show "j \<in> queue_slots (drain s) hs \<union> slot_of ` insert ?h (held s)" if "j < n" "slot_in_use (ca_buffer a ! j)" for j
      using that ok h assms(5) unfolding rec_ok_def by (cases "j = i") auto
  qed
  then show ?thesis by (auto simp: rec_inv_def)
qed

lemma rec_written:
  assumes "rec_inv n limit ecu output begun s" "h \<in> held s" "write_slot (slot_of h) r (dr_allocator (drain s)) = Ret a"
    "payload_wf (rec_payload r)"
  shows "rec_inv n limit ecu output begun (s\<lparr>drain := (drain s)\<lparr>dr_allocator := a\<rparr>\<rparr>)"
proof -
  let ?i = "slot_of h" and ?a = "dr_allocator (drain s)"
  obtain hs fin ms where ok: "rec_ok n limit ecu output begun s hs fin ms" using assms(1) by (auto simp: rec_inv_def)
  have held: "slot_of g < n" "slot_in_use (ca_buffer ?a ! slot_of g)" "slot_of g \<notin> queue_slots (drain s) hs" if "g \<in> held s" for g
    using ok that unfolding rec_ok_def by blast+
  have mem: "length (ca_buffer ?a) = n" "\<And>j. j < n \<Longrightarrow> payload_wf (rec_payload (slot_data (ca_buffer ?a ! j)))"
    using ok by (simp_all add: rec_ok_def drain_wf_def memory_ok_def payload_of_def)
  have a: "ca_buffer a = (ca_buffer ?a)[?i := SetData r (ca_buffer ?a ! ?i)]" using assms(3) by (auto simp: write_slot_def split: if_splits)
  have "rec_ok n limit ecu output begun (s\<lparr>drain := (drain s)\<lparr>dr_allocator := a\<rparr>, held := held s\<rparr>) hs fin ms"
  proof (rule rec_ok_slots[OF ok])
    show "length (ca_buffer a) = n" using a mem(1) by simp
    show "ca_buffer a ! j = ca_buffer ?a ! j" if "j \<in> queue_slots (drain s) hs" for j
      using held(3)[OF assms(2)] that a by (metis nth_list_update_neq)
    show "payload_wf (rec_payload (slot_data (ca_buffer a ! j)))" if "j < n" for j
      using mem that a assms(4) by (cases "j = ?i") (simp_all add: SetData_def)
    show "inj_on slot_of (held s)" using ok unfolding rec_ok_def by blast
    show "slot_of g < n \<and> slot_in_use (ca_buffer a ! slot_of g) \<and> slot_of g \<notin> queue_slots (drain s) hs" if "g \<in> held s" for g
      using held[OF that] a mem(1) by (cases "slot_of g = ?i") (simp_all add: SetData_def)
    show "j \<in> queue_slots (drain s) hs \<union> slot_of ` held s" if "j < n" "slot_in_use (ca_buffer a ! j)" for j
      using that ok a assms(2) unfolding rec_ok_def by (cases "j = ?i") auto
  qed
  then show ?thesis by (auto simp: rec_inv_def)
qed

lemma held_record:
  assumes "rec_inv n limit ecu output begun s" "h \<in> held s"
  shows "slot_of h < n" "length (ca_buffer (dr_allocator (drain s))) = n" "payload_wf (payload_of (drain s) (slot_of h))"
    "GetLogRecord h (drain s) = Ret (slot_data (ca_buffer (dr_allocator (drain s)) ! slot_of h))"
  using assms by (auto simp: rec_inv_def rec_ok_def drain_wf_def memory_ok_def GetLogRecord_def GetUnderlyingBufferFor_def)

lemma rec_StartRecord:
  assumes "env_ok env output" "sizes_ok n fuel" "rec_inv n limit ecu output begun s"
  shows "\<exists>d r. StartRecord fuel env config console ctx level (drain s) = Some (Ret (d, r)) \<and>
    rec_inv n limit ecu output begun (case r of None \<Rightarrow> s\<lparr>drain := d\<rparr> | Some h \<Rightarrow> s\<lparr>drain := d, held := insert h (held s)\<rparr>)"
proof (cases "IsLogLevelEnabled config level ctx console")
  case False
  then show ?thesis using assms(3) by (simp add: StartRecord_def)
next
  case True
  obtain d1 where f: "Flush fuel env (drain s) = Some (Ret d1)" "rec_inv n limit ecu output begun (s\<lparr>drain := d1\<rparr>)"
    using rec_Flush[OF assms] by blast
  then have len: "length (ca_buffer (dr_allocator d1)) = n" by (auto simp: rec_inv_def rec_ok_def drain_wf_def memory_ok_def)
  have n: "0 < n" "n < 2 ^ 32 - 1" "2 * n + 2 < fuel" "n \<le> kMaxCircularBufferSize"
    using assms(2) by (auto simp: sizes_ok_def kMaxCircularBufferSize_def)
  obtain a r where acq: "AcquireSlotToWrite fuel (dr_allocator d1) = Some (Ret (a, r))"
    "case r of None \<Rightarrow> ca_buffer a = ca_buffer (dr_allocator d1)
     | Some i \<Rightarrow> i < n \<and> \<not> slot_in_use (ca_buffer (dr_allocator d1) ! i) \<and>
         ca_buffer a = (ca_buffer (dr_allocator d1))[i := (ca_buffer (dr_allocator d1) ! i)\<lparr>slot_in_use := True\<rparr>]"
    using AcquireSlotToWrite_returns[OF len n(1-3)] by blast
  show ?thesis
  proof (cases r)
    case None
    obtain hs fin ms where ok: "rec_ok n limit ecu output begun (s\<lparr>drain := d1\<rparr>) hs fin ms" using f(2) by (auto simp: rec_inv_def)
    have "rec_ok n limit ecu output begun ((s\<lparr>drain := d1\<rparr>)\<lparr>drain := d1\<lparr>dr_allocator := a\<rparr>, held := held s\<rparr>) hs fin ms"
      using rec_ok_slots[OF ok, of a "held s"] acq(2) None ok len
      by (simp add: rec_ok_def drain_wf_def memory_ok_def payload_of_def)
    then have "rec_inv n limit ecu output begun (s\<lparr>drain := d1\<lparr>dr_allocator := a\<rparr>\<rparr>)" by (auto simp: rec_inv_def)
    then show ?thesis using True f(1) acq(1) None by (simp add: StartRecord_def ReserveSlot_def)
  next
    case (Some i)
    let ?h = "SlotHandle_ctor (word_of_nat i)" and ?d2 = "d1\<lparr>dr_allocator := a\<rparr>"
    let ?s2 = "s\<lparr>drain := ?d2, held := insert ?h (held s)\<rparr>"
    have inv2: "rec_inv n limit ecu output begun ?s2"
      using rec_acquired[OF f(2) n(4), of i a] acq(2) Some by simp
    note hr = held_record[OF inv2, of ?h, simplified]
    let ?r = "slot_data (ca_buffer a ! slot_of ?h)"
    let ?r' = "?r\<lparr>rec_app_id := LoggingIdentifier_ctor (cfg_app_id config), rec_ctx_id := LoggingIdentifier_ctor ctx,
              num_of_args := 0, rec_log_level := level, rec_payload := payload_Reset (rec_payload ?r)\<rparr>"
    obtain a3 where w: "write_slot (slot_of ?h) ?r' a = Ret a3" using hr(1,2) by (simp add: write_slot_def)
    have "payload_wf (rec_payload ?r')" using payload_wf_reset(1)[OF hr(3)] by (simp add: payload_of_def)
    then have "rec_inv n limit ecu output begun (s\<lparr>drain := ?d2\<lparr>dr_allocator := a3\<rparr>, held := insert ?h (held s)\<rparr>)"
      using rec_written[OF inv2, of ?h ?r' a3] w by (cases s) simp
    moreover have "StartRecord fuel env config console ctx level (drain s) = Some (Ret (?d2\<lparr>dr_allocator := a3\<rparr>, Some ?h))"
      using True f(1) acq(1) Some hr(4) w by (simp add: StartRecord_def ReserveSlot_def)
    ultimately show ?thesis by auto
  qed
qed

lemma rec_GenericLog:
  assumes "rec_inv n limit ecu output begun s" "h \<in> held s" "GenericLog h a (drain s) = Ret d"
  shows "rec_inv n limit ecu output begun (s\<lparr>drain := d\<rparr>)"
proof -
  note hr = held_record[OF assms(1,2)]
  let ?r = "slot_data (ca_buffer (dr_allocator (drain s)) ! slot_of h)"
  obtain counter payload res b where
    add: "TryAddArgument (\<lambda>payload. if RemainingCapacity payload > 0
         then bind_outcome (TextFormat_Log a payload) (\<lambda>payload. Ret (payload, kAdded))
         else Ret (payload, kNotAdded)) (num_of_args ?r) (rec_payload ?r) = Ret (counter, payload, res)"
    and w: "write_slot (slot_of h) (?r\<lparr>num_of_args := counter, rec_payload := payload\<rparr>) (dr_allocator (drain s)) = Ret b"
    and d: "d = (drain s)\<lparr>dr_allocator := b\<rparr>"
    using assms(3) hr(4) by (auto simp: GenericLog_def)
  have wf: "payload_wf (rec_payload ?r)" using hr(3) by (simp add: payload_of_def)
  have "payload_wf v" if "TextFormat_Log a (rec_payload ?r) = Ret v" for v
    using that TextFormat_Log_eq[OF wf, of a] payload_wf_append[OF wf] appended_room[of _ a] by (auto split: option.splits)
  then have "payload_wf payload" using add wf by (auto simp: TryAddArgument_def split: if_splits)
  then show ?thesis using rec_written[OF assms(1,2) w] d by simp
qed

lemma rec_PushBack:
  assumes "sizes_ok n fuel" "rec_inv n limit ecu output begun s" "h \<in> held s"
  shows "\<exists>d. PushBack h (drain s) = Ret d \<and>
    rec_inv n limit ecu output begun \<lparr>drain = d, held = held s - {h}, sent = sent s @ [record_of (drain s) (slot_of h)]\<rparr>"
proof -
  let ?d = "drain s"
  obtain hs fin ms where ok: "rec_ok n limit ecu output begun s hs fin ms" using assms(2) by (auto simp: rec_inv_def)
  then have wf: "drain_wf n ?d hs" by (simp add: rec_ok_def)
  have held: "slot_of g < n" "slot_in_use (ca_buffer (dr_allocator ?d) ! slot_of g)" "slot_of g \<notin> queue_slots ?d hs" if "g \<in> held s" for g
    using ok that unfolding rec_ok_def by blast+
  have inj: "inj_on slot_of (held s)" using ok unfolding rec_ok_def by blast
  obtain b where push: "PushBack h ?d = Ret (?d\<lparr>handles := b, cells := (cells ?d)(tail (handles ?d) := h)\<rparr>)"
    "drain_wf n (?d\<lparr>handles := b, cells := (cells ?d)(tail (handles ?d) := h)\<rparr>) (hs @ [h])"
    "cur_slots (?d\<lparr>handles := b, cells := (cells ?d)(tail (handles ?d) := h)\<rparr>) = cur_slots ?d"
    using PushBack_ok[OF wf _ held[OF assms(3)]] assms(1) by (auto simp: sizes_ok_def)
  define d1 where "d1 = ?d\<lparr>handles := b, cells := (cells ?d)(tail (handles ?d) := h)\<rparr>"
  let ?s1 = "\<lparr>drain = d1, held = held s - {h}, sent = sent s @ [record_of ?d (slot_of h)]\<rparr>"
  have same: "builder d1 = builder ?d" "record_of d1 = record_of ?d" "rest d1 = rest ?d" "os d1 = os ?d" "dr_allocator d1 = dr_allocator ?d" "cur_slots d1 = cur_slots ?d"
    "limit_slots_in_one_cycle d1 = limit_slots_in_one_cycle ?d" "writer d1 = writer ?d"
    using push(3) by (simp_all add: d1_def body_def record_of_def rest_def payload_of_def header_bytes_def fun_eq_iff split: option.split ParsingPhase.split)
  have "slot_of g \<noteq> slot_of h" if "g \<in> held s - {h}" for g using inj that assms(3) by (auto simp: inj_on_def)
  then have "rec_ok n limit ecu output begun ?s1 (hs @ [h]) fin ms"
    using ok push(2) held inj same unfolding rec_ok_def d1_def[symmetric] by (auto simp: queue_slots_def intro: inj_on_subset)
  then have "rec_inv n limit ecu output begun ?s1" by (auto simp: rec_inv_def)
  then show ?thesis using push(1) by (auto simp: d1_def)
qed

lemma rec_StopRecord:
  assumes "env_ok env output" "sizes_ok n fuel" "rec_inv n limit ecu output begun s" "h \<in> held s"
  shows "\<exists>d. StopRecord fuel env h (drain s) = Some (Ret d) \<and>
    rec_inv n limit ecu output begun \<lparr>drain = d, held = held s - {h}, sent = sent s @ [record_of (drain s) (slot_of h)]\<rparr>"
proof -
  obtain d1 where push: "PushBack h (drain s) = Ret d1"
    "rec_inv n limit ecu output begun \<lparr>drain = d1, held = held s - {h}, sent = sent s @ [record_of (drain s) (slot_of h)]\<rparr>"
    using rec_PushBack[OF assms(2-4)] by blast
  from rec_Flush[OF assms(1,2) push(2)] show ?thesis using push(1) by (auto simp: StopRecord_def FlushSlot_def)
qed

lemma rec_init:
  assumes "recorder_init n payload_size ecu limit system s" "0 < n" "payload_size \<le> int32_max"
  shows "rec_inv n limit (LoggingIdentifier_ctor ecu) output (output system) s"
proof -
  obtain mb r where init: "TextMessageBuilder_ctor ecu = Ret mb" "LogRecord_ctor payload_size = Ret r"
    "s = \<lparr>drain = SlotDrainer_ctor mb (CircularAllocator_ctor n r) system limit, held = {}, sent = []\<rparr>"
    using assms(1) by (auto simp: recorder_init_def)
  have r: "payload_wf (rec_payload r)" and mb: "mb_log_record mb = None" "ecu_id mb = LoggingIdentifier_ctor ecu" "header_payload mb = \<lparr>bv_bytes = [], bv_capacity = kMaxHeaderSize\<rparr>"
    using init(1,2) assms(3)
    by (auto simp: LogRecord_ctor_def TextMessageBuilder_ctor_def VerbosePayload_ctor_def vector_reserve_def payload_wf_def vector_size_def split: if_splits)
  have "rec_ok n limit (LoggingIdentifier_ctor ecu) output (output system) s [] [] []"
    using r mb assms(2) unfolding init(3)
    by (auto simp: rec_ok_def drain_wf_def memory_ok_def queue_ok_def span_ok_def SlotDrainer_ctor_def CircularAllocator_ctor_def
        Slot_ctor_def SetData_def payload_of_def payload_wf_def vector_size_def kMaxHeaderSize_def int32_max_def
        NonBlockingWriter_ctor_def GetMaxChunkSize_def cur_slots_def all_flushed_def header_bytes_def rest_def
        Circular_Buffer.represents_def holds_def make_circular_buffer_def capacity_def idx_def kMaxCircularBufferSize_def)
  then show ?thesis by (auto simp: rec_inv_def)
qed

section \<open>Correctness of the pipeline\<close>

definition guarded_inv ::
  "nat \<Rightarrow> nat \<Rightarrow> nat \<Rightarrow> nat \<Rightarrow> string \<Rightarrow> 'os environment \<Rightarrow> ('os \<Rightarrow> string) \<Rightarrow> 'os \<Rightarrow> 'os recorder_system \<Rightarrow> bool" where
  "guarded_inv n payload_size limit fuel ecu env output system s \<longleftrightarrow>
     (env_ok env output \<and> sizes_ok n fuel \<and> payload_size \<le> int32_max \<longrightarrow> rec_inv n limit (LoggingIdentifier_ctor ecu) output (output system) s)"

interpretation recorder: invariant_system "recorder_init n payload_size ecu limit system" "record_step fuel env config console"
    "guarded_inv n payload_size limit fuel ecu env output system"
    for n payload_size ecu limit system fuel env config console "output"
proof
  show "guarded_inv n payload_size limit fuel ecu env output system s" if "recorder_init n payload_size ecu limit system s" for s
    using rec_init[OF that] by (simp add: guarded_inv_def sizes_ok_def)
  show "guarded_inv n payload_size limit fuel ecu env output system s'"
    if inv: "guarded_inv n payload_size limit fuel ecu env output system s" and step: "record_step fuel env config console c s s'" for c s s'
    unfolding guarded_inv_def
  proof
    assume g: "env_ok env output \<and> sizes_ok n fuel \<and> payload_size \<le> int32_max"
    then have inv: "rec_inv n limit (LoggingIdentifier_ctor ecu) output (output system) s" using inv by (simp add: guarded_inv_def)
    have ok: "env_ok env output" "sizes_ok n fuel" using g by simp_all
    show "rec_inv n limit (LoggingIdentifier_ctor ecu) output (output system) s'"
      using step
    proof cases
      case (start ctx level d h)
      then show ?thesis using rec_StartRecord[OF ok inv, of config console ctx level] by auto
    next
      case (refused ctx level d)
      then show ?thesis using rec_StartRecord[OF ok inv, of config console ctx level] by auto
    next
      case (log h a d)
      then show ?thesis using rec_GenericLog[OF inv] by auto
    next
      case (stop h d)
      then show ?thesis using rec_StopRecord[OF ok inv, of h] by auto
    qed
  qed
qed

lemma reachable_rec_inv:
  assumes "env_ok env output" "sizes_ok n fuel" "payload_size \<le> int32_max"
    "reachable (recorder_init n payload_size ecu limit system) (record_step fuel env config console) s"
  shows "rec_inv n limit (LoggingIdentifier_ctor ecu) output (output system) s"
  using recorder.reachable_inv[OF assms(4), of "output"] assms(1-3) by (simp add: guarded_inv_def)

lemma suffix_by_length:
  fixes a :: "'a list" assumes "a @ r = b @ m" "length r \<le> length m"
  shows "\<exists>p. m = p @ r"
  using assms by (auto simp: append_eq_append_conv2)

lemma rec_ok_missing:
  assumes "rec_ok n limit ecu output begun s hs fin ms"
  shows "\<exists>p. last ([] # ms) = p @ rest (drain s)"
proof (cases ms rule: rev_cases)
  case Nil
  then show ?thesis using assms by (simp add: rec_ok_def)
next
  case (snoc ms1 m)
  then have "output (os (drain s)) @ rest (drain s) = (begun @ concat ms1) @ m" "length (rest (drain s)) \<le> length m"
    using assms by (simp_all add: rec_ok_def)
  from suffix_by_length[OF this] show ?thesis using snoc by simp
qed

text \<open>
  C39: Whatever messages are started, filled and stopped, in any order and number, and however many bytes the
  file takes or refuses at a time: the file holds the texts of the stopped messages, each with the header for its
  own identifiers, level and number of arguments, complete, once and in the order in which they were stopped; only an end of the
  last one may still be missing. The messages after that one wait unchanged in the slots that the queue names, in its order, and every slot in use
  belongs to a client, to a waiting message or to the one being written.
\<close>

theorem recorder_output_in_order:
  assumes "env_ok env output" "sizes_ok n fuel" "payload_size \<le> int32_max"
    "reachable (recorder_init n payload_size ecu limit system) (record_step fuel env config console) s"
  shows "\<exists>k ms missing hs. k \<le> length (sent s) \<and> list_all2 (message_text (LoggingIdentifier_ctor ecu)) (take k (sent s)) ms \<and>
    output (os (drain s)) @ missing = output system @ concat ms \<and> (\<exists>written. last ([] # ms) = written @ missing) \<and>
    drop k (sent s) = map (\<lambda>h. record_of (drain s) (slot_of h)) hs \<and> Circular_Buffer.represents (handles (drain s)) hs \<and>
    (\<forall>i<n. slot_in_use (ca_buffer (dr_allocator (drain s)) ! i) \<longrightarrow> i \<in> queue_slots (drain s) hs \<union> slot_of ` held s)"
proof -
  obtain hs fin ms where ok: "rec_ok n limit (LoggingIdentifier_ctor ecu) output (output system) s hs fin ms"
    using reachable_rec_inv[OF assms] by (auto simp: rec_inv_def)
  then have "sent s = fin @ map (\<lambda>h. record_of (drain s) (slot_of h)) hs" unfolding rec_ok_def by blast
  then have "take (length fin) (sent s) = fin" "drop (length fin) (sent s) = map (\<lambda>h. record_of (drain s) (slot_of h)) hs"
    "length fin \<le> length (sent s)" by simp_all
  moreover have "Circular_Buffer.represents (handles (drain s)) hs" using ok by (simp add: rec_ok_def drain_wf_def queue_ok_def)
  ultimately show ?thesis using ok rec_ok_missing[OF ok] unfolding rec_ok_def
    by (intro exI[of _ "length fin"] exI[of _ ms] exI[of _ "rest (drain s)"] exI[of _ hs]) simp
qed

text \<open>
  C40: Stopping a message always comes back. If the file takes every byte and the limit of slots per cycle is not
  below the number of slots, the file then holds the texts of all messages that were stopped, this one as the last,
  and the slots in use are those that clients hold.
\<close>

theorem StopRecord_writes_all:
  assumes "env_ok env output" "sizes_ok n fuel" "payload_size \<le> int32_max"
    "reachable (recorder_init n payload_size ecu limit system) (record_step fuel env config console) s"
    "h \<in> held s"
  shows "\<exists>d. StopRecord fuel env h (drain s) = Some (Ret d) \<and>
    (takes_all env \<and> n \<le> limit \<longrightarrow>
      (\<exists>ms. list_all2 (message_text (LoggingIdentifier_ctor ecu)) (sent s @ [record_of (drain s) (slot_of h)]) ms \<and>
         output (os d) = output system @ concat ms) \<and>
      (\<forall>i<n. slot_in_use (ca_buffer (dr_allocator d) ! i) \<longleftrightarrow> i \<in> slot_of ` (held s - {h})))"
proof -
  have inv: "rec_inv n limit (LoggingIdentifier_ctor ecu) output (output system) s" by (rule reachable_rec_inv[OF assms(1-4)])
  obtain hs d1 fin ms where push: "PushBack h (drain s) = Ret d1"
    "rec_ok n limit (LoggingIdentifier_ctor ecu) output (output system)
       \<lparr>drain = d1, held = held s - {h}, sent = sent s @ [record_of (drain s) (slot_of h)]\<rparr> hs fin ms"
    using rec_PushBack[OF assms(2) inv assms(5)] by (auto simp: rec_inv_def)
  let ?s1 = "\<lparr>drain = d1, held = held s - {h}, sent = sent s @ [record_of (drain s) (slot_of h)]\<rparr>"
  have wf: "drain_wf n d1 hs" "limit_slots_in_one_cycle d1 = limit" "max_chunk_size (writer d1) = GetMaxChunkSize"
    using push(2) by (simp_all add: rec_ok_def)
  have len: "length hs + 3 < fuel" "length hs \<le> n" using queue_length[OF wf(1)] assms(2) by (simp_all add: sizes_ok_def)
  obtain d js hs' where f: "Flush fuel env d1 = Some (Ret d)" "hs = js @ hs'" "drained n output d1 js d hs'"
    "takes_all env \<and> length hs \<le> limit \<longrightarrow> hs' = [] \<and> cur_slots d = [] \<and> rest d = []"
    using Flush_ok[OF assms(1) wf(1) len(1)] unfolding wf(2,3) by blast
  obtain fin' ms' where ok: "rec_ok n limit (LoggingIdentifier_ctor ecu) output (output system) (?s1\<lparr>drain := d\<rparr>) hs' fin' ms'"
    using rec_ok_drained[of n limit "LoggingIdentifier_ctor ecu" "output" "output system" ?s1 js hs' fin ms d] push(2) f(2,3) by auto
  have "list_all2 (message_text (LoggingIdentifier_ctor ecu)) (sent s @ [record_of (drain s) (slot_of h)]) ms' \<and>
    output (os d) = output system @ concat ms'" if "takes_all env \<and> n \<le> limit"
    using ok f(4) len(2) that by (simp add: rec_ok_def)
  moreover have "slot_in_use (ca_buffer (dr_allocator d) ! i) \<longleftrightarrow> i \<in> slot_of ` (held s - {h})" if "takes_all env \<and> n \<le> limit" "i < n" for i
    using ok f(4) len(2) that unfolding rec_ok_def queue_slots_def by fastforce
  ultimately show ?thesis using push(1) f(1) by (auto simp: StopRecord_def FlushSlot_def)
qed

section \<open>A run\<close>

definition demo_env :: "string environment" where
  "demo_env = \<lparr>sys_write = \<lambda>file bytes. (file @ bytes, Some (length bytes)), sys_clock = \<lambda>file. (file, (Some ''12:00:00.'', 0, 7))\<rparr>"

definition demo_config :: log_configuration where
  "demo_config = \<lparr>cfg_app_id = ''APP'', context_log_level = Map.empty, default_log_level = kInfo, default_console_log_level = kInfo\<rparr>"

definition demo_builder :: message_builder where
  "demo_builder = \<lparr>mb_log_record = None, header_payload = \<lparr>bv_bytes = [], bv_capacity = kMaxHeaderSize\<rparr>, parsing_phase = kHeader,
     ecu_id = LoggingIdentifier_ctor ''ECU''\<rparr>"

definition demo_record :: log_record where
  "demo_record = \<lparr>rec_app_id = LoggingIdentifier_ctor [], rec_ctx_id = LoggingIdentifier_ctor [],
     rec_payload = \<lparr>bv_bytes = [], bv_capacity = 16\<rparr>, num_of_args = 0, rec_log_level = 0\<rparr>"

definition demo_drain :: "string drainer" where
  "demo_drain = SlotDrainer_ctor demo_builder (CircularAllocator_ctor 1 demo_record) [] 4"

definition demo_flushed :: "string drainer" where
  "demo_flushed = demo_drain\<lparr>writer := (writer demo_drain)\<lparr>buffer_flushed := kDone\<rparr>\<rparr>"

lemma loop_run_numeral: "loop_run (numeral k) f s =
    bind_run (f s) (\<lambda>(s, r). case r of Some r \<Rightarrow> Some (Ret (s, r)) | None \<Rightarrow> loop_run (pred_numeral k) f s)"
  by (simp add: numeral_eq_Suc)

lemma while_run_numeral: "while_run (numeral k) cond f s = bind_run (Some (cond s)) (\<lambda>b.
    if b then bind_run (Some (f s)) (while_run (pred_numeral k) cond f) else Some (Ret s))"
  by (simp add: numeral_eq_Suc)

lemma demo_flush: "Flush 10 demo_env demo_drain = Some (Ret demo_flushed)"
  by (simp add: Flush_def TryFlushSlots_def loop_run_numeral flush_slot_def TryFlushSpans_def flush_span_def FlushIntoFile_def InternalFlush_def
      MoreSpansAvailableAndLoaded_def GetNextSpan_def release_current_def MoreSlotsAvailableAndLoaded_def cb_empty_def make_circular_buffer_def
      demo_flushed_def demo_drain_def SlotDrainer_ctor_def demo_builder_def NonBlockingWriter_ctor_def GetMaxChunkSize_def)

lemma demo_acquire: "AcquireSlotToWrite 10 (dr_allocator demo_flushed) =
    Some (Ret (\<lparr>claimed_sequence = 1, ca_buffer = [\<lparr>slot_data = demo_record, slot_in_use = True\<rparr>]\<rparr>, Some 0))"
proof -
  have "dr_allocator demo_flushed = \<lparr>claimed_sequence = 0, ca_buffer = [\<lparr>slot_data = demo_record, slot_in_use = False\<rparr>]\<rparr>"
    by (simp add: demo_flushed_def demo_drain_def SlotDrainer_ctor_def CircularAllocator_ctor_def SetData_def Slot_ctor_def)
  then show ?thesis
    by (simp add: AcquireSlotToWrite_def while_run_numeral acquire_access_def claim_index_def try_index_def TryUse_def)
qed

lemma demo_start:
  "\<exists>d. StartRecord 10 demo_env demo_config False ''CTX'' kInfo demo_drain = Some (Ret (d, Some (SlotHandle_ctor 0)))"
  by (simp add: StartRecord_def ReserveSlot_def demo_flush demo_acquire IsLogLevelEnabled_def demo_config_def
     GetLogRecord_def GetUnderlyingBufferFor_def write_slot_def slot_of_def)

definition demo_system :: "string recorder_system" where
  "demo_system = \<lparr>drain = demo_drain, held = {}, sent = []\<rparr>"

lemma demo_env_ok: "env_ok demo_env id" "takes_all demo_env"
  by (simp_all add: env_ok_def takes_all_def demo_env_def)

lemma demo_sizes: "sizes_ok 1 10" "(16 :: nat) \<le> int32_max"
  by (simp_all add: sizes_ok_def kMaxCircularBufferSize_def int32_max_def)

lemma demo_init: "recorder_init 1 16 ''ECU'' 4 [] demo_system"
  by (simp add: recorder_init_def demo_system_def demo_drain_def TextMessageBuilder_ctor_def LogRecord_ctor_def VerbosePayload_ctor_def
      vector_reserve_def vector_max_size_def demo_builder_def demo_record_def kMaxHeaderSize_def vector_size_def)

lemma demo_started: "\<exists>s. reachable (recorder_init 1 16 ''ECU'' 4 []) (record_step 10 demo_env demo_config False) s \<and> SlotHandle_ctor 0 \<in> held s \<and> sent s = []"
proof -
  obtain d where "StartRecord 10 demo_env demo_config False ''CTX'' kInfo (drain demo_system) = Some (Ret (d, Some (SlotHandle_ctor 0)))"
    using demo_start by (auto simp: demo_system_def)
  then have "record_step 10 demo_env demo_config False () demo_system
      (demo_system\<lparr>drain := d, held := insert (SlotHandle_ctor 0) (held demo_system)\<rparr>)" by (rule record_step.start)
  moreover have "reachable (recorder_init 1 16 ''ECU'' 4 []) (record_step 10 demo_env demo_config False) demo_system"
    by (rule reachable.initial) (rule demo_init)
  ultimately have "reachable (recorder_init 1 16 ''ECU'' 4 []) (record_step 10 demo_env demo_config False)
      (demo_system\<lparr>drain := d, held := insert (SlotHandle_ctor 0) (held demo_system)\<rparr>)" by (rule reachable.move[rotated])
  then show ?thesis
    by (intro exI[of _ "demo_system\<lparr>drain := d, held := insert (SlotHandle_ctor 0) (held demo_system)\<rparr>"]) (simp add: demo_system_def)
qed

theorem StopRecord_writes_all_witness:
  "\<exists>(s :: string recorder_system) h d ms. StopRecord 10 demo_env h (drain s) = Some (Ret d) \<and>
    list_all2 (message_text (LoggingIdentifier_ctor ''ECU'')) [record_of (drain s) (slot_of h)] ms \<and> os d = concat ms"
proof -
  obtain s where s: "reachable (recorder_init 1 16 ''ECU'' 4 []) (record_step 10 demo_env demo_config False) s"
    "SlotHandle_ctor 0 \<in> held s" "sent s = []"
    using demo_started by blast
  have "takes_all demo_env \<and> (1::nat) \<le> 4" using demo_env_ok(2) by simp
  then obtain d ms where "StopRecord 10 demo_env (SlotHandle_ctor 0) (drain s) = Some (Ret d)"
    "list_all2 (message_text (LoggingIdentifier_ctor ''ECU'')) (sent s @ [record_of (drain s) (slot_of (SlotHandle_ctor 0))]) ms"
    "id (os d) = id [] @ concat ms"
    using StopRecord_writes_all[OF demo_env_ok(1) demo_sizes s(1,2)] by blast
  then show ?thesis unfolding s(3) id_apply append_Nil by blast
qed

theorem recorder_output_in_order_witness:
  "\<exists>s. length (sent s) = 1 \<and> reachable (recorder_init 1 16 ''ECU'' 4 []) (record_step 10 demo_env demo_config False) s \<and>
    (\<exists>k ms missing. k \<le> 1 \<and> list_all2 (message_text (LoggingIdentifier_ctor ''ECU'')) (take k (sent s)) ms \<and>
       os (drain s) @ missing = concat ms)"
proof -
  obtain s where s: "reachable (recorder_init 1 16 ''ECU'' 4 []) (record_step 10 demo_env demo_config False) s"
    "SlotHandle_ctor 0 \<in> held s" "sent s = []"
    using demo_started by blast
  obtain d where "StopRecord 10 demo_env (SlotHandle_ctor 0) (drain s) = Some (Ret d)"
    using rec_StopRecord[OF demo_env_ok(1) demo_sizes(1) reachable_rec_inv[OF demo_env_ok(1) demo_sizes s(1)] s(2)] by blast
  from reachable.move[OF s(1) record_step.stop[OF s(2) this]] obtain s1 where
    s1: "reachable (recorder_init 1 16 ''ECU'' 4 []) (record_step 10 demo_env demo_config False) s1" "length (sent s1) = 1"
    using s(3) by fastforce
  show ?thesis using recorder_output_in_order[OF demo_env_ok(1) demo_sizes s1(1)] s1 by fastforce
qed

end
