(* ===== verification/Spec2Isabelle.thy ===== *)
theory Spec2Isabelle
  imports Safe_Math Bit_Manipulation Base64 Fs_Path Circular_Buffer Hash_Factory Intrusive_List
    Log_Payload Log_Slots Logger_Container Log_Recorder
begin

text \<open>
  A verification of the base libraries under src/score: arithmetic, bits, text codecs, paths, containers,
  hashing and logging. Each theory follows the C++ sources function by function; a definition has the name
  of the function it models, with a suffix where one name has several overloads or is taken.

  \<^bold>\<open>How code is modelled.\<close> A function that may fail returns an \<open>outcome\<close> (theory Prelude): a value,
  an error object, the end of the program by an assertion or \<open>std::abort\<close>, or undefined behaviour. A property
  that gives the outcome as \<open>Ret\<close> or \<open>Err\<close> therefore excludes aborts and undefined behaviour. Classes are
  records, enumerations are datatypes, and machine integers are words or integers with their wrap-around written
  out. A loop whose end is not evident from its arguments runs with fuel and yields \<open>None\<close> without it; the
  properties say how much fuel is enough, and so also that the loop ends. Code from outside of src, such as the
  OpenSSL library, input streams, \<open>printf\<close> for floating-point numbers and system calls, is a parameter, with
  the documented behaviour as a named assumption and an instance for which the assumption holds.

  \<^bold>\<open>Arithmetic and bits.\<close>
  Safe_Math models language/safecpp/safe_math on the integral types with promotions and conversions as C++ has
  them: comparison, cast, absolute value, negation and the four operations of comparison.h, cast.h, absolute.h,
  negate.h, addition_subtraction.h, multiplication.h and division.h. Each agrees with the operation on the
  integers, and reports an error exactly when the result does not fit; the locale \<open>checked_op\<close> holds the
  common consequences. Bit_Manipulation models bitmanipulation: bits, half bytes and bitmask operators.

  \<^bold>\<open>Text and paths.\<close>
  Base64 models utils/base64.cpp; encoding is the one of RFC 4648, and decoding inverts it. Fs_Path models
  filesystem/path.cpp: parsing, decomposition, concatenation, iteration and \<open>LexicallyNormal\<close>, which
  is compared with a definition by a stack of names.

  \<^bold>\<open>Containers.\<close>
  Circular_Buffer models language/futurecpp circular_buffer.hpp with the living and dead objects of its storage;
  the locales \<open>bounded_history\<close> and \<open>bounded_deque\<close> say what a bounded buffer promises, and the
  container interprets them. Intrusive_List models containers/intrusive_list.h on a store of
  nodes; programs of list operations refine functions on lists, for both ways of disposing of elements (locale
  \<open>element_disposer\<close>).

  \<^bold>\<open>Hashing.\<close>
  Hash_Common has the value types of hash/code/core and common, Hash_Calculator the interface
  \<open>IHashCalculator\<close> as the locale \<open>hash_calculator\<close>, with the reading of streams in blocks. Sha256 and Crc32
  are the two calculators of the library, equal to FIPS 180-4 and to the bit-serial checksum of
  IEEE 802.3. Hash_Factory adds the calculator on OpenSSL, the factories and the functions that hash in
  one call; they return the digest of the chosen algorithm or the stated errors, and it shows which digest contexts
  of OpenSSL are freed.

  \<^bold>\<open>Logging.\<close>
  Log_Payload models the buffer of a message and the formatting of arguments (mw/log/detail/verbose_payload.cpp,
  text_recorder/text_format.h); Log_Identifier and Log_Record the identifiers, levels, handles and records.
  Log_Slots models the allocator of message slots (circular_allocator.h) and Wait_Free_Stack the stack
  behind the loggers (wait_free_stack.h) at the level of single accesses to shared memory: the step relations
  interleave the accesses of the clients in any order, and the locales \<open>invariant_system\<close> and
  \<open>wait_free_system\<close> of the theory Interleaving give invariants of all reachable states and bounds on the own
  steps of a client. Logger_Container hands out loggers by context (logger_container.cpp) and uses the stack through
  the locale \<open>push_stack\<close>. Log_Drain writes the messages to the file (text_message_builder.cpp,
  non_blocking_writer.cpp, slot_drainer.cpp), with the queue of Circular_Buffer and the slots of Log_Slots, and
  Log_Recorder is the recorder on top (file_output_backend.cpp, text_recorder.cpp): for every sequence of calls and
  every behaviour of the file, the file holds the stopped messages completely and in order, up to an end of the
  last one that is still to come.

  \<^bold>\<open>Bounds.\<close>
  Sizes are below \<open>2 ^ 64\<close> and payloads at most \<open>2 ^ 31 - 1\<close> bytes, as the code clamps them. SHA-256 takes
  messages of fewer than \<open>2 ^ 61 - 1\<close> bytes, whose length in bits fits the padding. The recorder has at most
  1024 slots, the capacity of the queue in slot_drainer.h; with n slots, \<open>2 * n + 5\<close> rounds are enough for every loop
  of a call.

  \<^bold>\<open>What is not modelled.\<close>
  Accesses to atomic variables are sequentially consistent in the models; weaker memory orders are not
  considered. The calls of the recorder are atomic in Log_Recorder: the drainer works under its mutex, and the
  interleaving of single accesses is the subject of Log_Slots. Overloads of Safe_Math on floating-point numbers,
  the parts of intrusive_list.h that are disabled by the preprocessor, moves of log records and the streams of a
  logger are left out. Of the other libraries, the wrappers of the operating
  system, threads and sockets have no logic of their own to verify; the JSON reader and writer, the other
  containers, serialization and the remaining back ports of standard types are not treated, and the Rust crates
  are outside of this development.
\<close>

end
